(* ===== verification/Prelude.thy ===== *)
theory Prelude
  imports Main "HOL-Library.Word" "HOL-Library.AList" "HOL-Library.Multiset"
begin

unbundle bit_operations_syntax

text \<open>
  What every component of the storage engine shares: the integer types of \<open>common.rs\<close>, the
  constants \<open>PAGE_SIZE\<close>, \<open>DB_IO_SIZE\<close> and \<open>INVALID_PAGE_ID\<close>, the ways a Rust computation of
  this crate stops abnormally (\<open>panic\<close>), the sequencing of fallible steps, checked machine
  arithmetic, byte slices with their bounds checks, and the little-endian encodings
  \<open>to_le_bytes\<close> / \<open>from_le_bytes\<close>. Lengths and counts of type \<open>usize\<close> and file offsets of type
  \<open>u64\<close> are \<open>nat\<close>; the 32-bit counters and identifiers and the atomics keep their width.
\<close>

named_theorems monad_simps \<open>sequencing of fallible steps\<close>
named_theorems slice_simps \<open>reads and writes of byte slices\<close>
named_theorems state_defs \<open>definitions of the state transformers\<close>

section \<open>Types and constants of common.rs\<close>

type_synonym u8 = "8 word"
type_synonym u32 = "32 word"
type_synonym u64 = "64 word"
type_synonym page_id = u32
type_synonym frame_id = u32

definition PAGE_SIZE :: nat where
  "PAGE_SIZE = 8192"

definition DB_IO_SIZE :: nat where
  "DB_IO_SIZE = 16"

definition INVALID_PAGE_ID :: page_id where
  "INVALID_PAGE_ID = - 1"

lemma PAGE_SIZE_pos [simp]: "0 < PAGE_SIZE"
  by (simp add: PAGE_SIZE_def)

lemma PAGE_SIZE_neq_0 [simp]: "PAGE_SIZE \<noteq> 0"
  by (simp add: PAGE_SIZE_def)

lemma DB_IO_SIZE_pos [simp]: "0 < DB_IO_SIZE"
  by (simp add: DB_IO_SIZE_def)

section \<open>Abnormal ends and sequencing\<close>

text \<open>
  A panic ends the operation and its state is gone. \<open>ArithOverflow\<close> is the overflow check of
  the development profile (the one \<open>cargo build\<close>, \<open>cargo test\<close> and \<open>cargo run\<close> use),
  \<open>UnwrapNone\<close> is \<open>unwrap\<close> or \<open>expect\<close> on an absent value, \<open>IndexError\<close> a slice or index out of
  range, \<open>PageOutOfBounds\<close> and \<open>FileTooLarge\<close> the two explicit panics of the disk manager,
  \<open>ChannelClosed\<close> a channel whose other end is gone, \<open>WouldBlock\<close> a lock acquisition that never
  returns in a single thread, \<open>AssertFailed\<close> an assertion of a unit test.
\<close>

datatype panic =
    ArithOverflow
  | UnwrapNone
  | IndexError
  | PageOutOfBounds
  | FileTooLarge
  | ChannelClosed
  | WouldBlock
  | AssertFailed

type_synonym 'a res = "panic + 'a"

fun seq :: "'a res \<Rightarrow> ('a \<Rightarrow> 'b res) \<Rightarrow> 'b res" where
  "seq (Inl e) f = Inl e"
| "seq (Inr x) f = f x"

lemma seq_Inr_iff [monad_simps]: "seq m f = Inr y \<longleftrightarrow> (\<exists>x. m = Inr x \<and> f x = Inr y)"
  by (cases m) auto

lemma seq_Inl_iff [monad_simps]:
  "seq m f = Inl e \<longleftrightarrow> m = Inl e \<or> (\<exists>x. m = Inr x \<and> f x = Inl e)"
  by (cases m) auto

lemma seq_assoc [monad_simps]: "seq (seq m f) g = seq m (\<lambda>x. seq (f x) g)"
  by (cases m) auto

lemma seq_cong [fundef_cong]:
  "m = m' \<Longrightarrow> (\<And>x. m' = Inr x \<Longrightarrow> f x = f' x) \<Longrightarrow> seq m f = seq m' f'"
  by (cases m') auto

definition asserting :: "bool \<Rightarrow> 'a res \<Rightarrow> 'a res" where
  "asserting b r = (if b then r else Inl AssertFailed)"

lemma asserting_simps [simp]: "asserting True r = r" "asserting False r = Inl AssertFailed"
  by (simp_all add: asserting_def)

definition unwrap :: "'a option \<Rightarrow> 'a res" where
  "unwrap m = (case m of None \<Rightarrow> Inl UnwrapNone | Some x \<Rightarrow> Inr x)"

lemma unwrap_simps [simp]: "unwrap (Some x) = Inr x" "unwrap None = Inl UnwrapNone"
  by (simp_all add: unwrap_def)

lemma unwrap_Inr_iff [monad_simps]: "unwrap m = Inr x \<longleftrightarrow> m = Some x"
  by (cases m) auto

section \<open>Checked machine arithmetic\<close>

definition checked_add :: "u32 \<Rightarrow> u32 \<Rightarrow> u32 res" where
  "checked_add a b = (if unat a + unat b < 2 ^ 32 then Inr (a + b) else Inl ArithOverflow)"

definition checked_sub :: "u32 \<Rightarrow> u32 \<Rightarrow> u32 res" where
  "checked_sub a b = (if b \<le> a then Inr (a - b) else Inl ArithOverflow)"

definition usize_to_u32 :: "nat \<Rightarrow> u32 res" where
  "usize_to_u32 n = (if n < 2 ^ 32 then Inr (of_nat n) else Inl UnwrapNone)"

lemma checked_add_Inr: "checked_add a b = Inr c \<Longrightarrow> unat c = unat a + unat b"
  by (auto simp: checked_add_def unat_word_ariths split: if_splits)

lemma checked_add_ok: "unat a + unat b < 2 ^ 32 \<Longrightarrow> \<exists>c. checked_add a b = Inr c \<and> unat c = unat a + unat b"
  by (auto simp: checked_add_def unat_word_ariths)

lemma checked_sub_Inr: "checked_sub a b = Inr c \<Longrightarrow> unat c = unat a - unat b \<and> unat b \<le> unat a"
  by (auto simp: checked_sub_def unat_sub_if' word_le_nat_alt split: if_splits)

lemma checked_sub_ok: "unat b \<le> unat a \<Longrightarrow> \<exists>c. checked_sub a b = Inr c \<and> unat c = unat a - unat b"
  by (auto simp: checked_sub_def unat_sub_if' word_le_nat_alt)

lemma checked_sub_Inl_iff: "checked_sub a b = Inl e \<longleftrightarrow> e = ArithOverflow \<and> unat a < unat b"
  by (auto simp: checked_sub_def word_le_nat_alt)

lemma unat_of_nat_u32: "n < 2 ^ 32 \<Longrightarrow> unat (of_nat n :: u32) = n"
  by (simp add: unat_of_nat take_bit_nat_eq_self)

lemma usize_to_u32_Inr: "usize_to_u32 n = Inr w \<Longrightarrow> unat w = n"
  by (auto simp: usize_to_u32_def unat_of_nat_u32 split: if_splits)

section \<open>Byte slices\<close>

text \<open>\<open>get off n xs\<close> is the slice \<open>xs[off .. off + n]\<close>, \<open>put off bs xs\<close> overwrites it.\<close>

definition get :: "nat \<Rightarrow> nat \<Rightarrow> 'a list \<Rightarrow> 'a list" where
  "get off n xs = take n (drop off xs)"

definition put :: "nat \<Rightarrow> 'a list \<Rightarrow> 'a list \<Rightarrow> 'a list" where
  "put off bs xs = take off xs @ bs @ drop (off + length bs) xs"

text \<open>The bounds-checked forms, as Rust indexes them.\<close>

definition slice :: "nat \<Rightarrow> nat \<Rightarrow> 'a list \<Rightarrow> 'a list res" where
  "slice off n xs = (if off + n \<le> length xs then Inr (get off n xs) else Inl IndexError)"

definition copy_into :: "nat \<Rightarrow> 'a list \<Rightarrow> 'a list \<Rightarrow> 'a list res" where
  "copy_into off bs xs = (if off + length bs \<le> length xs then Inr (put off bs xs) else Inl IndexError)"

definition index :: "'a list \<Rightarrow> nat \<Rightarrow> 'a res" where
  "index xs i = (if i < length xs then Inr (xs ! i) else Inl IndexError)"

lemma length_get [simp]: "length (get off n xs) = min n (length xs - off)"
  by (simp add: get_def)

lemma length_put [simp]: "off + length bs \<le> length xs \<Longrightarrow> length (put off bs xs) = length xs"
  by (simp add: put_def)

lemma nth_get: "i < n \<Longrightarrow> off + i < length xs \<Longrightarrow> get off n xs ! i = xs ! (off + i)"
  by (simp add: get_def)

lemma nth_put:
  "off + length bs \<le> length xs \<Longrightarrow> i < length xs \<Longrightarrow>
   put off bs xs ! i = (if off \<le> i \<and> i < off + length bs then bs ! (i - off) else xs ! i)"
  by (auto simp: put_def nth_append)

lemma get_put_same [slice_simps]:
  "off + length bs \<le> length xs \<Longrightarrow> n = length bs \<Longrightarrow> get off n (put off bs xs) = bs"
  by (simp add: get_def put_def)

lemma get_put_other [slice_simps]:
  assumes "off + length bs \<le> length xs" and "o' + n \<le> off \<or> off + length bs \<le> o'"
  shows "get o' n (put off bs xs) = get o' n xs"
proof (rule nth_equalityI)
  show "length (get o' n (put off bs xs)) = length (get o' n xs)"
    using assms by simp
next
  fix i
  assume "i < length (get o' n (put off bs xs))"
  with assms(1) have i: "i < n" "o' + i < length xs" by auto
  with assms show "get o' n (put off bs xs) ! i = get o' n xs ! i"
    by (auto simp: nth_get nth_put)
qed

text \<open>Adjacent writes are one write, and a slice of a slice is a slice.\<close>

lemma put_put_adjacent:
  assumes "n = off + length a" and "n + length b \<le> length xs"
  shows "put n b (put off a xs) = put off (a @ b) xs"
  using assms by (simp add: put_def ac_simps)

lemma get_get: "j + m \<le> n \<Longrightarrow> get j m (get off n xs) = get (off + j) m xs"
  by (simp add: get_def min_def add.commute drop_take)

lemma get_append [slice_simps]:
  "get 0 (length a) (a @ b) = a" "length a \<le> j \<Longrightarrow> get j m (a @ b) = get (j - length a) m b"
  by (simp_all add: get_def)

lemma get_all: "n = length xs \<Longrightarrow> get 0 n xs = xs"
  by (simp add: get_def)

lemma get_append_left: "off + n \<le> length xs \<Longrightarrow> get off n (xs @ ys) = get off n xs"
  by (simp add: get_def)

lemma slice_ok [slice_simps]: "off + n \<le> length xs \<Longrightarrow> slice off n xs = Inr (get off n xs)"
  by (simp add: slice_def)

lemma copy_into_ok [slice_simps]:
  "off + length bs \<le> length xs \<Longrightarrow> copy_into off bs xs = Inr (put off bs xs)"
  by (simp add: copy_into_def)

lemma index_ok [simp]: "i < length xs \<Longrightarrow> index xs i = Inr (xs ! i)"
  by (simp add: index_def)

lemma index_Inr_iff [monad_simps]: "index xs i = Inr x \<longleftrightarrow> i < length xs \<and> xs ! i = x"
  by (auto simp: index_def)

section \<open>Little-endian integers\<close>

fun le_bytes :: "nat \<Rightarrow> 'a::len word \<Rightarrow> u8 list" where
  "le_bytes 0 w = []"
| "le_bytes (Suc n) w = ucast w # le_bytes n (drop_bit 8 w)"

fun of_le_bytes :: "u8 list \<Rightarrow> 'a::len word" where
  "of_le_bytes [] = 0"
| "of_le_bytes (b # bs) = ucast b OR push_bit 8 (of_le_bytes bs)"

lemma length_le_bytes [simp]: "length (le_bytes n w) = n"
  by (induction n arbitrary: w) auto

lemma of_le_bytes_le_bytes: "of_le_bytes (le_bytes n w) = take_bit (8 * n) w"
proof (induction n arbitrary: w)
  case 0
  then show ?case by simp
next
  case (Suc n)
  show ?case
    unfolding le_bytes.simps of_le_bytes.simps Suc.IH
    by (rule bit_word_eqI) (auto simp: bit_simps not_less)
qed

definition u32_to_le :: "u32 \<Rightarrow> u8 list" where
  "u32_to_le w = le_bytes 4 w"

definition u32_from_le :: "u8 list \<Rightarrow> u32" where
  "u32_from_le bs = of_le_bytes bs"

definition u64_to_le :: "u64 \<Rightarrow> u8 list" where
  "u64_to_le w = le_bytes 8 w"

definition u64_from_le :: "u8 list \<Rightarrow> u64" where
  "u64_from_le bs = of_le_bytes bs"

lemma length_u32_to_le [simp]: "length (u32_to_le w) = 4"
  by (simp add: u32_to_le_def)

lemma length_u64_to_le [simp]: "length (u64_to_le w) = 8"
  by (simp add: u64_to_le_def)

lemma u32_from_to_le [simp]: "u32_from_le (u32_to_le w) = w"
  by (simp add: u32_to_le_def u32_from_le_def of_le_bytes_le_bytes take_bit_word_eq_self)

lemma u64_from_to_le [simp]: "u64_from_le (u64_to_le w) = w"
  by (simp add: u64_to_le_def u64_from_le_def of_le_bytes_le_bytes take_bit_word_eq_self)

lemma u32_from_le_zero [simp]: "u32_from_le (replicate n 0) = 0"
  unfolding u32_from_le_def by (induction n) auto

section \<open>Association lists\<close>

text \<open>
  A \<open>HashMap\<close> is an association list with distinct keys; the order of the list is the map's
  iteration order, which no theorem may depend on.
\<close>

lemma map_of_update [simp]: "map_of (AList.update k v m) = (map_of m)(k \<mapsto> v)"
  by (simp add: update_conv')

lemma map_of_delete [simp]: "map_of (AList.delete k m) = (map_of m)(k := None)"
  by (simp add: delete_conv')

lemma map_of_eq_Some_iff_distinct:
  "distinct (map fst m) \<Longrightarrow> map_of m k = Some v \<longleftrightarrow> (k, v) \<in> set m"
  by (metis map_of_eq_Some_iff)

lemma set_update_new: "k \<notin> fst ` set m \<Longrightarrow> AList.update k v m = m @ [(k, v)]"
  by (induction m) auto

lemma update_same: "map_of m k = Some v \<Longrightarrow> AList.update k v m = m"
  by (induction m) (auto split: if_splits)

lemma set_delete: "set (AList.delete k m) = {kv \<in> set m. fst kv \<noteq> k}"
  by (auto simp: AList.delete_eq)

lemma delete_notin: "k \<notin> fst ` set m \<Longrightarrow> AList.delete k m = m"
  by (induction m) (auto simp: AList.delete_eq)

lemma mset_delete:
  "distinct (map fst m) \<Longrightarrow> map_of m k = Some v \<Longrightarrow> mset m = add_mset (k, v) (mset (AList.delete k m))"
proof (induction m)
  case Nil
  then show ?case by simp
next
  case (Cons kv m)
  obtain k' v' where kv: "kv = (k', v')" by (cases kv)
  show ?case
  proof (cases "k' = k")
    case True
    with Cons.prems kv have "AList.delete k m = m" by (intro delete_notin) auto
    with True Cons.prems(2) kv show ?thesis by simp
  next
    case False
    with Cons kv show ?thesis by simp
  qed
qed

lemma length_delete_mem:
  "distinct (map fst m) \<Longrightarrow> map_of m k = Some v \<Longrightarrow> length m = Suc (length (AList.delete k m))"
  by (metis mset_delete size_add_mset size_mset)

end
