(* ===== verification/FrameHeader.thy ===== *)
theory FrameHeader
  imports Prelude
begin

text \<open>
  \<open>frame_header.rs\<close>: one in-memory slot for a page. \<open>pin_count\<close> is an \<open>AtomicUsize\<close>, whose
  \<open>fetch_add\<close> and \<open>fetch_sub\<close> wrap, so it keeps its 64 bits. The \<open>RwLock\<close> around the page bytes is
  modelled with its holders, because the code above keeps a borrow of it alive across calls: an
  acquisition that could never succeed in a single thread is \<open>WouldBlock\<close>.
\<close>

datatype rwlock = Unlocked | Readers nat | Writer

record frame_header =
  fh_id :: frame_id
  pin_count :: u64
  is_dirty :: bool
  fh_lock :: rwlock
  fh_data :: "u8 list"

definition frame_new :: "frame_id \<Rightarrow> frame_header" where
  "frame_new i =
     \<lparr>fh_id = i, pin_count = 0, is_dirty = False, fh_lock = Unlocked, fh_data = replicate PAGE_SIZE 0\<rparr>"

section \<open>The lock around the bytes\<close>

definition lock_read :: "frame_header \<Rightarrow> frame_header res" where
  "lock_read fr = (case fh_lock fr of
       Unlocked \<Rightarrow> Inr (fr\<lparr>fh_lock := Readers 1\<rparr>)
     | Readers n \<Rightarrow> Inr (fr\<lparr>fh_lock := Readers (Suc n)\<rparr>)
     | Writer \<Rightarrow> Inl WouldBlock)"

definition unlock_read :: "frame_header \<Rightarrow> frame_header" where
  "unlock_read fr = (case fh_lock fr of
       Readers n \<Rightarrow> fr\<lparr>fh_lock := (if n \<le> 1 then Unlocked else Readers (n - 1))\<rparr>
     | _ \<Rightarrow> fr)"

definition lock_write :: "frame_header \<Rightarrow> frame_header res" where
  "lock_write fr = (case fh_lock fr of
       Unlocked \<Rightarrow> Inr (fr\<lparr>fh_lock := Writer\<rparr>)
     | _ \<Rightarrow> Inl WouldBlock)"

definition unlock_write :: "frame_header \<Rightarrow> frame_header" where
  "unlock_write fr = fr\<lparr>fh_lock := Unlocked\<rparr>"

text \<open>A borrow that lives for one statement: \<open>data.read().unwrap().clone()\<close> and
  \<open>data.write().unwrap().copy_from_slice(..)\<close>.\<close>

definition frame_clone_data :: "frame_header \<Rightarrow> u8 list res" where
  "frame_clone_data fr = seq (lock_read fr) (\<lambda>fr'. Inr (fh_data fr'))"

definition frame_copy_from :: "u8 list \<Rightarrow> frame_header \<Rightarrow> frame_header res" where
  "frame_copy_from bs fr =
     seq (lock_write fr) (\<lambda>fr'.
       if length bs = length (fh_data fr') then Inr (unlock_write (fr'\<lparr>fh_data := bs\<rparr>))
       else Inl IndexError)"

text \<open>\<open>FrameHeader::reset\<close>: zero the bytes under the write lock, then the two atomics.\<close>

definition frame_reset :: "frame_header \<Rightarrow> frame_header res" where
  "frame_reset fr =
     seq (lock_write fr) (\<lambda>fr'.
       Inr ((unlock_write (fr'\<lparr>fh_data := replicate (length (fh_data fr')) 0\<rparr>))
              \<lparr>pin_count := 0, is_dirty := False\<rparr>))"

definition pin :: "frame_header \<Rightarrow> frame_header" where
  "pin fr = fr\<lparr>pin_count := pin_count fr + 1\<rparr>"

definition unpin :: "frame_header \<Rightarrow> frame_header" where
  "unpin fr = fr\<lparr>pin_count := pin_count fr - 1\<rparr>"

lemma lock_unlock_read: "lock_read fr = Inr fr' \<Longrightarrow> fh_lock fr \<noteq> Readers 0 \<Longrightarrow> unlock_read fr' = fr"
  by (cases "fh_lock fr") (auto simp: lock_read_def unlock_read_def)

lemma lock_read_unlocked [simp]: "fh_lock fr = Unlocked \<Longrightarrow> lock_read fr = Inr (fr\<lparr>fh_lock := Readers 1\<rparr>)"
  by (simp add: lock_read_def)

lemma lock_write_unlocked [simp]: "fh_lock fr = Unlocked \<Longrightarrow> lock_write fr = Inr (fr\<lparr>fh_lock := Writer\<rparr>)"
  by (simp add: lock_write_def)

lemma frame_clone_unlocked [simp]: "fh_lock fr = Unlocked \<Longrightarrow> frame_clone_data fr = Inr (fh_data fr)"
  by (simp add: frame_clone_data_def)

lemma frame_copy_unlocked [simp]:
  "fh_lock fr = Unlocked \<Longrightarrow> length bs = length (fh_data fr) \<Longrightarrow> frame_copy_from bs fr = Inr (fr\<lparr>fh_data := bs\<rparr>)"
  by (simp add: frame_copy_from_def unlock_write_def)

lemma frame_reset_unlocked [simp]:
  "fh_lock fr = Unlocked \<Longrightarrow> frame_reset fr =
     Inr (fr\<lparr>fh_data := replicate (length (fh_data fr)) 0, pin_count := 0, is_dirty := False\<rparr>)"
  by (simp add: frame_reset_def unlock_write_def)

lemma frame_unlocked_id [simp]: "fh_lock fr = Unlocked \<Longrightarrow> fr\<lparr>fh_lock := Unlocked\<rparr> = fr"
  by (cases fr) simp

lemma frame_write_unlocked [simp]:
  "fh_lock fr = Unlocked \<Longrightarrow> fr\<lparr>is_dirty := d, fh_data := b, fh_lock := Unlocked\<rparr> = fr\<lparr>is_dirty := d, fh_data := b\<rparr>"
  by (cases fr) simp

lemma unat_pin: "unat (pin_count fr) + 1 < 2 ^ 64 \<Longrightarrow> unat (pin_count (pin fr)) = unat (pin_count fr) + 1"
  by (simp add: pin_def unat_word_ariths)

lemma unat_unpin: "0 < unat (pin_count fr) \<Longrightarrow> unat (pin_count (unpin fr)) = unat (pin_count fr) - 1"
  by (simp add: unpin_def unat_sub_if')

end
