(* ===== verification/ArcReplacer.thy ===== *)
theory ArcReplacer
  imports Prelude
begin

text \<open>
  \<open>arc_replacer.rs\<close>: the adaptive replacement policy. The four \<open>VecDeque\<close>s are lists whose head is
  the front; \<open>HashSet\<close>s are sets and the \<open>HashMap\<close> of time stamps an association list. No code reads
  a time stamp, so the value of \<open>SystemTime::now()\<close> is represented by the number of the reading
  (\<open>clock_readings\<close>). First the contract the buffer pool relies on, then the code, then its
  interpretation.
\<close>

section \<open>The contract of a replacement policy\<close>

text \<open>Ask for victims until there are \<open>n\<close> of them or there is none left.\<close>

fun drain_with :: "('s \<Rightarrow> (frame_id option \<times> 's) res) \<Rightarrow> nat \<Rightarrow> 's \<Rightarrow> (frame_id list \<times> 's) res" where
  "drain_with vic 0 s = Inr ([], s)"
| "drain_with vic (Suc n) s =
     seq (vic s) (\<lambda>(r, s'). case r of
         None \<Rightarrow> Inr ([], s')
       | Some f \<Rightarrow> seq (drain_with vic n s') (\<lambda>(fs, s''). Inr (f # fs, s'')))"

locale page_replacer =
  fixes rep_inv :: "'s \<Rightarrow> bool"
    and entries :: "'s \<Rightarrow> (frame_id \<times> page_id) set"
    and candidates :: "'s \<Rightarrow> frame_id set"
    and admissible :: "frame_id \<Rightarrow> page_id \<Rightarrow> 's \<Rightarrow> bool"
    and access :: "frame_id \<Rightarrow> page_id \<Rightarrow> 's \<Rightarrow> 's res"
    and mark :: "frame_id \<Rightarrow> 's \<Rightarrow> 's res"
    and victim :: "'s \<Rightarrow> (frame_id option \<times> 's) res"
  assumes access_law: "rep_inv s \<Longrightarrow> admissible f p s \<Longrightarrow> access f p s = Inr s' \<Longrightarrow>
      rep_inv s' \<and> entries s' = insert (f, p) (entries s) \<and> candidates s' = candidates s"
    and mark_law: "rep_inv s \<Longrightarrow> mark f s = Inr s' \<Longrightarrow>
      rep_inv s' \<and> entries s' = entries s \<and> candidates s' = insert f (candidates s)"
    and victim_total: "rep_inv s \<Longrightarrow> \<exists>r s'. victim s = Inr (r, s')"
    and victim_some: "rep_inv s \<Longrightarrow> victim s = Inr (Some f, s') \<Longrightarrow> f \<in> candidates s \<and> rep_inv s'
      \<and> candidates s' = candidates s - {f}
      \<and> (\<exists>p. (f, p) \<in> entries s \<and> entries s' = entries s - {(f, p)} \<and> (\<forall>q. (f, q) \<in> entries s \<longrightarrow> q = p))"
    and victim_none: "rep_inv s \<Longrightarrow> victim s = Inr (None, s') \<Longrightarrow> s' = s \<and> fst ` entries s \<inter> candidates s = {}"
begin

text \<open>As long as some candidate holds a page there is a victim, and it is one of them.\<close>

lemma victim_available:
  assumes "rep_inv s" and "fst ` entries s \<inter> candidates s \<noteq> {}"
  obtains f p s' where "victim s = Inr (Some f, s')" and "f \<in> candidates s" and "(f, p) \<in> entries s"
    and "entries s' = entries s - {(f, p)}" and "candidates s' = candidates s - {f}" and "rep_inv s'"
proof -
  obtain r s' where v: "victim s = Inr (r, s')" using victim_total [OF assms(1)] by blast
  with victim_none [OF assms(1)] assms(2) have "r \<noteq> None" by auto
  with v obtain f where v': "victim s = Inr (Some f, s')" by auto
  from victim_some [OF assms(1) v'] that [OF v'] show ?thesis by blast
qed

lemma victim_gone:
  assumes "rep_inv s" and "victim s = Inr (Some f, s')"
  shows "entries s' = {e \<in> entries s. fst e \<noteq> f}"
proof -
  from victim_some [OF assms] obtain p where
    "entries s' = entries s - {(f, p)}" and "\<And>q. (f, q) \<in> entries s \<Longrightarrow> q = p" by blast
  then show ?thesis by fastforce
qed

text \<open>A drain never repeats a frame, takes only candidates that hold a page, removes exactly their
  entries, and stops early only when no candidate holds a page any more.\<close>

lemma drain_sound:
  assumes "rep_inv s" and "drain_with victim n s = Inr (fs, s')"
  shows "distinct fs \<and> set fs \<subseteq> fst ` entries s \<inter> candidates s \<and> length fs \<le> n
    \<and> entries s' = {e \<in> entries s. fst e \<notin> set fs} \<and> candidates s' = candidates s - set fs
    \<and> rep_inv s' \<and> (length fs < n \<longrightarrow> fst ` entries s' \<inter> candidates s' = {})"
  using assms
proof (induction n arbitrary: s fs)
  case 0
  then show ?case by auto
next
  case (Suc n)
  obtain r s1 where v: "victim s = Inr (r, s1)" using victim_total [OF Suc.prems(1)] by blast
  show ?case
  proof (cases r)
    case None
    with v Suc.prems(2) have "fs = []" "s' = s1" by auto
    with victim_none [OF Suc.prems(1)] v None Suc.prems(1) show ?thesis by auto
  next
    case (Some f)
    with v Suc.prems(2) obtain fs' where
      dr: "drain_with victim n s1 = Inr (fs', s')" and fs: "fs = f # fs'"
      by (auto simp: monad_simps)
    note v' = v [unfolded Some]
    note gone = victim_gone [OF Suc.prems(1) v']
    from victim_some [OF Suc.prems(1) v'] obtain p where f: "f \<in> candidates s" "(f, p) \<in> entries s"
      and c1: "candidates s1 = candidates s - {f}" and inv1: "rep_inv s1" by blast
    from f(2) have fe: "f \<in> fst ` entries s" by (rule image_eqI [rotated]) simp
    note ih = Suc.IH [OF inv1 dr]
    have "fst ` entries s1 \<subseteq> fst ` entries s" unfolding gone by auto
    then have "set fs' \<subseteq> fst ` entries s \<inter> candidates s - {f}" using ih c1 by auto
    moreover have "entries s' = {e \<in> entries s. fst e \<notin> set fs}" using ih fs unfolding gone by auto
    moreover have "candidates s' = candidates s - set fs" using ih fs unfolding c1 by auto
    moreover from ih have "length fs' < n \<longrightarrow> fst ` entries s' \<inter> candidates s' = {}" by blast
    then have "length fs < Suc n \<longrightarrow> fst ` entries s' \<inter> candidates s' = {}"
      unfolding fs length_Cons Suc_less_eq .
    moreover have "length fs \<le> Suc n" "rep_inv s'" using ih fs by simp_all
    moreover have "distinct fs" "set fs \<subseteq> fst ` entries s \<inter> candidates s"
      using calculation(1) ih f(1) fe fs by auto
    ultimately show ?thesis by blast
  qed
qed

lemma drain_total: "rep_inv s \<Longrightarrow> \<exists>fs s'. drain_with victim n s = Inr (fs, s')"
proof (induction n arbitrary: s)
  case 0
  then show ?case by simp
next
  case (Suc n)
  obtain r s1 where v: "victim s = Inr (r, s1)" using victim_total [OF Suc.prems] by blast
  show ?case
  proof (cases r)
    case None
    with v show ?thesis by simp
  next
    case (Some f)
    with victim_some [OF Suc.prems] v have "rep_inv s1" by blast
    with Suc.IH obtain fs s' where "drain_with victim n s1 = Inr (fs, s')" by blast
    with v Some show ?thesis by simp
  qed
qed

end

section \<open>The code\<close>

record arc_replacer =
  mru :: "(frame_id \<times> page_id) list"
  mfu :: "(frame_id \<times> page_id) list"
  timestamp_access :: "((frame_id \<times> page_id) \<times> nat) list"
  mru_ghost :: "page_id list"
  mfu_ghost :: "page_id list"
  mru_target_size :: u32
  replacer_size :: nat
  curr_size :: u32
  dirty_pages :: "page_id set"
  evictable_pages :: "frame_id set"
  clock_readings :: nat

definition arc_new :: "nat \<Rightarrow> arc_replacer" where
  "arc_new n = \<lparr>mru = [], mfu = [], timestamp_access = [], mru_ghost = [], mfu_ghost = [],
     mru_target_size = 0, replacer_size = n, curr_size = 0, dirty_pages = {}, evictable_pages = {},
     clock_readings = 0\<rparr>"

definition arc_size :: "arc_replacer \<Rightarrow> nat" where
  "arc_size s = card (evictable_pages s)"

definition set_evictable :: "frame_id \<Rightarrow> arc_replacer \<Rightarrow> arc_replacer res" where
  "set_evictable f s =
     seq (checked_add (curr_size s) 1) (\<lambda>c.
       Inr (s\<lparr>evictable_pages := insert f (evictable_pages s), curr_size := c\<rparr>))"

text \<open>The target after a hit in the MRU ghost list; the two operands of \<open>&&\<close> in order.\<close>

definition mru_ghost_target :: "arc_replacer \<Rightarrow> u32 res" where
  "mru_ghost_target s =
     seq (if length (mru_ghost s) \<ge> length (mfu_ghost s)
          then seq (checked_add (mru_target_size s) 1) (\<lambda>t.
                 seq (usize_to_u32 (replacer_size s)) (\<lambda>n. Inr (t < n)))
          else Inr False) (\<lambda>by_one.
       if by_one then checked_add (mru_target_size s) 1
       else if length (mru_ghost s) = 0 then Inl ArithOverflow
       else
         let increase = of_nat (length (mfu_ghost s) div length (mru_ghost s))
         in seq (checked_add (mru_target_size s) increase) (\<lambda>t.
              seq (usize_to_u32 (replacer_size s)) (\<lambda>n.
                if t \<le> n then Inr t else Inr (mru_target_size s))))"

text \<open>The target after a hit in the MFU ghost list.\<close>

definition mfu_ghost_target :: "arc_replacer \<Rightarrow> u32 res" where
  "mfu_ghost_target s =
     seq (if length (mfu_ghost s) \<ge> length (mru_ghost s)
          then seq (checked_sub (mru_target_size s) 1) (\<lambda>t. Inr (t > 0))
          else Inr False) (\<lambda>by_one.
       if by_one then checked_sub (mru_target_size s) 1
       else if length (mfu_ghost s) = 0 then Inl ArithOverflow
       else
         let decrease = of_nat (length (mru_ghost s) div length (mfu_ghost s))
         in if mru_target_size s \<ge> decrease then checked_sub (mru_target_size s) decrease
            else Inr (mru_target_size s))"

definition record_access :: "frame_id \<Rightarrow> page_id \<Rightarrow> arc_replacer \<Rightarrow> arc_replacer res" where
  "record_access f p s0 =
     (let s = s0\<lparr>timestamp_access := AList.update (f, p) (clock_readings s0) (timestamp_access s0),
                 clock_readings := clock_readings s0 + 1\<rparr>
      in if (f, p) \<in> set (mru s) \<or> (f, p) \<in> set (mfu s) then
           Inr (s\<lparr>mru := filter (\<lambda>e. e \<noteq> (f, p)) (mru s),
                  mfu := (f, p) # filter (\<lambda>e. e \<noteq> (f, p)) (mfu s)\<rparr>)
         else if p \<in> set (mru_ghost s) then
           seq (mru_ghost_target s) (\<lambda>t.
             Inr (s\<lparr>mru_target_size := t, mru_ghost := filter (\<lambda>a. a \<noteq> p) (mru_ghost s),
                    mfu := (f, p) # mfu s\<rparr>))
         else if p \<in> set (mfu_ghost s) then
           seq (mfu_ghost_target s) (\<lambda>t.
             Inr (s\<lparr>mru_target_size := t, mfu_ghost := filter (\<lambda>a. a \<noteq> p) (mfu_ghost s),
                    mfu := (f, p) # mfu s\<rparr>))
         else if length (mru s) + length (mru_ghost s) = replacer_size s then
           Inr (s\<lparr>mru_ghost := butlast (mru_ghost s), mru := (f, p) # mru s\<rparr>)
         else if length (mru s) + length (mru_ghost s) < replacer_size s then
           (if length (mru s) + length (mfu s) + length (mfu_ghost s) + length (mru_ghost s)
                 = 2 * replacer_size s
            then Inr (s\<lparr>mfu_ghost := butlast (mfu_ghost s), mru := (f, p) # mru s\<rparr>)
            else Inr (s\<lparr>mru := (f, p) # mru s\<rparr>))
         else Inr s)"

text \<open>\<open>for i in (0..len).rev()\<close> with the test for an evictable frame: the index it stops at.\<close>

fun scan_back :: "frame_id set \<Rightarrow> (frame_id \<times> page_id) list \<Rightarrow> nat \<Rightarrow> nat option" where
  "scan_back E xs 0 = None"
| "scan_back E xs (Suc i) = (if fst (xs ! i) \<in> E then Some i else scan_back E xs i)"

definition remove_nth :: "nat \<Rightarrow> 'a list \<Rightarrow> 'a list" where
  "remove_nth i xs = take i xs @ drop (Suc i) xs"

definition evict_from_mfu_ghost :: "arc_replacer \<Rightarrow> (frame_id option \<times> arc_replacer) res" where
  "evict_from_mfu_ghost s = (case scan_back (evictable_pages s) (mfu s) (length (mfu s)) of
       None \<Rightarrow> Inr (None, s)
     | Some i \<Rightarrow>
         let (f, p) = mfu s ! i
         in seq (checked_sub (curr_size s) 1) (\<lambda>c.
              Inr (Some f, s\<lparr>mfu := remove_nth i (mfu s), mfu_ghost := p # mfu_ghost s,
                             evictable_pages := evictable_pages s - {f},
                             timestamp_access := AList.delete (f, p) (timestamp_access s),
                             curr_size := c\<rparr>)))"

definition evict_from_mru_ghost :: "arc_replacer \<Rightarrow> (frame_id option \<times> arc_replacer) res" where
  "evict_from_mru_ghost s = (case scan_back (evictable_pages s) (mru s) (length (mru s)) of
       None \<Rightarrow> Inr (None, s)
     | Some i \<Rightarrow>
         let (f, p) = mru s ! i
         in seq (checked_sub (curr_size s) 1) (\<lambda>c.
              Inr (Some f, s\<lparr>mru := remove_nth i (mru s), mru_ghost := p # mru_ghost s,
                             evictable_pages := evictable_pages s - {f},
                             timestamp_access := AList.delete (f, p) (timestamp_access s),
                             curr_size := c\<rparr>)))"

text \<open>Try one list, then the other.\<close>

definition or_else_evict :: "(arc_replacer \<Rightarrow> (frame_id option \<times> arc_replacer) res) \<Rightarrow>
    (arc_replacer \<Rightarrow> (frame_id option \<times> arc_replacer) res) \<Rightarrow> arc_replacer \<Rightarrow> (frame_id option \<times> arc_replacer) res" where
  "or_else_evict first second s =
     seq (first s) (\<lambda>(r, s'). case r of Some f \<Rightarrow> Inr (Some f, s') | None \<Rightarrow> second s')"

definition evict :: "arc_replacer \<Rightarrow> (frame_id option \<times> arc_replacer) res" where
  "evict s =
     (if length (mru s) \<ge> unat (mru_target_size s)
      then or_else_evict evict_from_mru_ghost evict_from_mfu_ghost s
      else or_else_evict evict_from_mfu_ghost evict_from_mru_ghost s)"

text \<open>\<open>remove\<close>: the closure given to \<open>retain\<close> keeps the page of the last entry it drops.\<close>

definition last_page_of :: "frame_id \<Rightarrow> (frame_id \<times> page_id) list \<Rightarrow> page_id option" where
  "last_page_of f xs = (case filter (\<lambda>e. fst e = f) xs of [] \<Rightarrow> None | es \<Rightarrow> Some (snd (last es)))"

definition arc_remove :: "frame_id \<Rightarrow> arc_replacer \<Rightarrow> arc_replacer" where
  "arc_remove f s =
     (if f \<in> evictable_pages s then s
      else
        let in_mru = last_page_of f (mru s);
            s1 = s\<lparr>mru := filter (\<lambda>e. fst e \<noteq> f) (mru s)\<rparr>;
            page = (case in_mru of Some p \<Rightarrow> Some p | None \<Rightarrow> last_page_of f (mfu s));
            s2 = (if in_mru = None then s1\<lparr>mfu := filter (\<lambda>e. fst e \<noteq> f) (mfu s1)\<rparr> else s1);
            s3 = (case page of
                    Some p \<Rightarrow> s2\<lparr>timestamp_access := AList.delete (f, p) (timestamp_access s2),
                                 evictable_pages := evictable_pages s2 - {f},
                                 dirty_pages := dirty_pages s2 - {p}\<rparr>
                  | None \<Rightarrow> s2);
            q = (case page of Some p \<Rightarrow> p | None \<Rightarrow> 0)
        in s3\<lparr>mru_ghost := filter (\<lambda>p. p \<noteq> q) (mru_ghost s3),
              mfu_ghost := filter (\<lambda>p. p \<noteq> q) (mfu_ghost s3)\<rparr>)"

section \<open>The invariant of the four lists\<close>

definition tracked :: "arc_replacer \<Rightarrow> (frame_id \<times> page_id) set" where
  "tracked s = set (mru s) \<union> set (mfu s)"

text \<open>
  Every frame is in at most one of the two lists and once; no page is in two of the four lists, nor
  twice in one; the lists have the sizes the policy prescribes; the target stays within the size;
  \<open>curr_size\<close> counts at least the evictable frames.
\<close>

definition arc_inv :: "arc_replacer \<Rightarrow> bool" where
  "arc_inv s \<longleftrightarrow> distinct (map fst (mru s @ mfu s))
     \<and> distinct (map snd (mru s @ mfu s) @ mru_ghost s @ mfu_ghost s)
     \<and> (\<forall>f \<in> fst ` tracked s. unat f < replacer_size s)
     \<and> length (mru s) + length (mru_ghost s) \<le> replacer_size s
     \<and> length (mru s) + length (mfu s) + length (mru_ghost s) + length (mfu_ghost s) \<le> 2 * replacer_size s
     \<and> unat (mru_target_size s) \<le> replacer_size s \<and> replacer_size s < 2 ^ 30
     \<and> finite (evictable_pages s) \<and> card (evictable_pages s) \<le> unat (curr_size s)"

text \<open>An access the buffer pool may make: a known pair, or a free frame with a page not held.\<close>

definition access_ok :: "frame_id \<Rightarrow> page_id \<Rightarrow> arc_replacer \<Rightarrow> bool" where
  "access_ok f p s \<longleftrightarrow> unat f < replacer_size s
     \<and> ((f, p) \<in> tracked s \<or> f \<notin> fst ` tracked s \<and> p \<notin> snd ` tracked s)"

lemma arc_new_inv: "n < 2 ^ 30 \<Longrightarrow> arc_inv (arc_new n)"
  by (simp add: arc_inv_def arc_new_def tracked_def)

lemma scan_back_Some:
  "scan_back E xs n = Some i \<Longrightarrow> i < n \<and> fst (xs ! i) \<in> E \<and> (\<forall>j. i < j \<longrightarrow> j < n \<longrightarrow> fst (xs ! j) \<notin> E)"
  by (induction n) (auto split: if_splits simp: less_Suc_eq)

lemma scan_back_None: "scan_back E xs n = None \<Longrightarrow> j < n \<Longrightarrow> fst (xs ! j) \<notin> E"
  by (induction n) (auto split: if_splits simp: less_Suc_eq)

lemma scan_back_None_set: "scan_back E xs (length xs) = None \<Longrightarrow> fst ` set xs \<inter> E = {}"
  using scan_back_None [of E xs "length xs"] by (fastforce simp: in_set_conv_nth)

lemma nth_split: "i < length xs \<Longrightarrow> xs = take i xs @ xs ! i # drop (Suc i) xs"
  by (rule id_take_nth_drop)

lemma length_remove_nth: "i < length xs \<Longrightarrow> Suc (length (remove_nth i xs)) = length xs"
  by (simp add: remove_nth_def)

lemma remove_nth_mset: "i < length xs \<Longrightarrow> mset xs = add_mset (xs ! i) (mset (remove_nth i xs))"
  by (subst nth_split [of i xs]) (simp_all add: remove_nth_def)

section \<open>The operations keep the invariant\<close>

text \<open>Membership and sizes of the two resident lists.\<close>

lemma tracked_frames: "fst ` tracked s = set (map fst (mru s @ mfu s))"
  by (simp add: tracked_def image_Un)

lemma tracked_pages: "snd ` tracked s = set (map snd (mru s @ mfu s))"
  by (simp add: tracked_def image_Un)

lemma arc_inv_frames: "arc_inv s \<Longrightarrow> distinct (map fst (mru s @ mfu s))"
  by (simp only: arc_inv_def)

lemma arc_inv_bound: "arc_inv s \<Longrightarrow> x \<in> set (map fst (mru s @ mfu s)) \<Longrightarrow> unat x < replacer_size s"
  by (simp only: arc_inv_def tracked_frames)

lemma arc_inv_frame_unique:
  "arc_inv s \<Longrightarrow> (f, p) \<in> tracked s \<Longrightarrow> (f, q) \<in> tracked s \<Longrightarrow> p = q"
proof -
  assume inv: "arc_inv s" and p: "(f, p) \<in> tracked s" and q: "(f, q) \<in> tracked s"
  have "inj_on fst (set (mru s @ mfu s))" using arc_inv_frames [OF inv] by (simp only: distinct_map)
  from inj_onD [OF this, of "(f, p)" "(f, q)"] p q have "(f, p) = (f, q)" by (simp add: tracked_def)
  then show ?thesis by simp
qed

lemma distinct_u32_bound:
  fixes xs :: "u32 list"
  assumes "distinct xs" and "\<forall>x \<in> set xs. unat x < n"
  shows "length xs \<le> n"
proof -
  have "inj_on unat (set xs)" by (rule inj_onI) (rule unsigned_word_eqI)
  then have "length xs = card (unat ` set xs)"
    using assms(1) by (simp add: card_image distinct_card)
  also have "unat ` set xs \<subseteq> {..<n}" using assms(2) by auto
  then have "card (unat ` set xs) \<le> card {..<n}" by (intro card_mono) simp_all
  finally show ?thesis by simp
qed

lemma arc_resident_bound: "arc_inv s \<Longrightarrow> length (mru s) + length (mfu s) \<le> replacer_size s"
  using distinct_u32_bound [OF arc_inv_frames, of s "replacer_size s"] arc_inv_bound [of s] by simp

lemma arc_resident_room:
  assumes "arc_inv s" and "unat f < replacer_size s" and "f \<notin> fst ` tracked s"
  shows "length (mru s) + length (mfu s) < replacer_size s"
proof -
  have "distinct (f # map fst (mru s @ mfu s))"
    using arc_inv_frames [OF assms(1)] assms(3) unfolding tracked_frames by simp
  from distinct_u32_bound [OF this, of "replacer_size s"] arc_inv_bound [OF assms(1)] assms(2)
  show ?thesis by simp
qed

text \<open>The target never leaves its range.\<close>

lemma mru_ghost_target_ok:
  assumes inv: "arc_inv s" and ne: "mru_ghost s \<noteq> []"
  shows "\<exists>t. mru_ghost_target s = Inr t \<and> unat t \<le> replacer_size s"
proof -
  let ?n = "replacer_size s" and ?t = "mru_target_size s"
  let ?inc = "length (mfu_ghost s) div length (mru_ghost s)"
  have n: "?n < 2 ^ 30" "unat ?t \<le> ?n" "length (mfu_ghost s) \<le> 2 * ?n"
    using inv by (simp_all add: arc_inv_def)
  have size: "usize_to_u32 ?n = Inr (of_nat ?n)" "unat (of_nat ?n :: u32) = ?n"
    using n(1) by (simp_all add: usize_to_u32_def unat_of_nat_u32)
  obtain t1 where t1: "checked_add ?t 1 = Inr t1" "unat t1 = unat ?t + 1"
    using checked_add_ok [of ?t 1] n by auto
  have "?inc \<le> 2 * ?n" using n(3) div_le_dividend le_trans by blast
  then have inc: "unat (of_nat ?inc :: u32) = ?inc" using n(1) by (intro unat_of_nat_u32) simp
  then obtain t2 where t2: "checked_add ?t (of_nat ?inc) = Inr t2" "unat t2 = unat ?t + ?inc"
    using checked_add_ok [of ?t "of_nat ?inc"] n \<open>?inc \<le> 2 * ?n\<close> by auto
  show ?thesis
    using t1 t2 size n(2) ne
    by (auto simp: mru_ghost_target_def Let_def word_less_nat_alt word_le_nat_alt)
qed

lemma mfu_ghost_target_ok:
  assumes ne: "mfu_ghost s \<noteq> []"
  shows "if mru_target_size s = 0 \<and> length (mru_ghost s) \<le> length (mfu_ghost s)
    then mfu_ghost_target s = Inl ArithOverflow
    else \<exists>t. mfu_ghost_target s = Inr t \<and> unat t \<le> unat (mru_target_size s)"
proof (cases "mru_target_size s = 0")
  case True
  then show ?thesis using ne by (auto simp: mfu_ghost_target_def checked_sub_def Let_def)
next
  case False
  then have "1 \<le> mru_target_size s" by (simp add: word_le_nat_alt Suc_le_eq unat_gt_0)
  then show ?thesis using ne False
    by (auto simp: mfu_ghost_target_def checked_sub_def Let_def word_le_nat_alt unat_sub_if')
qed

text \<open>The two distinctness conditions depend only on what the lists hold together.\<close>

definition frame_list :: "arc_replacer \<Rightarrow> frame_id list" where
  "frame_list s = map fst (mru s @ mfu s)"

definition page_list :: "arc_replacer \<Rightarrow> page_id list" where
  "page_list s = map snd (mru s @ mfu s) @ mru_ghost s @ mfu_ghost s"

lemma arc_inv_lists:
  "arc_inv s \<longleftrightarrow> distinct (frame_list s) \<and> distinct (page_list s)
     \<and> (\<forall>f \<in> set (frame_list s). unat f < replacer_size s)
     \<and> length (mru s) + length (mru_ghost s) \<le> replacer_size s
     \<and> length (page_list s) \<le> 2 * replacer_size s
     \<and> unat (mru_target_size s) \<le> replacer_size s \<and> replacer_size s < 2 ^ 30
     \<and> finite (evictable_pages s) \<and> card (evictable_pages s) \<le> unat (curr_size s)"
  by (auto simp: arc_inv_def frame_list_def page_list_def tracked_def)

lemma mset_move_front:
  "distinct xs \<Longrightarrow> e \<in> set xs \<Longrightarrow> mset (e # filter (\<lambda>x. x \<noteq> e) xs) = mset xs"
proof -
  assume d: "distinct xs" and e: "e \<in> set xs"
  have "filter (\<lambda>x. x \<noteq> e) xs = filter (\<lambda>x. e \<noteq> x) xs" by (rule filter_cong) auto
  also have "\<dots> = remove1 e xs"
    using d by (simp add: distinct_remove1_removeAll removeAll_filter_not_eq)
  finally show ?thesis using e by simp
qed

lemma distinct_mset_cong: "mset xs = mset ys \<Longrightarrow> distinct xs = distinct ys \<and> set xs = set ys \<and> length xs = length ys"
  by (metis mset_eq_imp_distinct_iff mset_eq_setD mset_eq_length)

lemma access_hit:
  assumes inv: "arc_inv s" and hit: "(f, p) \<in> tracked s"
    and s': "s' = s\<lparr>mru := filter (\<lambda>e. e \<noteq> (f, p)) (mru s), mfu := (f, p) # filter (\<lambda>e. e \<noteq> (f, p)) (mfu s)\<rparr>"
  shows "arc_inv s' \<and> tracked s' = tracked s"
proof -
  have "distinct (mru s @ mfu s)"
    using arc_inv_frames [OF inv] by (simp only: distinct_map)
  then have m: "mset (mru s' @ mfu s') = mset (mru s @ mfu s)"
    using mset_move_front [of "mru s @ mfu s" "(f, p)"] hit by (simp add: s' tracked_def)
  from arg_cong [OF m, of "image_mset fst"] have "mset (frame_list s') = mset (frame_list s)"
    by (simp add: frame_list_def)
  note F = distinct_mset_cong [OF this]
  from arg_cong [OF m, of "image_mset snd"] have "mset (page_list s') = mset (page_list s)"
    by (simp add: page_list_def s')
  note P = distinct_mset_cong [OF this]
  have "length (mru s') + length (mru_ghost s') \<le> length (mru s) + length (mru_ghost s)" by (simp add: s')
  also have "\<dots> \<le> replacer_size s" using inv by (simp add: arc_inv_lists)
  finally have "length (mru s') + length (mru_ghost s') \<le> replacer_size s" .
  moreover have "replacer_size s' = replacer_size s" "mru_target_size s' = mru_target_size s"
    "evictable_pages s' = evictable_pages s" "curr_size s' = curr_size s" by (simp_all add: s')
  ultimately have "arc_inv s'" using inv F P by (simp add: arc_inv_lists)
  moreover have "tracked s' = tracked s"
    using arg_cong [OF m, of set_mset] by (simp add: tracked_def)
  ultimately show ?thesis by simp
qed

lemma access_mru_ghost:
  assumes inv: "arc_inv s" and new: "f \<notin> fst ` tracked s" "unat f < replacer_size s"
    and hit: "p \<in> set (mru_ghost s)" and t: "unat t \<le> replacer_size s"
    and s': "s' = s\<lparr>mru_target_size := t, mru_ghost := filter (\<lambda>a. a \<noteq> p) (mru_ghost s), mfu := (f, p) # mfu s\<rparr>"
  shows "arc_inv s' \<and> tracked s' = insert (f, p) (tracked s)"
proof -
  have "distinct (mru_ghost s)" using inv by (simp add: arc_inv_def)
  from mset_move_front [OF this hit] have "mset (page_list s') = mset (page_list s)"
    by (simp add: page_list_def s')
  note P = distinct_mset_cong [OF this]
  have m: "mset (frame_list s') = mset (f # frame_list s)" by (simp add: frame_list_def s')
  note F = distinct_mset_cong [OF m]
  have "length (mru s') + length (mru_ghost s') \<le> length (mru s) + length (mru_ghost s)" by (simp add: s')
  also have "\<dots> \<le> replacer_size s" using inv by (simp add: arc_inv_lists)
  finally have "length (mru s') + length (mru_ghost s') \<le> replacer_size s" .
  moreover have "replacer_size s' = replacer_size s" "mru_target_size s' = t"
    "evictable_pages s' = evictable_pages s" "curr_size s' = curr_size s" by (simp_all add: s')
  moreover have "f \<notin> set (frame_list s)" using new(1) by (simp add: frame_list_def tracked_frames)
  ultimately have "arc_inv s'" using inv F P new(2) t by (simp add: arc_inv_lists)
  then show ?thesis by (auto simp: s' tracked_def)
qed

lemma access_mfu_ghost:
  assumes inv: "arc_inv s" and new: "f \<notin> fst ` tracked s" "unat f < replacer_size s"
    and hit: "p \<in> set (mfu_ghost s)" and t: "unat t \<le> replacer_size s"
    and s': "s' = s\<lparr>mru_target_size := t, mfu_ghost := filter (\<lambda>a. a \<noteq> p) (mfu_ghost s), mfu := (f, p) # mfu s\<rparr>"
  shows "arc_inv s' \<and> tracked s' = insert (f, p) (tracked s)"
proof -
  have "distinct (mfu_ghost s)" using inv by (simp add: arc_inv_def)
  from mset_move_front [OF this hit] have "mset (page_list s') = mset (page_list s)"
    by (simp add: page_list_def s')
  note P = distinct_mset_cong [OF this]
  have m: "mset (frame_list s') = mset (f # frame_list s)" by (simp add: frame_list_def s')
  note F = distinct_mset_cong [OF m]
  have "replacer_size s' = replacer_size s" "mru_target_size s' = t" "mru s' = mru s" "mru_ghost s' = mru_ghost s"
    "evictable_pages s' = evictable_pages s" "curr_size s' = curr_size s" by (simp_all add: s')
  moreover have "f \<notin> set (frame_list s)" using new(1) by (simp add: frame_list_def tracked_frames)
  ultimately have "arc_inv s'" using inv F P new(2) t by (simp add: arc_inv_lists)
  then show ?thesis by (auto simp: s' tracked_def)
qed

text \<open>A page in no list goes to the front of the MRU list; the ghost lists give way.\<close>

lemma access_fresh:
  assumes inv: "arc_inv s" and new: "f \<notin> fst ` tracked s" "p \<notin> snd ` tracked s" "unat f < replacer_size s"
    and miss: "p \<notin> set (mru_ghost s)" "p \<notin> set (mfu_ghost s)"
    and ghosts: "g1 = mru_ghost s \<or> g1 = butlast (mru_ghost s)" "g2 = mfu_ghost s \<or> g2 = butlast (mfu_ghost s)"
    and sizes: "length (mru s) + length g1 < replacer_size s"
      "length (mru s) + length (mfu s) + length g1 + length g2 < 2 * replacer_size s"
    and s': "s' = s\<lparr>mru_ghost := g1, mfu_ghost := g2, mru := (f, p) # mru s\<rparr>"
  shows "arc_inv s' \<and> tracked s' = insert (f, p) (tracked s)"
proof -
  have g: "set g1 \<subseteq> set (mru_ghost s)" "set g2 \<subseteq> set (mfu_ghost s)"
    using ghosts by (auto dest: in_set_butlastD)
  have dist: "distinct (map snd (mru s @ mfu s))" "distinct (mru_ghost s)" "distinct (mfu_ghost s)"
    "set (mru_ghost s) \<inter> set (mfu_ghost s) = {}" "set (map snd (mru s @ mfu s)) \<inter> (set (mru_ghost s) \<union> set (mfu_ghost s)) = {}"
    using inv by (auto simp: arc_inv_def)
  have dg: "distinct g1" "distinct g2" using ghosts dist(2,3) by (auto intro: distinct_butlast)
  have p: "p \<notin> set (map snd (mru s @ mfu s))" using new(2) by (simp add: tracked_pages)
  have "page_list s' = p # map snd (mru s @ mfu s) @ g1 @ g2" by (simp add: page_list_def s')
  moreover have "distinct (p # map snd (mru s @ mfu s) @ g1 @ g2)"
    unfolding distinct.simps distinct_append using dist dg p g miss by (fastforce simp del: map_append)
  ultimately have "distinct (page_list s')" by simp
  moreover have "length (page_list s') \<le> 2 * replacer_size s" using sizes(2) by (simp add: page_list_def s')
  moreover have "frame_list s' = f # frame_list s" by (simp add: frame_list_def s')
  moreover have "f \<notin> set (frame_list s)" using new(1) by (simp add: frame_list_def tracked_frames)
  ultimately have "arc_inv s'" using inv sizes(1) new(3) by (simp add: arc_inv_lists s')
  then show ?thesis by (auto simp: s' tracked_def)
qed

text \<open>The stamp and the clock are not part of the policy's state.\<close>

definition stamp :: "frame_id \<Rightarrow> page_id \<Rightarrow> arc_replacer \<Rightarrow> arc_replacer" where
  "stamp f p s = s\<lparr>timestamp_access := AList.update (f, p) (clock_readings s) (timestamp_access s),
                   clock_readings := clock_readings s + 1\<rparr>"

lemma stamp_simps [simp]:
  "mru (stamp f p s) = mru s" "mfu (stamp f p s) = mfu s" "mru_ghost (stamp f p s) = mru_ghost s"
  "mfu_ghost (stamp f p s) = mfu_ghost s" "mru_target_size (stamp f p s) = mru_target_size s"
  "replacer_size (stamp f p s) = replacer_size s" "curr_size (stamp f p s) = curr_size s"
  "evictable_pages (stamp f p s) = evictable_pages s" "tracked (stamp f p s) = tracked s"
  "arc_inv (stamp f p s) = arc_inv s"
  by (simp_all add: stamp_def tracked_def arc_inv_def)

lemma record_access_law:
  assumes inv0: "arc_inv s0" and ok: "access_ok f p s0" and run: "record_access f p s0 = Inr s'"
  shows "arc_inv s' \<and> tracked s' = insert (f, p) (tracked s0) \<and> evictable_pages s' = evictable_pages s0
    \<and> curr_size s' = curr_size s0 \<and> replacer_size s' = replacer_size s0"
proof -
  define s where "s = stamp f p s0"
  have inv: "arc_inv s" and same: "tracked s0 = tracked s" "evictable_pages s0 = evictable_pages s"
    "curr_size s0 = curr_size s" "replacer_size s0 = replacer_size s"
    using inv0 by (simp_all add: s_def)
  note run' = run [unfolded record_access_def Let_def, folded stamp_def, folded s_def]
  show ?thesis
  proof (cases "(f, p) \<in> tracked s")
    case True
    then have "s' = s\<lparr>mru := filter (\<lambda>e. e \<noteq> (f, p)) (mru s), mfu := (f, p) # filter (\<lambda>e. e \<noteq> (f, p)) (mfu s)\<rparr>"
      using run' by (auto simp: tracked_def)
    with access_hit [OF inv True this] True same show ?thesis by auto
  next
    case False
    then have new: "f \<notin> fst ` tracked s" "p \<notin> snd ` tracked s" "unat f < replacer_size s"
      using ok same by (auto simp: access_ok_def)
    have notin: "\<not> ((f, p) \<in> set (mru s) \<or> (f, p) \<in> set (mfu s))" using False by (simp add: tracked_def)
    show ?thesis
    proof (cases "p \<in> set (mru_ghost s)")
      case True
      then obtain t where t: "mru_ghost_target s = Inr t" "unat t \<le> replacer_size s"
        using mru_ghost_target_ok [OF inv] by force
      with run' notin True have "s' = s\<lparr>mru_target_size := t,
        mru_ghost := filter (\<lambda>a. a \<noteq> p) (mru_ghost s), mfu := (f, p) # mfu s\<rparr>" by simp
      with access_mru_ghost [OF inv new(1,3) True t(2) this] same show ?thesis by simp
    next
      case miss1: False
      show ?thesis
      proof (cases "p \<in> set (mfu_ghost s)")
        case True
        with run' notin miss1 obtain t where t: "mfu_ghost_target s = Inr t" and s': "s' = s\<lparr>mru_target_size := t,
          mfu_ghost := filter (\<lambda>a. a \<noteq> p) (mfu_ghost s), mfu := (f, p) # mfu s\<rparr>" by (auto simp: seq_Inr_iff)
        have "unat t \<le> unat (mru_target_size s)" using mfu_ghost_target_ok [of s] t True by (force split: if_splits)
        also have "\<dots> \<le> replacer_size s" using inv by (simp add: arc_inv_def)
        finally show ?thesis using access_mfu_ghost [OF inv new(1,3) True _ s'] same s' by simp
      next
        case miss2: False
        note room = arc_resident_room [OF inv new(3,1)]
        have sizes: "length (mru s) + length (mru_ghost s) \<le> replacer_size s"
          "length (mru s) + length (mfu s) + length (mru_ghost s) + length (mfu_ghost s) \<le> 2 * replacer_size s"
          using inv by (simp_all add: arc_inv_def)
        note fresh = access_fresh [OF inv new miss1 miss2]
        show ?thesis
        proof (cases "length (mru s) + length (mru_ghost s) = replacer_size s")
          case True
          then have "s' = s\<lparr>mru_ghost := butlast (mru_ghost s), mfu_ghost := mfu_ghost s, mru := (f, p) # mru s\<rparr>"
            using run' notin miss1 miss2 by simp
          with fresh [of "butlast (mru_ghost s)" "mfu_ghost s" s'] True room sizes same show ?thesis by simp
        next
          case False
          define g2 where "g2 = (if length (mru s) + length (mfu s) + length (mfu_ghost s) + length (mru_ghost s)
            = 2 * replacer_size s then butlast (mfu_ghost s) else mfu_ghost s)"
          have "s' = s\<lparr>mru_ghost := mru_ghost s, mfu_ghost := g2, mru := (f, p) # mru s\<rparr>"
            using run' notin miss1 miss2 False sizes(1) by (auto simp: g2_def)
          moreover have "g2 = mfu_ghost s \<or> g2 = butlast (mfu_ghost s)" by (simp add: g2_def)
          moreover have "length (mru s) + length (mru_ghost s) < replacer_size s" using False sizes(1) by simp
          moreover have "length (mru s) + length (mfu s) + length (mru_ghost s) + length g2 < 2 * replacer_size s"
            using room sizes False by (simp add: g2_def) arith
          ultimately show ?thesis using fresh [of "mru_ghost s" g2 s'] same by simp
        qed
      qed
    qed
  qed
qed

lemma record_access_panics:
  assumes inv0: "arc_inv s0"
  shows "record_access f p s0 = Inl e \<longleftrightarrow> e = ArithOverflow \<and> (f, p) \<notin> tracked s0
    \<and> p \<in> set (mfu_ghost s0) \<and> length (mru_ghost s0) \<le> length (mfu_ghost s0) \<and> mru_target_size s0 = 0"
proof -
  define s where "s = stamp f p s0"
  have inv: "arc_inv s" and same: "tracked s0 = tracked s" "mfu_ghost s0 = mfu_ghost s" "mru_ghost s0 = mru_ghost s"
    "mru_target_size s0 = mru_target_size s" using inv0 by (simp_all add: s_def)
  have disj: "p \<in> set (mfu_ghost s) \<Longrightarrow> p \<notin> set (mru_ghost s)" using inv by (auto simp: arc_inv_def)
  have t1: "p \<in> set (mru_ghost s) \<Longrightarrow> \<exists>t. mru_ghost_target s = Inr t"
    using mru_ghost_target_ok [OF inv] by force
  have t2: "p \<in> set (mfu_ghost s) \<Longrightarrow> if mru_target_size s = 0 \<and> length (mru_ghost s) \<le> length (mfu_ghost s)
    then mfu_ghost_target s = Inl ArithOverflow else \<exists>t. mfu_ghost_target s = Inr t"
    using mfu_ghost_target_ok [of s] by (force split: if_splits)
  show ?thesis
    unfolding same record_access_def Let_def stamp_def [symmetric] s_def [symmetric]
    using disj t1 t2 by (auto simp: tracked_def monad_simps split: if_splits)
qed

text \<open>An eviction moves one entry of an evictable frame to the ghost list of its own list.\<close>

lemma evict_entry:
  assumes inv: "arc_inv s" and cand: "f \<in> evictable_pages s"
    and frames: "mset (map fst (mru s @ mfu s)) = add_mset f (mset (map fst (mru s' @ mfu s')))"
    and pages: "mset (page_list s') = mset (page_list s)"
    and trk: "tracked s = insert (f, p) (tracked s')"
    and sizes: "length (mru s') + length (mru_ghost s') = length (mru s) + length (mru_ghost s)"
    and c: "checked_sub (curr_size s) 1 = Inr c"
    and rest: "evictable_pages s' = evictable_pages s - {f}" "curr_size s' = c"
      "replacer_size s' = replacer_size s" "mru_target_size s' = mru_target_size s"
  shows "arc_inv s' \<and> tracked s' = tracked s - {(f, p)}"
proof -
  have "mset (frame_list s) = mset (f # frame_list s')" using frames by (simp add: frame_list_def)
  note F = distinct_mset_cong [OF this]
  note P = distinct_mset_cong [OF pages]
  have fin: "finite (evictable_pages s)" "card (evictable_pages s) \<le> unat (curr_size s)"
    using inv by (simp_all add: arc_inv_def)
  have "card (evictable_pages s - {f}) = card (evictable_pages s) - 1" using cand fin(1) by simp
  moreover have "unat c = unat (curr_size s) - 1" using checked_sub_Inr [OF c] by simp
  ultimately have "card (evictable_pages s') \<le> unat (curr_size s')" using fin(2) rest by simp
  then have "arc_inv s'" using inv F P sizes rest fin(1) by (simp add: arc_inv_lists)
  moreover have "f \<notin> set (frame_list s')" using F inv by (simp add: arc_inv_lists)
  then have "f \<notin> fst ` tracked s'" by (simp add: frame_list_def tracked_frames)
  then have "tracked s' = tracked s - {(f, p)}" using trk by force
  ultimately show ?thesis by simp
qed

lemma candidate_count:
  assumes "arc_inv s" and "f \<in> evictable_pages s"
  shows "\<exists>c. checked_sub (curr_size s) 1 = Inr c"
proof -
  have "finite (evictable_pages s)" "card (evictable_pages s) \<le> unat (curr_size s)"
    using assms(1) by (simp_all add: arc_inv_def)
  moreover from this(1) assms(2) have "0 < card (evictable_pages s)" by (auto simp: card_gt_0_iff)
  ultimately have "unat (1 :: u32) \<le> unat (curr_size s)" by (simp only: unat_1)
  from checked_sub_ok [OF this] show ?thesis by blast
qed

text \<open>What either helper does: an entry of its list whose frame is a candidate, or nothing.\<close>

definition evicts :: "(arc_replacer \<Rightarrow> (frame_id \<times> page_id) list) \<Rightarrow> arc_replacer \<Rightarrow> (frame_id option \<times> arc_replacer) res \<Rightarrow> bool" where
  "evicts entries s r \<longleftrightarrow>
     (\<exists>f p s' i. r = Inr (Some f, s') \<and> i < length (entries s) \<and> entries s ! i = (f, p) \<and> f \<in> evictable_pages s
        \<and> (\<forall>j. i < j \<longrightarrow> j < length (entries s) \<longrightarrow> fst (entries s ! j) \<notin> evictable_pages s)
        \<and> arc_inv s' \<and> tracked s' = tracked s - {(f, p)} \<and> (f, p) \<in> tracked s
        \<and> evictable_pages s' = evictable_pages s - {f} \<and> replacer_size s' = replacer_size s)
     \<or> r = Inr (None, s) \<and> fst ` set (entries s) \<inter> evictable_pages s = {}"

lemma evictsI:
  assumes "r = Inr (Some f, s')" and "i < length (entries s)" and "entries s ! i = (f, p)"
    and "\<And>j. i < j \<Longrightarrow> j < length (entries s) \<Longrightarrow> fst (entries s ! j) \<notin> evictable_pages s"
    and "f \<in> evictable_pages s" and "arc_inv s'" and "tracked s' = tracked s - {(f, p)}" and "(f, p) \<in> tracked s"
    and "evictable_pages s' = evictable_pages s - {f}" and "replacer_size s' = replacer_size s"
  shows "evicts entries s r"
  unfolding evicts_def using assms by blast

lemma evict_from_mfu_evicts: "arc_inv s \<Longrightarrow> evicts mfu s (evict_from_mfu_ghost s)"
proof (cases "scan_back (evictable_pages s) (mfu s) (length (mfu s))")
  case None
  then show ?thesis using scan_back_None_set [OF None] by (simp add: evicts_def evict_from_mfu_ghost_def)
next
  case (Some i)
  assume inv: "arc_inv s"
  note i = scan_back_Some [OF Some]
  obtain f p where fp: "mfu s ! i = (f, p)" by fastforce
  with i have f: "f \<in> evictable_pages s" by simp
  obtain c where c: "checked_sub (curr_size s) 1 = Inr c" using candidate_count [OF inv f] by blast
  define s' where "s' = s\<lparr>mfu := remove_nth i (mfu s), mfu_ghost := p # mfu_ghost s,
    evictable_pages := evictable_pages s - {f}, timestamp_access := AList.delete (f, p) (timestamp_access s), curr_size := c\<rparr>"
  have run: "evict_from_mfu_ghost s = Inr (Some f, s')"
    using Some fp c by (simp add: evict_from_mfu_ghost_def s'_def)
  have m: "mset (mfu s) = add_mset (f, p) (mset (mfu s'))" using remove_nth_mset [of i "mfu s"] i fp by (simp add: s'_def)
  have "mset (map fst (mru s @ mfu s)) = add_mset f (mset (map fst (mru s' @ mfu s')))"
    using arg_cong [OF m, of "image_mset fst"] by (simp add: s'_def)
  moreover have "mset (page_list s') = mset (page_list s)"
    using arg_cong [OF m, of "image_mset snd"] by (simp add: page_list_def s'_def)
  moreover have "tracked s = insert (f, p) (tracked s')"
    using arg_cong [OF m, of set_mset] by (auto simp: tracked_def s'_def)
  ultimately have ok: "arc_inv s' \<and> tracked s' = tracked s - {(f, p)}"
    using inv f c by (intro evict_entry) (auto simp: s'_def)
  have "(f, p) \<in> tracked s" using arg_cong [OF m, of set_mset] by (auto simp: tracked_def)
  with ok i show ?thesis by (intro evictsI [where entries = mfu and s = s, OF run _ fp _ f]) (simp_all add: s'_def)
qed

lemma evict_from_mru_evicts: "arc_inv s \<Longrightarrow> evicts mru s (evict_from_mru_ghost s)"
proof (cases "scan_back (evictable_pages s) (mru s) (length (mru s))")
  case None
  then show ?thesis using scan_back_None_set [OF None] by (simp add: evicts_def evict_from_mru_ghost_def)
next
  case (Some i)
  assume inv: "arc_inv s"
  note i = scan_back_Some [OF Some]
  obtain f p where fp: "mru s ! i = (f, p)" by fastforce
  with i have f: "f \<in> evictable_pages s" by simp
  obtain c where c: "checked_sub (curr_size s) 1 = Inr c" using candidate_count [OF inv f] by blast
  define s' where "s' = s\<lparr>mru := remove_nth i (mru s), mru_ghost := p # mru_ghost s,
    evictable_pages := evictable_pages s - {f}, timestamp_access := AList.delete (f, p) (timestamp_access s), curr_size := c\<rparr>"
  have run: "evict_from_mru_ghost s = Inr (Some f, s')"
    using Some fp c by (simp add: evict_from_mru_ghost_def s'_def)
  have m: "mset (mru s) = add_mset (f, p) (mset (mru s'))" using remove_nth_mset [of i "mru s"] i fp by (simp add: s'_def)
  have "mset (map fst (mru s @ mfu s)) = add_mset f (mset (map fst (mru s' @ mfu s')))"
    using arg_cong [OF m, of "image_mset fst"] by (simp add: s'_def)
  moreover have "mset (page_list s') = mset (page_list s)"
    using arg_cong [OF m, of "image_mset snd"] by (simp add: page_list_def s'_def)
  moreover have "tracked s = insert (f, p) (tracked s')"
    using arg_cong [OF m, of set_mset] by (auto simp: tracked_def s'_def)
  moreover have "length (mru s') + length (mru_ghost s') = length (mru s) + length (mru_ghost s)"
    using i length_remove_nth [of i "mru s"] by (simp add: s'_def)
  ultimately have ok: "arc_inv s' \<and> tracked s' = tracked s - {(f, p)}"
    using inv f c by (intro evict_entry) (auto simp: s'_def)
  have "(f, p) \<in> tracked s" using arg_cong [OF m, of set_mset] by (auto simp: tracked_def)
  with ok i show ?thesis by (intro evictsI [where entries = mru and s = s, OF run _ fp _ f]) (simp_all add: s'_def)
qed

definition takes_victim :: "arc_replacer \<Rightarrow> (frame_id option \<times> arc_replacer) res \<Rightarrow> bool" where
  "takes_victim s r \<longleftrightarrow> (\<exists>f p s'. r = Inr (Some f, s') \<and> f \<in> evictable_pages s \<and> (f, p) \<in> tracked s \<and> arc_inv s'
     \<and> tracked s' = tracked s - {(f, p)} \<and> evictable_pages s' = evictable_pages s - {f}
     \<and> replacer_size s' = replacer_size s)"

lemma evicts_cases:
  "evicts entries s r \<Longrightarrow> takes_victim s r \<or> r = Inr (None, s) \<and> fst ` set (entries s) \<inter> evictable_pages s = {}"
  unfolding evicts_def takes_victim_def by blast

lemma or_else_cases:
  assumes "takes_victim s (g s) \<or> g s = Inr (None, s) \<and> A" and "takes_victim s (h s) \<or> h s = Inr (None, s) \<and> B"
  shows "takes_victim s (or_else_evict g h s) \<or> or_else_evict g h s = Inr (None, s) \<and> A \<and> B"
  using assms by (auto simp: or_else_evict_def takes_victim_def)

lemma evict_result:
  assumes inv: "arc_inv s"
  shows "takes_victim s (evict s) \<or> evict s = Inr (None, s) \<and> fst ` tracked s \<inter> evictable_pages s = {}"
proof -
  note R = evicts_cases [OF evict_from_mru_evicts [OF inv]]
  note F = evicts_cases [OF evict_from_mfu_evicts [OF inv]]
  have both: "fst ` tracked s \<inter> evictable_pages s =
    fst ` set (mru s) \<inter> evictable_pages s \<union> fst ` set (mfu s) \<inter> evictable_pages s"
    by (auto simp: tracked_def)
  show ?thesis
    unfolding evict_def both
    using or_else_cases [where g = evict_from_mru_ghost and h = evict_from_mfu_ghost and s = s, OF R F]
      or_else_cases [where g = evict_from_mfu_ghost and h = evict_from_mru_ghost and s = s, OF F R]
    by auto
qed

text \<open>The victim, in a sentence: the rear-most candidate of the list the target favours, else of the
  other one.\<close>

definition last_candidate :: "frame_id set \<Rightarrow> (frame_id \<times> page_id) list \<Rightarrow> (frame_id \<times> page_id) option" where
  "last_candidate E xs = (case filter (\<lambda>e. fst e \<in> E) xs of [] \<Rightarrow> None | es \<Rightarrow> Some (last es))"

definition favoured_victim :: "arc_replacer \<Rightarrow> (frame_id \<times> page_id) option" where
  "favoured_victim s =
     (let r = last_candidate (evictable_pages s) (mru s);
          f = last_candidate (evictable_pages s) (mfu s)
      in if length (mru s) \<ge> unat (mru_target_size s) then (if r = None then f else r)
         else (if f = None then r else f))"

lemma scan_back_last:
  "n \<le> length xs \<Longrightarrow> last_candidate E (take n xs) = map_option ((!) xs) (scan_back E xs n)"
  by (induction n) (auto simp: last_candidate_def take_Suc_conv_app_nth split: list.splits)

lemma evict_from_mru_candidate:
  "evict_from_mru_ghost s = Inr (r, s') \<Longrightarrow> r = map_option fst (last_candidate (evictable_pages s) (mru s))"
  using scan_back_last [of "length (mru s)" "mru s" "evictable_pages s"]
  by (auto simp: evict_from_mru_ghost_def monad_simps split: option.splits prod.splits)

lemma evict_from_mfu_candidate:
  "evict_from_mfu_ghost s = Inr (r, s') \<Longrightarrow> r = map_option fst (last_candidate (evictable_pages s) (mfu s))"
  using scan_back_last [of "length (mfu s)" "mfu s" "evictable_pages s"]
  by (auto simp: evict_from_mfu_ghost_def monad_simps split: option.splits prod.splits)

lemma evict_from_none: "evict_from_mru_ghost s = Inr (None, s') \<Longrightarrow> s' = s"
  "evict_from_mfu_ghost s = Inr (None, s') \<Longrightarrow> s' = s"
  by (auto simp: evict_from_mru_ghost_def evict_from_mfu_ghost_def monad_simps split: option.splits prod.splits)

lemma evict_is_favoured:
  assumes "evict s = Inr (r, s')"
  shows "r = map_option fst (favoured_victim s)"
proof (cases "length (mru s) \<ge> unat (mru_target_size s)")
  case True
  with assms obtain r1 s1 where 1: "evict_from_mru_ghost s = Inr (r1, s1)"
    and 2: "(case r1 of Some f \<Rightarrow> Inr (Some f, s1) | None \<Rightarrow> evict_from_mfu_ghost s1) = Inr (r, s')"
    by (auto simp: evict_def or_else_evict_def monad_simps)
  note c = evict_from_mru_candidate [OF 1]
  show ?thesis
  proof (cases r1)
    case None
    with 1 have "s1 = s" by (simp add: evict_from_none)
    with 2 None have "evict_from_mfu_ghost s = Inr (r, s')" by simp
    with c None True evict_from_mfu_candidate [OF this] show ?thesis by (simp add: favoured_victim_def)
  next
    case (Some f)
    with c have "map_option fst (last_candidate (evictable_pages s) (mru s)) = Some f" by simp
    then obtain e where "last_candidate (evictable_pages s) (mru s) = Some e" "f = fst e"
      by (cases "last_candidate (evictable_pages s) (mru s)") simp_all
    with 2 Some True show ?thesis by (simp add: favoured_victim_def)
  qed
next
  case False
  with assms obtain r1 s1 where 1: "evict_from_mfu_ghost s = Inr (r1, s1)"
    and 2: "(case r1 of Some f \<Rightarrow> Inr (Some f, s1) | None \<Rightarrow> evict_from_mru_ghost s1) = Inr (r, s')"
    by (auto simp: evict_def or_else_evict_def monad_simps)
  note c = evict_from_mfu_candidate [OF 1]
  show ?thesis
  proof (cases r1)
    case None
    with 1 have "s1 = s" by (simp add: evict_from_none)
    with 2 None have "evict_from_mru_ghost s = Inr (r, s')" by simp
    with c None False evict_from_mru_candidate [OF this] show ?thesis by (simp add: favoured_victim_def)
  next
    case (Some f)
    with c have "map_option fst (last_candidate (evictable_pages s) (mfu s)) = Some f" by simp
    then obtain e where "last_candidate (evictable_pages s) (mfu s) = Some e" "f = fst e"
      by (cases "last_candidate (evictable_pages s) (mfu s)") simp_all
    with 2 Some False show ?thesis by (simp add: favoured_victim_def)
  qed
qed

lemma set_evictable_law:
  assumes inv: "arc_inv s" and run: "set_evictable f s = Inr s'"
  shows "arc_inv s' \<and> tracked s' = tracked s \<and> evictable_pages s' = insert f (evictable_pages s)
    \<and> replacer_size s' = replacer_size s \<and> unat (curr_size s') = unat (curr_size s) + 1"
proof -
  from run obtain c where c: "checked_add (curr_size s) 1 = Inr c"
    and s': "s' = s\<lparr>evictable_pages := insert f (evictable_pages s), curr_size := c\<rparr>"
    by (auto simp: set_evictable_def monad_simps)
  have fin: "finite (evictable_pages s)" "card (evictable_pages s) \<le> unat (curr_size s)"
    using inv by (simp_all add: arc_inv_def)
  have "card (insert f (evictable_pages s)) \<le> Suc (card (evictable_pages s))"
    using fin(1) by (simp add: card_insert_if)
  with inv fin checked_add_Inr [OF c] show ?thesis
    by (simp add: arc_inv_def tracked_def s')
qed

lemma set_evictable_total: "unat (curr_size s) + 1 < 2 ^ 32 \<Longrightarrow> \<exists>s'. set_evictable f s = Inr s'"
  using checked_add_ok [of "curr_size s" 1] by (auto simp: set_evictable_def)

interpretation arc: page_replacer arc_inv tracked evictable_pages access_ok record_access set_evictable evict
proof unfold_locales
  fix s f p s'
  assume "arc_inv s" "access_ok f p s" "record_access f p s = Inr s'"
  from record_access_law [OF this]
  show "arc_inv s' \<and> tracked s' = insert (f, p) (tracked s) \<and> evictable_pages s' = evictable_pages s" by simp
next
  fix s f s'
  assume "arc_inv s" "set_evictable f s = Inr s'"
  from set_evictable_law [OF this]
  show "arc_inv s' \<and> tracked s' = tracked s \<and> evictable_pages s' = insert f (evictable_pages s)" by simp
next
  fix s
  assume "arc_inv s"
  from evict_result [OF this] show "\<exists>r s'. evict s = Inr (r, s')" by (auto simp: takes_victim_def)
next
  fix s f s'
  assume inv: "arc_inv s" and ev: "evict s = Inr (Some f, s')"
  from evict_result [OF inv] ev obtain p where p: "f \<in> evictable_pages s" "(f, p) \<in> tracked s" "arc_inv s'"
    "tracked s' = tracked s - {(f, p)}" "evictable_pages s' = evictable_pages s - {f}" by (auto simp: takes_victim_def)
  with arc_inv_frame_unique [OF inv]
  show "f \<in> evictable_pages s \<and> arc_inv s' \<and> evictable_pages s' = evictable_pages s - {f}
    \<and> (\<exists>p. (f, p) \<in> tracked s \<and> tracked s' = tracked s - {(f, p)} \<and> (\<forall>q. (f, q) \<in> tracked s \<longrightarrow> q = p))"
    by blast
next
  fix s s'
  assume "arc_inv s" "evict s = Inr (None, s')"
  with evict_result [of s] show "s' = s \<and> fst ` tracked s \<inter> evictable_pages s = {}"
    by (auto simp: takes_victim_def)
qed

section \<open>Properties\<close>

lemma takes_victim_iff:
  "takes_victim s (Inr (Some f, s')) \<longleftrightarrow> (\<exists>p. f \<in> evictable_pages s \<and> (f, p) \<in> tracked s \<and> arc_inv s'
     \<and> tracked s' = tracked s - {(f, p)} \<and> evictable_pages s' = evictable_pages s - {f} \<and> replacer_size s' = replacer_size s)"
  by (auto simp: takes_victim_def)

text \<open>A hit in the MFU ghost list overflows in an ordinary run of a new replacer with one frame: a page is
  accessed twice, released, evicted, and accessed again.\<close>

lemma arc_overflow_run:
  "seq (record_access 0 7 (arc_new 1)) (\<lambda>s1. seq (record_access 0 7 s1) (\<lambda>s2. seq (set_evictable 0 s2) (\<lambda>s3.
     seq (evict s3) (\<lambda>(r, s4). record_access (the r) 7 s4)))) = Inl ArithOverflow"
  by (simp add: arc_new_def record_access_def set_evictable_def checked_add_def evict_def or_else_evict_def
      evict_from_mru_ghost_def evict_from_mfu_ghost_def checked_sub_def remove_nth_def mfu_ghost_target_def)

lemma or_else_which:
  assumes "\<And>s'. g s = Inr (None, s') \<Longrightarrow> s' = s" and "or_else_evict g h s = Inr (Some f, s')"
  shows "g s = Inr (Some f, s') \<or> h s = Inr (Some f, s')"
proof -
  from assms(2) obtain a b where "g s = Inr (a, b)" "(case a of Some f \<Rightarrow> Inr (Some f, b) | None \<Rightarrow> h b) = Inr (Some f, s')"
    by (auto simp: or_else_evict_def seq_Inr_iff)
  with assms(1) [of b] show ?thesis by (cases a) auto
qed

lemma evict_which:
  "evict s = Inr (Some f, s') \<Longrightarrow> evict_from_mru_ghost s = Inr (Some f, s') \<or> evict_from_mfu_ghost s = Inr (Some f, s')"
  using or_else_which [of evict_from_mru_ghost s evict_from_mfu_ghost f s']
    or_else_which [of evict_from_mfu_ghost s evict_from_mru_ghost f s'] evict_from_none [of s]
  by (auto simp: evict_def split: if_splits)

lemma evict_from_curr_size:
  "evict_from_mru_ghost r = Inr (Some f, r') \<Longrightarrow> unat (curr_size r') + 1 = unat (curr_size r)"
  "evict_from_mfu_ghost r = Inr (Some f, r') \<Longrightarrow> unat (curr_size r') + 1 = unat (curr_size r)"
  by (auto simp: evict_from_mru_ghost_def evict_from_mfu_ghost_def checked_sub_def
      word_le_nat_alt unat_sub Let_def split: if_splits option.splits prod.splits)

lemma evict_curr_size: "evict r = Inr (Some f, r') \<Longrightarrow> unat (curr_size r') + 1 = unat (curr_size r)"
  using evict_which evict_from_curr_size by blast

lemma evict_from_ghost:
  "evict_from_mru_ghost s = Inr (Some f, s') \<Longrightarrow>
     \<exists>p. (f, p) \<in> set (mru s) \<and> mru_ghost s' = p # mru_ghost s \<and> mfu_ghost s' = mfu_ghost s"
  "evict_from_mfu_ghost s = Inr (Some f, s') \<Longrightarrow>
     \<exists>p. (f, p) \<in> set (mfu s) \<and> mfu_ghost s' = p # mfu_ghost s \<and> mru_ghost s' = mru_ghost s"
  by (auto simp: evict_from_mru_ghost_def evict_from_mfu_ghost_def Let_def seq_Inr_iff
      split: option.splits prod.splits dest!: scan_back_Some dest: nth_mem)

lemma last_candidate_Some: "last_candidate E xs = Some e \<Longrightarrow> e \<in> set xs \<and> fst e \<in> E"
proof -
  assume e: "last_candidate E xs = Some e"
  then have "filter (\<lambda>e. fst e \<in> E) xs \<noteq> []" "e = last (filter (\<lambda>e. fst e \<in> E) xs)"
    by (auto simp: last_candidate_def split: list.splits)
  with last_in_set [of "filter (\<lambda>e. fst e \<in> E) xs"] show ?thesis by simp
qed

lemma favoured_victim_tracked:
  "favoured_victim s = Some e \<Longrightarrow> e \<in> tracked s \<and> fst e \<in> evictable_pages s"
  by (auto simp: favoured_victim_def Let_def tracked_def split: if_splits dest: last_candidate_Some)

text \<open>C9: An eviction always returns. The victim is the entry of a candidate frame nearest to the
  rear of the list the target favours (the MRU list while it is at least as long as the target), else
  of the other list; its page becomes the newest ghost of that list and nothing else leaves the lists.
  There is no victim exactly when no candidate frame has an entry, and then nothing changes.\<close>

theorem evict_takes_favoured:
  assumes "arc_inv s"
  shows "\<exists>s'. evict s = Inr (map_option fst (favoured_victim s), s') \<and> (case favoured_victim s of
      None \<Rightarrow> s' = s \<and> fst ` tracked s \<inter> evictable_pages s = {}
    | Some (f, p) \<Rightarrow> f \<in> evictable_pages s \<and> arc_inv s' \<and> tracked s' = tracked s - {(f, p)}
        \<and> evictable_pages s' = evictable_pages s - {f}
        \<and> ((f, p) \<in> set (mru s) \<and> mru_ghost s' = p # mru_ghost s \<and> mfu_ghost s' = mfu_ghost s
           \<or> (f, p) \<in> set (mfu s) \<and> mfu_ghost s' = p # mfu_ghost s \<and> mru_ghost s' = mru_ghost s))"
proof (cases "favoured_victim s")
  case None
  from evict_result [OF assms] show ?thesis
  proof
    assume "takes_victim s (evict s)"
    then obtain f s' where "evict s = Inr (Some f, s')" by (auto simp: takes_victim_def)
    from evict_is_favoured [OF this] None show ?thesis by simp
  qed (simp add: None)
next
  case (Some e)
  obtain f p where e: "e = (f, p)" by fastforce
  from evict_result [OF assms] obtain f' s' q where ev: "evict s = Inr (Some f', s')" "f' \<in> evictable_pages s"
    "(f', q) \<in> tracked s" "arc_inv s'" "tracked s' = tracked s - {(f', q)}" "evictable_pages s' = evictable_pages s - {f'}"
    using evict_is_favoured [of s None s] Some unfolding takes_victim_def by auto
  have f: "f' = f" using evict_is_favoured [OF ev(1)] Some e by simp
  have p: "q = p" using arc_inv_frame_unique [OF assms ev(3)] favoured_victim_tracked [OF Some] e f by simp
  have gh: "(f, p) \<in> set (mru s) \<and> mru_ghost s' = p # mru_ghost s \<and> mfu_ghost s' = mfu_ghost s
     \<or> (f, p) \<in> set (mfu s) \<and> mfu_ghost s' = p # mfu_ghost s \<and> mru_ghost s' = mru_ghost s"
  proof -
    have "r = p" if "(f, r) \<in> set (mru s) \<or> (f, r) \<in> set (mfu s)" for r
      using arc_inv_frame_unique [OF assms ev(3)] that f p by (auto simp: tracked_def)
    then show ?thesis using evict_which [OF ev(1)] evict_from_ghost [of s f s'] unfolding f by blast
  qed
  show ?thesis using ev gh Some e f p by simp
qed

theorem evict_takes_favoured_witness:
  "\<exists>s'. evict ((arc_new 2)\<lparr>mru := [(0, 5), (1, 6)], evictable_pages := {0}, curr_size := 1\<rparr>) = Inr (Some 0, s')
    \<and> tracked s' = {(1, 6)} \<and> mru_ghost s' = [5]"
proof -
  let ?s = "(arc_new 2)\<lparr>mru := [(0, 5), (1, 6)], evictable_pages := {0}, curr_size := 1\<rparr>"
  have "arc_inv ?s" by (simp add: arc_inv_def arc_new_def tracked_def)
  moreover have "favoured_victim ?s = Some (0, 5)" by (simp add: favoured_victim_def last_candidate_def arc_new_def)
  ultimately show ?thesis using evict_takes_favoured [of ?s] by (auto simp: tracked_def arc_new_def)
qed

text \<open>C33: Asking for victims until none is left returns every frame that is a candidate and has an
  entry exactly once, and nothing else.\<close>

theorem drain_returns_all_candidates:
  assumes "arc_inv s" and "length (mru s) + length (mfu s) < n"
  shows "\<exists>fs s'. drain_with evict n s = Inr (fs, s') \<and> distinct fs \<and> set fs = fst ` tracked s \<inter> evictable_pages s
    \<and> tracked s' = {e \<in> tracked s. fst e \<notin> evictable_pages s}"
proof -
  from arc.drain_total [OF assms(1)] obtain fs s' where dr: "drain_with evict n s = Inr (fs, s')" by blast
  note D = arc.drain_sound [OF assms(1) dr]
  have "set fs \<subseteq> set (map fst (mru s @ mfu s))" using D by (auto simp: tracked_def)
  then have "card (set fs) \<le> length (map fst (mru s @ mfu s))" by (meson List.finite_set card_length card_mono le_trans)
  then have "length fs < n" using D assms(2) by (simp add: distinct_card)
  then have stop: "fst ` tracked s' \<inter> evictable_pages s' = {}" using D by blast
  have t: "tracked s' = {e \<in> tracked s. fst e \<notin> set fs}" and c: "evictable_pages s' = evictable_pages s - set fs"
    using D by blast+
  have "f \<in> set fs" if "f \<in> fst ` tracked s" "f \<in> evictable_pages s" for f
  proof (rule ccontr)
    assume "f \<notin> set fs"
    with that have "f \<in> fst ` tracked s'" "f \<in> evictable_pages s'" unfolding t c by auto
    with stop show False by blast
  qed
  then have fs: "set fs = fst ` tracked s \<inter> evictable_pages s" using D by blast
  have "tracked s' = {e \<in> tracked s. fst e \<notin> evictable_pages s}" unfolding t fs by auto
  with dr D fs show ?thesis by blast
qed

theorem drain_returns_all_candidates_witness:
  "\<exists>fs s'. drain_with evict 3 ((arc_new 2)\<lparr>mru := [(0, 5)], mfu := [(1, 6)], evictable_pages := {0, 1}, curr_size := 2\<rparr>) = Inr (fs, s')
    \<and> set fs = {0, 1} \<and> distinct fs"
proof -
  let ?s = "(arc_new 2)\<lparr>mru := [(0, 5)], mfu := [(1, 6)], evictable_pages := {0, 1}, curr_size := 2\<rparr>"
  have "arc_inv ?s" by (simp add: arc_inv_def arc_new_def tracked_def)
  from drain_returns_all_candidates [OF this, of 3] show ?thesis by (auto simp: tracked_def)
qed

end
