(* ===== verification/PageDevice.thy ===== *)
theory PageDevice
  imports Prelude
begin

text \<open>
  The contract every layer of the engine offers to the layer above: a device of numbered pages
  that can be read and written whole. \<open>dev_view\<close> is what the device holds, page by page. The disk
  manager, the disk scheduler in front of it and the buffer pool in front of both are three
  instances; a client of the contract sees an array of pages.
\<close>

type_synonym page_view = "page_id \<Rightarrow> u8 list option"

section \<open>Scripts of page commands\<close>

datatype page_cmd = PRead page_id | PWrite page_id "u8 list"

text \<open>Run a script on a device given by its two operations; the outputs of the reads in order.\<close>

fun run_cmds :: "(page_id \<Rightarrow> 's \<Rightarrow> (u8 list \<times> 's) res) \<Rightarrow> (page_id \<Rightarrow> u8 list \<Rightarrow> 's \<Rightarrow> 's res)
    \<Rightarrow> page_cmd list \<Rightarrow> 's \<Rightarrow> (u8 list list \<times> 's) res" where
  "run_cmds rd wr [] s = Inr ([], s)"
| "run_cmds rd wr (PRead p # cs) s =
     seq (rd p s) (\<lambda>(b, s'). seq (run_cmds rd wr cs s') (\<lambda>(out, s''). Inr (b # out, s'')))"
| "run_cmds rd wr (PWrite p b # cs) s = seq (wr p b s) (run_cmds rd wr cs)"

text \<open>The specification: an array of pages.\<close>

fun spec_cmds :: "page_cmd list \<Rightarrow> page_view \<Rightarrow> u8 list list \<times> page_view" where
  "spec_cmds [] v = ([], v)"
| "spec_cmds (PRead p # cs) v = (let (out, v') = spec_cmds cs v in (the (v p) # out, v'))"
| "spec_cmds (PWrite p b # cs) v = spec_cmds cs (v(p \<mapsto> b))"

text \<open>A script is well formed for a set of pages: it names only those, and writes whole pages.\<close>

fun cmd_ok :: "page_id set \<Rightarrow> page_cmd \<Rightarrow> bool" where
  "cmd_ok P (PRead p) = (p \<in> P)"
| "cmd_ok P (PWrite p b) = (p \<in> P \<and> length b = PAGE_SIZE)"

section \<open>The contract\<close>

locale page_device =
  fixes dev_inv :: "'s \<Rightarrow> bool"
    and dev_view :: "'s \<Rightarrow> page_view"
    and dev_read :: "page_id \<Rightarrow> 's \<Rightarrow> (u8 list \<times> 's) res"
    and dev_write :: "page_id \<Rightarrow> u8 list \<Rightarrow> 's \<Rightarrow> 's res"
  assumes read_law: "dev_inv s \<Longrightarrow> dev_view s p = Some b \<Longrightarrow> dev_read p s = Inr (x, s') \<Longrightarrow>
      x = b \<and> dev_inv s' \<and> dev_view s' = dev_view s"
    and write_law: "dev_inv s \<Longrightarrow> p \<in> dom (dev_view s) \<Longrightarrow> length b = PAGE_SIZE \<Longrightarrow>
      dev_write p b s = Inr s' \<Longrightarrow> dev_inv s' \<and> dev_view s' = (dev_view s)(p \<mapsto> b)"
begin

lemma run_cmds_spec:
  assumes "dev_inv s" and "list_all (cmd_ok (dom (dev_view s))) cs"
    and "run_cmds dev_read dev_write cs s = Inr (out, s')"
  shows "spec_cmds cs (dev_view s) = (out, dev_view s') \<and> dev_inv s'"
  using assms
proof (induction cs arbitrary: s out)
  case Nil
  then show ?case by simp
next
  case (Cons c cs)
  show ?case
  proof (cases c)
    case (PRead p)
    with Cons.prems(2) obtain b where b: "dev_view s p = Some b" by auto
    from Cons.prems(3) PRead obtain x s1 out' where
      rd: "dev_read p s = Inr (x, s1)" and
      run: "run_cmds dev_read dev_write cs s1 = Inr (out', s')" and out: "out = x # out'"
      by (auto simp: monad_simps)
    from read_law [OF Cons.prems(1) b rd] have s1: "x = b" "dev_inv s1" "dev_view s1 = dev_view s" by auto
    with Cons.IH [OF s1(2) _ run] Cons.prems(2) PRead b out show ?thesis by simp
  next
    case (PWrite p b)
    with Cons.prems(2) have p: "p \<in> dom (dev_view s)" "length b = PAGE_SIZE" by auto
    from Cons.prems(3) PWrite obtain s1 where
      wr: "dev_write p b s = Inr s1" and
      run: "run_cmds dev_read dev_write cs s1 = Inr (out, s')"
      by (auto simp: monad_simps)
    from write_law [OF Cons.prems(1) p wr] have s1: "dev_inv s1" "dev_view s1 = (dev_view s)(p \<mapsto> b)" by auto
    have "dom (dev_view s1) = dom (dev_view s)" using s1(2) p(1) by auto
    with Cons.prems(2) have "list_all (cmd_ok (dom (dev_view s1))) cs" by simp
    from Cons.IH [OF s1(1) this run] show ?thesis unfolding PWrite spec_cmds.simps s1(2) .
  qed
qed

end

text \<open>A device whose operations always return.\<close>

locale page_device_total = page_device +
  assumes read_total: "dev_inv s \<Longrightarrow> p \<in> dom (dev_view s) \<Longrightarrow> \<exists>x s'. dev_read p s = Inr (x, s')"
    and write_total: "dev_inv s \<Longrightarrow> p \<in> dom (dev_view s) \<Longrightarrow> length b = PAGE_SIZE \<Longrightarrow>
      \<exists>s'. dev_write p b s = Inr s'"
begin

lemma read_result:
  assumes "dev_inv s" and "dev_view s p = Some b"
  obtains s' where "dev_read p s = Inr (b, s')" and "dev_inv s'" and "dev_view s' = dev_view s"
  using assms read_total [of s p] read_law [of s p b] by (metis domI)

lemma write_result:
  assumes "dev_inv s" and "p \<in> dom (dev_view s)" and "length b = PAGE_SIZE"
  obtains s' where "dev_write p b s = Inr s'" and "dev_inv s'" and "dev_view s' = (dev_view s)(p \<mapsto> b)"
  using assms write_total write_law by metis

lemma run_cmds_total:
  assumes "dev_inv s" and "list_all (cmd_ok (dom (dev_view s))) cs"
  shows "\<exists>out s'. run_cmds dev_read dev_write cs s = Inr (out, s')
    \<and> spec_cmds cs (dev_view s) = (out, dev_view s') \<and> dev_inv s'"
proof -
  have "\<exists>out s'. run_cmds dev_read dev_write cs s = Inr (out, s')"
    using assms
  proof (induction cs arbitrary: s)
    case Nil
    then show ?case by simp
  next
    case (Cons c cs)
    show ?case
    proof (cases c)
      case (PRead p)
      with Cons.prems(2) obtain b where b: "dev_view s p = Some b" by auto
      from read_result [OF Cons.prems(1) b] obtain s1
        where s1: "dev_read p s = Inr (b, s1)" "dev_inv s1" "dev_view s1 = dev_view s" .
      with Cons.prems(2) obtain out s2 where "run_cmds dev_read dev_write cs s1 = Inr (out, s2)"
        using Cons.IH [of s1] by auto
      with s1 PRead show ?thesis by simp
    next
      case (PWrite p b)
      with Cons.prems(2) have p: "p \<in> dom (dev_view s)" "length b = PAGE_SIZE" by auto
      from write_result [OF Cons.prems(1) p] obtain s1
        where s1: "dev_write p b s = Inr s1" "dev_inv s1" "dev_view s1 = (dev_view s)(p \<mapsto> b)" .
      have "dom (dev_view s1) = dom (dev_view s)" using s1(3) p(1) by auto
      with Cons.prems(2) have "list_all (cmd_ok (dom (dev_view s1))) cs" by simp
      with Cons.IH [OF s1(2)] s1(1) PWrite show ?thesis by simp
    qed
  qed
  with run_cmds_spec [OF assms] show ?thesis by blast
qed

end

end
