(* ===== verification/DiskManager.thy ===== *)
theory DiskManager
  imports PageDevice
begin

text \<open>
  \<open>disk_manager.rs\<close>: pages of \<open>PAGE_SIZE\<close> bytes in one file, the map from page ids to file
  offsets, the free list of deleted slots and the growth of the file. The file of the operating
  system is a byte list with a cursor; \<open>faults\<close> says how the next system calls end (a missing
  entry is a call that succeeds, \<open>Some (e, k)\<close> one that fails with \<open>e\<close> after moving \<open>k\<close> bytes),
  so every error branch of the code is reachable in the model.
\<close>

section \<open>The file\<close>

datatype io_error = UnexpectedEof | OtherIo

record os_file =
  fbytes :: "u8 list"
  fpos :: nat
  faults :: "(io_error \<times> nat) option list"

type_synonym 'a io = "io_error + 'a"

definition next_fault :: "os_file \<Rightarrow> (io_error \<times> nat) option \<times> os_file" where
  "next_fault f = (case faults f of [] \<Rightarrow> (None, f) | x # xs \<Rightarrow> (x, f\<lparr>faults := xs\<rparr>))"

definition sys_set_len :: "nat \<Rightarrow> os_file \<Rightarrow> unit io \<times> os_file" where
  "sys_set_len n f = (case next_fault f of
       (Some (e, _), f') \<Rightarrow> (Inl e, f')
     | (None, f') \<Rightarrow> (Inr (), f'\<lparr>fbytes := take n (fbytes f') @ replicate (n - length (fbytes f')) 0\<rparr>))"

definition sys_metadata_len :: "os_file \<Rightarrow> nat io \<times> os_file" where
  "sys_metadata_len f = (case next_fault f of
       (Some (e, _), f') \<Rightarrow> (Inl e, f')
     | (None, f') \<Rightarrow> (Inr (length (fbytes f')), f'))"

definition sys_seek :: "nat \<Rightarrow> os_file \<Rightarrow> unit io \<times> os_file" where
  "sys_seek off f = (case next_fault f of
       (Some (e, _), f') \<Rightarrow> (Inl e, f')
     | (None, f') \<Rightarrow> (Inr (), f'\<lparr>fpos := off\<rparr>))"

text \<open>Writing past the end fills the gap with zeros.\<close>

definition file_write_at :: "nat \<Rightarrow> u8 list \<Rightarrow> u8 list \<Rightarrow> u8 list" where
  "file_write_at pos bs xs = put pos bs (xs @ replicate (pos + length bs - length xs) 0)"

definition sys_write_all :: "u8 list \<Rightarrow> os_file \<Rightarrow> unit io \<times> os_file" where
  "sys_write_all bs f = (case next_fault f of
       (Some (e, k), f') \<Rightarrow> (Inl e, f'\<lparr>fbytes := file_write_at (fpos f') (take k bs) (fbytes f')\<rparr>)
     | (None, f') \<Rightarrow> (Inr (), f'\<lparr>fbytes := file_write_at (fpos f') bs (fbytes f'), fpos := fpos f' + length bs\<rparr>))"

text \<open>The outcome, the bytes that reached the buffer, and the file.\<close>

definition sys_read_exact :: "nat \<Rightarrow> os_file \<Rightarrow> unit io \<times> u8 list \<times> os_file" where
  "sys_read_exact n f = (case next_fault f of
       (Some (e, k), f') \<Rightarrow> (Inl e, take k (get (fpos f') n (fbytes f')), f')
     | (None, f') \<Rightarrow>
         let bs = get (fpos f') n (fbytes f')
         in (if length bs = n then Inr () else Inl UnexpectedEof, bs, f'\<lparr>fpos := fpos f' + length bs\<rparr>))"

definition sys_flush :: "os_file \<Rightarrow> unit io \<times> os_file" where
  "sys_flush f = (case next_fault f of
       (Some (e, _), f') \<Rightarrow> (Inl e, f')
     | (None, f') \<Rightarrow> (Inr (), f'))"

lemmas sys_defs =
  next_fault_def sys_set_len_def sys_metadata_len_def sys_seek_def sys_write_all_def
  sys_read_exact_def sys_flush_def

section \<open>The disk manager\<close>

record disk_manager =
  db_file :: os_file
  page_capacity :: nat
  page_size :: nat
  pages :: "(page_id \<times> nat) list"
  num_writes :: nat
  num_deletes :: nat
  free_slots :: "nat list"

text \<open>\<open>DiskManager::new\<close> on the outcome of opening the file (\<open>None\<close>: it could not be opened).
  The result of \<open>set_len\<close> is dropped by the code.\<close>

definition dm_new :: "os_file option \<Rightarrow> disk_manager res" where
  "dm_new opened =
     seq (unwrap opened) (\<lambda>f0.
       let (_, f1) = sys_set_len ((DB_IO_SIZE + 1) * PAGE_SIZE) f0;
           (meta, f2) = sys_metadata_len f1
       in case meta of
            Inl _ \<Rightarrow> Inl UnwrapNone
          | Inr len \<Rightarrow>
              if len < DB_IO_SIZE * PAGE_SIZE then Inl FileTooLarge
              else Inr \<lparr>db_file = f2, page_capacity = DB_IO_SIZE, page_size = PAGE_SIZE, pages = [],
                        num_writes = 0, num_deletes = 0, free_slots = []\<rparr>)"

text \<open>Doubling the capacity; a failure of \<open>set_len\<close> is dropped by the code.\<close>

definition grow :: "disk_manager \<Rightarrow> disk_manager" where
  "grow d =
     (let cap = page_capacity d * 2;
          (_, f) = sys_set_len ((cap + 1) * PAGE_SIZE) (db_file d)
      in d\<lparr>page_capacity := cap, db_file := f\<rparr>)"

text \<open>The block both \<open>write_page\<close> and \<open>read_page\<close> start with: the offset of a known page, else
  the last free slot, else a new slot at the end (growing the file when it is nearly full).\<close>

definition choose_offset :: "page_id \<Rightarrow> disk_manager \<Rightarrow> nat \<times> disk_manager" where
  "choose_offset p d = (case map_of (pages d) p of
       Some existing_offset \<Rightarrow> (existing_offset, d)
     | None \<Rightarrow>
         if free_slots d \<noteq> [] then
           (last (free_slots d), d\<lparr>free_slots := butlast (free_slots d)\<rparr>)
         else
           (length (pages d) * PAGE_SIZE,
            if length (pages d) + 1 \<ge> page_capacity d then grow d else d))"

definition write_page :: "page_id \<Rightarrow> u8 list \<Rightarrow> disk_manager \<Rightarrow> (unit io \<times> disk_manager) res" where
  "write_page p page_data d =
     (let (offset, d1) = choose_offset p d;
          (sought, f1) = sys_seek offset (db_file d1)
      in case sought of
           Inl e \<Rightarrow> Inr (Inl e, d1\<lparr>db_file := f1\<rparr>)
         | Inr _ \<Rightarrow>
             seq (slice 0 PAGE_SIZE page_data) (\<lambda>bytes.
               let (written, f2) = sys_write_all bytes f1
               in case written of
                    Inl e \<Rightarrow> Inr (Inl e, d1\<lparr>db_file := f2\<rparr>)
                  | Inr _ \<Rightarrow>
                      let d2 = d1\<lparr>num_writes := num_writes d1 + 1, pages := AList.update p offset (pages d1)\<rparr>;
                          (flushed, f3) = sys_flush f2
                      in Inr (flushed, d2\<lparr>db_file := f3\<rparr>)))"

definition read_page :: "page_id \<Rightarrow> u8 list \<Rightarrow> disk_manager \<Rightarrow> (u8 list io \<times> disk_manager) res" where
  "read_page p page_data d =
     (let (offset, d1) = choose_offset p d;
          (meta, f1) = sys_metadata_len (db_file d1)
      in case meta of
           Inl e \<Rightarrow> Inr (Inl e, d1\<lparr>db_file := f1\<rparr>)
         | Inr file_size \<Rightarrow>
             if offset > file_size then Inl PageOutOfBounds
             else
               let (sought, f2) = sys_seek offset f1
               in case sought of
                    Inl e \<Rightarrow> Inr (Inl e, d1\<lparr>db_file := f2\<rparr>)
                  | Inr _ \<Rightarrow>
                      seq (slice 0 PAGE_SIZE page_data) (\<lambda>_.
                        let (got, bytes, f3) = sys_read_exact PAGE_SIZE f2;
                            buf = put 0 bytes page_data
                        in case got of
                             Inr _ \<Rightarrow> Inr (Inr buf, d1\<lparr>db_file := f3\<rparr>)
                           | Inl UnexpectedEof \<Rightarrow> Inr (Inr buf, d1\<lparr>db_file := f3\<rparr>)
                           | Inl e \<Rightarrow> Inr (Inl e, d1\<lparr>db_file := f3\<rparr>)))"

definition dm_delete_page :: "page_id \<Rightarrow> disk_manager \<Rightarrow> unit io \<times> disk_manager" where
  "dm_delete_page p d = (case map_of (pages d) p of
       Some offset \<Rightarrow>
         (Inr (), d\<lparr>pages := AList.delete p (pages d), free_slots := free_slots d @ [offset],
                   num_deletes := num_deletes d + 1\<rparr>)
     | None \<Rightarrow> (Inr (), d))"

section \<open>What the disk holds, and the slot invariant\<close>

text \<open>\<open>disk_view\<close>: the bytes of every page the manager maps.\<close>

definition disk_view :: "disk_manager \<Rightarrow> page_view" where
  "disk_view d p = map_option (\<lambda>off. get off PAGE_SIZE (fbytes (db_file d))) (map_of (pages d) p)"

text \<open>The slots in use or on the free list; together they are exactly the first slots of the
  file, each once, and the file has room for one slot more than the capacity.\<close>

definition slots :: "disk_manager \<Rightarrow> nat list" where
  "slots d = map snd (pages d) @ free_slots d"

definition disk_inv :: "disk_manager \<Rightarrow> bool" where
  "disk_inv d \<longleftrightarrow> distinct (map fst (pages d)) \<and> distinct (slots d)
     \<and> set (slots d) = (\<lambda>i. i * PAGE_SIZE) ` {..<length (slots d)}
     \<and> length (slots d) \<le> page_capacity d \<and> 0 < page_capacity d
     \<and> length (fbytes (db_file d)) = (page_capacity d + 1) * PAGE_SIZE"

definition no_faults :: "disk_manager \<Rightarrow> bool" where
  "no_faults d \<longleftrightarrow> faults (db_file d) = []"

text \<open>The disk manager is usable when its slots are sound and the system calls succeed.\<close>

definition disk_ok :: "disk_manager \<Rightarrow> bool" where
  "disk_ok d \<longleftrightarrow> disk_inv d \<and> no_faults d"

lemma slots_length: "length (slots d) = length (pages d) + length (free_slots d)"
  by (simp add: slots_def)

lemma dom_disk_view: "dom (disk_view d) = fst ` set (pages d)"
proof -
  have "dom (disk_view d) = dom (map_of (pages d))" by (auto simp: disk_view_def)
  then show ?thesis by (simp add: dom_map_of_conv_image_fst)
qed

lemma slot_multiple: "i * PAGE_SIZE + PAGE_SIZE \<le> j * PAGE_SIZE \<longleftrightarrow> i < j"
proof -
  have "i * PAGE_SIZE + PAGE_SIZE = Suc i * PAGE_SIZE" by simp
  then show ?thesis by (simp only: mult_le_cancel2 PAGE_SIZE_pos Suc_le_eq simp_thms)
qed

lemma slots_disjoint: "i \<noteq> j \<Longrightarrow> i * PAGE_SIZE + PAGE_SIZE \<le> j * PAGE_SIZE \<or> j * PAGE_SIZE + PAGE_SIZE \<le> i * PAGE_SIZE"
  by (simp add: slot_multiple) (metis linorder_neqE_nat)

lemma disk_inv_offset:
  assumes "disk_inv d" and "map_of (pages d) p = Some off"
  obtains i where "off = i * PAGE_SIZE" and "i < page_capacity d"
proof -
  from assms(2) have "off \<in> set (slots d)" by (force simp: slots_def dest: map_of_SomeD)
  with assms(1) have "off \<in> (\<lambda>i. i * PAGE_SIZE) ` {..<length (slots d)}" by (simp add: disk_inv_def)
  then obtain i where "off = i * PAGE_SIZE" "i < length (slots d)" by auto
  with assms(1) that [of i] show ?thesis by (simp add: disk_inv_def)
qed

lemma disk_inv_offsets_distinct:
  assumes "disk_inv d" and "map_of (pages d) p = Some off" and "map_of (pages d) q = Some off"
  shows "p = q"
proof -
  from assms(1) have "distinct (map snd (pages d))" by (simp add: disk_inv_def slots_def)
  with assms(2,3) have "(p, off) = (q, off)"
    by (intro inj_onD [of snd "set (pages d)"]) (auto simp: distinct_map dest: map_of_SomeD)
  then show ?thesis by simp
qed

lemma file_write_at_inside:
  "pos + length bs \<le> length xs \<Longrightarrow> file_write_at pos bs xs = put pos bs xs"
  by (simp add: file_write_at_def)

lemma grow_simps:
  assumes "no_faults d"
  shows "pages (grow d) = pages d" "free_slots (grow d) = free_slots d"
    "page_capacity (grow d) = 2 * page_capacity d" "num_writes (grow d) = num_writes d"
    "no_faults (grow d)"
    "fbytes (db_file (grow d)) = take ((2 * page_capacity d + 1) * PAGE_SIZE) (fbytes (db_file d))
       @ replicate ((2 * page_capacity d + 1) * PAGE_SIZE - length (fbytes (db_file d))) 0"
  using assms by (auto simp: grow_def no_faults_def sys_defs Let_def mult.commute)

lemma grow_view:
  assumes "disk_ok d"
  shows "disk_view (grow d) = disk_view d"
proof
  fix p
  from assms have nf: "no_faults d" and inv: "disk_inv d" by (simp_all add: disk_ok_def)
  show "disk_view (grow d) p = disk_view d p"
  proof (cases "map_of (pages d) p")
    case None
    with nf show ?thesis by (simp add: disk_view_def grow_simps)
  next
    case (Some off)
    with inv obtain i where i: "off = i * PAGE_SIZE" "i < page_capacity d" by (rule disk_inv_offset)
    from inv have "length (fbytes (db_file d)) = (page_capacity d + 1) * PAGE_SIZE" by (simp add: disk_inv_def)
    moreover from i have "off + PAGE_SIZE \<le> (page_capacity d + 1) * PAGE_SIZE" by (simp add: slot_multiple)
    moreover have "(page_capacity d + 1) * PAGE_SIZE \<le> (2 * page_capacity d + 1) * PAGE_SIZE" by simp
    ultimately show ?thesis using nf Some by (simp add: disk_view_def grow_simps get_append_left)
  qed
qed

lemma grow_ok: "disk_ok d \<Longrightarrow> disk_ok (grow d)"
proof -
  assume ok: "disk_ok d"
  then have len: "length (fbytes (db_file d)) = (page_capacity d + 1) * PAGE_SIZE"
    by (simp add: disk_ok_def disk_inv_def)
  have le: "(page_capacity d + 1) * PAGE_SIZE \<le> (2 * page_capacity d + 1) * PAGE_SIZE" by simp
  have "length (fbytes (db_file (grow d))) = (2 * page_capacity d + 1) * PAGE_SIZE"
    using ok len le by (simp add: disk_ok_def grow_simps)
  then show ?thesis
    using ok by (simp add: disk_ok_def disk_inv_def grow_simps slots_def)
qed

text \<open>Mapping a page keeps the invariant in each of the three ways its slot is found.\<close>

lemma inv_reuse_free:
  assumes "disk_inv d" and "map_of (pages d) p = None" and "free_slots d = fs @ [off]"
  shows "disk_inv (d\<lparr>free_slots := fs, pages := AList.update p off (pages d)\<rparr>)"
proof -
  have upd: "AList.update p off (pages d) = pages d @ [(p, off)]"
    using assms(2) by (intro set_update_new) (simp add: map_of_eq_None_iff)
  have "p \<notin> fst ` set (pages d)" using assms(2) by (simp add: map_of_eq_None_iff)
  with assms show ?thesis
    by (auto simp: disk_inv_def slots_def upd)
qed

lemma inv_fresh_slot:
  assumes "disk_inv d" and "map_of (pages d) p = None" and "free_slots d = []"
    and "length (pages d) < page_capacity d"
  shows "disk_inv (d\<lparr>pages := AList.update p (length (pages d) * PAGE_SIZE) (pages d)\<rparr>)"
proof -
  let ?n = "length (pages d)"
  have upd: "AList.update p (?n * PAGE_SIZE) (pages d) = pages d @ [(p, ?n * PAGE_SIZE)]"
    using assms(2) by (intro set_update_new) (simp add: map_of_eq_None_iff)
  have "p \<notin> fst ` set (pages d)" using assms(2) by (simp add: map_of_eq_None_iff)
  moreover have set_slots: "snd ` set (pages d) = (\<lambda>i. i * PAGE_SIZE) ` {..<?n}"
    using assms(1,3) by (simp add: disk_inv_def slots_def)
  moreover have "?n * PAGE_SIZE \<notin> snd ` set (pages d)" unfolding set_slots by auto
  moreover have "insert (?n * PAGE_SIZE) (snd ` set (pages d)) = (\<lambda>i. i * PAGE_SIZE) ` {..<Suc ?n}"
    unfolding set_slots lessThan_Suc by simp
  ultimately show ?thesis
    using assms by (simp add: disk_inv_def slots_def upd)
qed

text \<open>The slot the code chooses: a slot of the file that no other page has, and nothing the disk
  holds has changed.\<close>

lemma choose_offset_frame:
  assumes ok: "disk_ok d" and ch: "choose_offset p d = (off, d')"
  shows "pages d' = pages d" "disk_view d' = disk_view d" "no_faults d'" "num_writes d' = num_writes d"
proof -
  from ok have nf: "no_faults d" by (simp add: disk_ok_def)
  have reuse: "disk_view (d\<lparr>free_slots := fs\<rparr>) = disk_view d" for fs
    by (simp add: disk_view_def fun_eq_iff)
  show "pages d' = pages d" "disk_view d' = disk_view d" "no_faults d'" "num_writes d' = num_writes d"
    using ch nf grow_view [OF ok] reuse grow_simps(1,4,5) [OF nf]
    by (auto simp: choose_offset_def no_faults_def split: option.splits if_splits)
qed

lemma choose_offset_inv:
  assumes ok: "disk_ok d" and ch: "choose_offset p d = (off, d')"
  shows "disk_inv (d'\<lparr>pages := AList.update p off (pages d')\<rparr>)"
proof (cases "map_of (pages d) p")
  case (Some o')
  with ch ok show ?thesis
    by (simp add: choose_offset_def update_same disk_ok_def)
next
  case None
  from ok have inv: "disk_inv d" by (simp add: disk_ok_def)
  show ?thesis
  proof (cases "free_slots d" rule: rev_cases)
    case Nil
    define d1 where "d1 = (if length (pages d) + 1 \<ge> page_capacity d then grow d else d)"
    with ch None Nil have eqs: "off = length (pages d) * PAGE_SIZE" "d' = d1"
      by (auto simp: choose_offset_def split: if_splits)
    have ok1: "disk_inv d1"
      using grow_ok [OF ok] ok by (simp add: d1_def disk_ok_def)
    have same: "pages d1 = pages d" "free_slots d1 = []"
      using ok Nil by (simp_all add: d1_def disk_ok_def grow_simps)
    have "length (pages d) \<le> page_capacity d" "0 < page_capacity d"
      using inv by (simp_all add: disk_inv_def slots_def)
    then have "length (pages d1) < page_capacity d1"
      using ok by (simp add: d1_def disk_ok_def grow_simps)
    with inv_fresh_slot [OF ok1, of p] None same show ?thesis by (simp add: eqs)
  next
    case (snoc fs x)
    with ch None have "off = x" "d' = d\<lparr>free_slots := fs\<rparr>" by (auto simp: choose_offset_def)
    with inv_reuse_free [OF inv None, of fs x] snoc show ?thesis by simp
  qed
qed

lemma choose_offset_bounds:
  assumes ok: "disk_ok d" and ch: "choose_offset p d = (off, d')"
  shows "off + PAGE_SIZE \<le> length (fbytes (db_file d'))"
    and "q \<noteq> p \<Longrightarrow> map_of (pages d) q = Some off' \<Longrightarrow> off' + PAGE_SIZE \<le> off \<or> off + PAGE_SIZE \<le> off'"
proof -
  let ?e = "d'\<lparr>pages := AList.update p off (pages d')\<rparr>"
  have inv: "disk_inv ?e" using assms by (rule choose_offset_inv)
  have p: "map_of (pages ?e) p = Some off" by simp
  obtain i where i: "off = i * PAGE_SIZE" "i < page_capacity ?e" using disk_inv_offset [OF inv p] .
  have "length (fbytes (db_file d')) = (page_capacity ?e + 1) * PAGE_SIZE"
    using inv by (simp add: disk_inv_def)
  moreover have "off + PAGE_SIZE \<le> (page_capacity ?e + 1) * PAGE_SIZE"
    using i by (simp add: slot_multiple)
  ultimately show "off + PAGE_SIZE \<le> length (fbytes (db_file d'))" by simp
  assume q: "q \<noteq> p" "map_of (pages d) q = Some off'"
  then have q': "map_of (pages ?e) q = Some off'" using choose_offset_frame(1) [OF assms] by simp
  obtain j where j: "off' = j * PAGE_SIZE" using disk_inv_offset [OF inv q'] .
  have "off' \<noteq> off" using disk_inv_offsets_distinct [OF inv q'] p q(1) by auto
  with i j show "off' + PAGE_SIZE \<le> off \<or> off + PAGE_SIZE \<le> off'"
    by (metis slots_disjoint)
qed

section \<open>The operations against the array of pages\<close>

text \<open>The file steps of the two operations once the slot is chosen.\<close>

lemma write_page_effect:
  assumes ch: "choose_offset p d = (off, d1)" and nf: "no_faults d1"
    and bound: "off + PAGE_SIZE \<le> length (fbytes (db_file d1))" and len: "PAGE_SIZE \<le> length data"
  shows "write_page p data d = Inr (Inr (),
     d1\<lparr>num_writes := num_writes d1 + 1, pages := AList.update p off (pages d1),
        db_file := (db_file d1)\<lparr>fbytes := put off (take PAGE_SIZE data) (fbytes (db_file d1)), fpos := off + PAGE_SIZE\<rparr>\<rparr>)"
proof -
  have "slice 0 PAGE_SIZE data = Inr (take PAGE_SIZE data)" using len by (simp add: slice_def get_def)
  then show ?thesis using nf bound len
    by (simp add: write_page_def ch sys_defs no_faults_def file_write_at_inside)
qed

lemma read_page_effect:
  assumes ch: "choose_offset p d = (off, d1)" and nf: "no_faults d1"
    and bound: "off + PAGE_SIZE \<le> length (fbytes (db_file d1))" and len: "PAGE_SIZE \<le> length buf"
  shows "read_page p buf d = Inr (Inr (put 0 (get off PAGE_SIZE (fbytes (db_file d1))) buf),
     d1\<lparr>db_file := (db_file d1)\<lparr>fpos := off + PAGE_SIZE\<rparr>\<rparr>)"
  using assms by (simp add: read_page_def sys_defs no_faults_def slice_simps Let_def)

lemma write_page_ok:
  assumes ok: "disk_ok d" and len: "PAGE_SIZE \<le> length data"
  shows "\<exists>d'. write_page p data d = Inr (Inr (), d') \<and> disk_ok d'
    \<and> disk_view d' = (disk_view d)(p \<mapsto> take PAGE_SIZE data) \<and> num_writes d' = num_writes d + 1"
proof -
  obtain off d1 where ch: "choose_offset p d = (off, d1)" by fastforce
  note frame = choose_offset_frame [OF ok ch] and inv = choose_offset_inv [OF ok ch]
    and bound = choose_offset_bounds [OF ok ch]
  define bs where "bs = take PAGE_SIZE data"
  have lbs: "length bs = PAGE_SIZE" using len by (simp add: bs_def)
  define d' where "d' = d1\<lparr>num_writes := num_writes d1 + 1, pages := AList.update p off (pages d1),
    db_file := (db_file d1)\<lparr>fbytes := put off bs (fbytes (db_file d1)), fpos := off + PAGE_SIZE\<rparr>\<rparr>"
  have "write_page p data d = Inr (Inr (), d')"
    using write_page_effect [OF ch frame(3) bound(1) len] by (simp add: d'_def bs_def)
  moreover have "disk_ok d'"
    using inv frame(3) bound(1) lbs
    by (auto simp: disk_ok_def disk_inv_def slots_def no_faults_def d'_def)
  moreover have "disk_view d' q = ((disk_view d)(p \<mapsto> bs)) q" for q
  proof (cases "q = p")
    case True
    with bound(1) lbs show ?thesis by (simp add: disk_view_def d'_def slice_simps)
  next
    case False
    have "get off' PAGE_SIZE (put off bs (fbytes (db_file d1))) = get off' PAGE_SIZE (fbytes (db_file d1))"
      if "map_of (pages d) q = Some off'" for off'
      using bound(1) bound(2) [OF False that] lbs by (intro get_put_other) auto
    then have "disk_view d' q = disk_view d1 q"
      using False frame(1) by (auto simp: disk_view_def d'_def split: option.splits intro!: map_option_cong)
    with False frame(2) show ?thesis by simp
  qed
  ultimately show ?thesis using frame(4) by (auto simp: bs_def d'_def fun_eq_iff)
qed

lemma read_page_ok:
  assumes ok: "disk_ok d" and known: "disk_view d p = Some b" and len: "PAGE_SIZE \<le> length buf"
  shows "\<exists>d'. read_page p buf d = Inr (Inr (put 0 b buf), d') \<and> disk_ok d' \<and> disk_view d' = disk_view d
    \<and> pages d' = pages d \<and> num_writes d' = num_writes d"
proof -
  from known obtain off where off: "map_of (pages d) p = Some off" and b: "b = get off PAGE_SIZE (fbytes (db_file d))"
    by (auto simp: disk_view_def)
  then have ch: "choose_offset p d = (off, d)" by (simp add: choose_offset_def)
  note bound = choose_offset_bounds(1) [OF ok ch]
  define d' where "d' = d\<lparr>db_file := (db_file d)\<lparr>fpos := off + PAGE_SIZE\<rparr>\<rparr>"
  from ok have "no_faults d" by (simp add: disk_ok_def)
  then have "read_page p buf d = Inr (Inr (put 0 b buf), d')"
    using read_page_effect [OF ch _ bound len] b by (simp add: d'_def)
  moreover have "disk_ok d'" "disk_view d' = disk_view d"
    using ok by (auto simp: disk_ok_def disk_inv_def slots_def no_faults_def disk_view_def d'_def)
  ultimately show ?thesis by (auto simp: d'_def)
qed

lemma delete_page_ok:
  assumes ok: "disk_ok d"
  shows "disk_ok (snd (dm_delete_page p d)) \<and> disk_view (snd (dm_delete_page p d)) = (disk_view d)(p := None)"
proof (cases "map_of (pages d) p")
  case None
  then have "(disk_view d)(p := None) = disk_view d" by (auto simp: disk_view_def)
  with None ok show ?thesis by (simp add: dm_delete_page_def)
next
  case (Some off)
  define d' where "d' = d\<lparr>pages := AList.delete p (pages d), free_slots := free_slots d @ [off], num_deletes := num_deletes d + 1\<rparr>"
  have inv: "disk_inv d" using ok by (simp add: disk_ok_def)
  have "mset (pages d) = add_mset (p, off) (mset (AList.delete p (pages d)))"
    using inv Some by (intro mset_delete) (simp_all add: disk_inv_def)
  then have "image_mset snd (mset (pages d)) = add_mset off (image_mset snd (mset (AList.delete p (pages d))))"
    by simp
  then have perm: "mset (slots d') = mset (slots d)" by (simp add: slots_def d'_def)
  note same = mset_eq_imp_distinct_iff [OF perm] mset_eq_setD [OF perm] mset_eq_length [OF perm]
  from inv same have "disk_inv d'"
    by (simp add: disk_inv_def distinct_delete) (simp add: d'_def distinct_delete)
  then have "disk_ok d'" using ok by (simp add: disk_ok_def no_faults_def d'_def)
  moreover have "disk_view d' = (disk_view d)(p := None)"
    by (auto simp: disk_view_def d'_def)
  ultimately show ?thesis using Some by (simp add: dm_delete_page_def d'_def)
qed

text \<open>A new manager: whatever the file held, its pages map is empty and its slots are sound.\<close>

lemma dm_new_ok:
  assumes "faults f = []"
  shows "\<exists>d. dm_new (Some f) = Inr d \<and> disk_ok d \<and> disk_view d = Map.empty \<and> num_writes d = 0"
  using assms
  by (auto simp: dm_new_def sys_defs disk_ok_def disk_inv_def no_faults_def slots_def disk_view_def
      PAGE_SIZE_def DB_IO_SIZE_def)

section \<open>A lost slot is handed out twice\<close>

text \<open>
  Reading a page the manager does not map takes a slot from the free list and does not record it;
  so does a write whose \<open>seek\<close> or \<open>write_all\<close> fails. The next new page is then placed at
  \<open>pages.len() * PAGE_SIZE\<close>, which another page may own.
\<close>

lemma fresh_slot_taken:
  assumes inv: "disk_inv d" and free: "free_slots d = [off]" and last: "off \<noteq> length (pages d) * PAGE_SIZE"
  obtains q where "map_of (pages d) q = Some (length (pages d) * PAGE_SIZE)"
proof -
  let ?n = "length (pages d)"
  have "?n * PAGE_SIZE \<in> (\<lambda>i. i * PAGE_SIZE) ` {..<length (slots d)}"
    using free by (simp add: slots_def)
  then have "?n * PAGE_SIZE \<in> set (slots d)" using inv by (simp add: disk_inv_def)
  with free last have "?n * PAGE_SIZE \<in> snd ` set (pages d)" by (simp add: slots_def)
  then obtain q where "(q, ?n * PAGE_SIZE) \<in> set (pages d)" by force
  with inv that [of q] show ?thesis by (simp add: disk_inv_def)
qed

lemma lost_slot_alias:
  assumes ok: "disk_ok d" and free: "free_slots d = [off]" and last: "off \<noteq> length (pages d) * PAGE_SIZE"
    and u: "disk_view d u = None" and r: "disk_view d r = None"
    and buf: "PAGE_SIZE \<le> length buf" and data: "PAGE_SIZE \<le> length data"
  obtains x d1 d2 q where "read_page u buf d = Inr (Inr x, d1)" and "write_page r data d1 = Inr (Inr (), d2)"
    and "q \<noteq> r" and "disk_view d q \<noteq> None" and "disk_view d2 q = Some (take PAGE_SIZE data)"
proof -
  let ?n = "length (pages d)"
  from ok have inv: "disk_inv d" and nf: "no_faults d" by (simp_all add: disk_ok_def)
  from fresh_slot_taken [OF inv free last] obtain q where q: "map_of (pages d) q = Some (?n * PAGE_SIZE)" .
  have unmapped: "map_of (pages d) u = None" "map_of (pages d) r = None"
    using u r by (simp_all add: disk_view_def)
  have chu: "choose_offset u d = (off, d\<lparr>free_slots := []\<rparr>)"
    using unmapped free by (simp add: choose_offset_def)
  define d1 where "d1 = d\<lparr>free_slots := [], db_file := (db_file d)\<lparr>fpos := off + PAGE_SIZE\<rparr>\<rparr>"
  obtain x where rd: "read_page u buf d = Inr (Inr x, d1)"
    using read_page_effect [OF chu _ _ buf] choose_offset_bounds(1) [OF ok chu] nf
    by (simp add: no_faults_def d1_def)
  define d1' where "d1' = (if ?n + 1 \<ge> page_capacity d1 then grow d1 else d1)"
  have chr: "choose_offset r d1 = (?n * PAGE_SIZE, d1')"
    using unmapped by (simp add: choose_offset_def d1_def d1'_def)
  have len1: "length (fbytes (db_file d1)) = (page_capacity d + 1) * PAGE_SIZE"
    using inv by (simp add: d1_def disk_inv_def)
  have nf1: "no_faults d1" using nf by (simp add: no_faults_def d1_def)
  then have nf1': "no_faults d1'" by (simp add: d1'_def grow_simps)
  have "?n * PAGE_SIZE + PAGE_SIZE \<le> (page_capacity d + 1) * PAGE_SIZE"
    using inv free by (simp add: slot_multiple disk_inv_def slots_def)
  also have "\<dots> \<le> length (fbytes (db_file d1'))"
    using len1 grow_simps(6) [OF nf1] by (simp add: d1'_def d1_def)
  finally have bound: "?n * PAGE_SIZE + PAGE_SIZE \<le> length (fbytes (db_file d1'))" .
  have pages1: "pages d1' = pages d" using nf1 by (simp add: d1'_def d1_def grow_simps)
  from write_page_effect [OF chr nf1' bound data] obtain d2 where
    wr: "write_page r data d1 = Inr (Inr (), d2)" and
    d2: "pages d2 = AList.update r (?n * PAGE_SIZE) (pages d)"
      "fbytes (db_file d2) = put (?n * PAGE_SIZE) (take PAGE_SIZE data) (fbytes (db_file d1'))"
    by (simp add: pages1)
  have "q \<noteq> r" using q unmapped by auto
  moreover have "disk_view d2 q = Some (take PAGE_SIZE data)"
    using q \<open>q \<noteq> r\<close> bound data by (simp add: disk_view_def d2 slice_simps)
  ultimately show ?thesis using that [OF rd wr] q by (simp add: disk_view_def)
qed

section \<open>The disk manager is a page device\<close>

text \<open>The two operations as its clients use them, on whole pages and unwrapping the result.\<close>

definition disk_store :: "page_id \<Rightarrow> u8 list \<Rightarrow> disk_manager \<Rightarrow> disk_manager res" where
  "disk_store p b d = seq (write_page p b d) (\<lambda>(r, d'). case r of Inl _ \<Rightarrow> Inl UnwrapNone | Inr _ \<Rightarrow> Inr d')"

definition disk_load :: "page_id \<Rightarrow> disk_manager \<Rightarrow> (u8 list \<times> disk_manager) res" where
  "disk_load p d = seq (read_page p (replicate PAGE_SIZE 0) d)
     (\<lambda>(r, d'). case r of Inl _ \<Rightarrow> Inl UnwrapNone | Inr b \<Rightarrow> Inr (b, d'))"

lemma disk_view_length: "disk_ok d \<Longrightarrow> disk_view d p = Some b \<Longrightarrow> length b = PAGE_SIZE"
proof -
  assume ok: "disk_ok d" and b: "disk_view d p = Some b"
  then obtain off where off: "map_of (pages d) p = Some off" "b = get off PAGE_SIZE (fbytes (db_file d))"
    by (auto simp: disk_view_def)
  then have "choose_offset p d = (off, d)" by (simp add: choose_offset_def)
  from choose_offset_bounds(1) [OF ok this] off show ?thesis by simp
qed

lemma put_whole: "length b = length buf \<Longrightarrow> put 0 b buf = b"
  by (simp add: put_def)

lemma disk_load_ok:
  assumes "disk_ok d" and "disk_view d p = Some b"
  shows "\<exists>d'. disk_load p d = Inr (b, d') \<and> disk_ok d' \<and> disk_view d' = disk_view d"
  using read_page_ok [OF assms, of "replicate PAGE_SIZE 0"] disk_view_length [OF assms]
  by (auto simp: disk_load_def put_whole)

lemma disk_store_ok:
  assumes "disk_ok d" and "length b = PAGE_SIZE"
  shows "\<exists>d'. disk_store p b d = Inr d' \<and> disk_ok d' \<and> disk_view d' = (disk_view d)(p \<mapsto> b)"
  using write_page_ok [OF assms(1), of b p] assms(2) by (auto simp: disk_store_def)

interpretation disk: page_device_total disk_ok disk_view disk_load disk_store
proof unfold_locales
  fix s p b x s'
  assume "disk_ok s" "disk_view s p = Some b" "disk_load p s = Inr (x, s')"
  with disk_load_ok [of s p b] show "x = b \<and> disk_ok s' \<and> disk_view s' = disk_view s" by auto
next
  fix s p b s'
  assume "disk_ok s" "length b = PAGE_SIZE" "disk_store p b s = Inr s'"
  with disk_store_ok [of s b p] show "disk_ok s' \<and> disk_view s' = (disk_view s)(p \<mapsto> b)" by auto
next
  fix s p
  assume "disk_ok s" "p \<in> dom (disk_view s)"
  then show "\<exists>x s'. disk_load p s = Inr (x, s')" using disk_load_ok by blast
next
  fix s p and b :: "u8 list"
  assume "disk_ok s" "length b = PAGE_SIZE"
  then show "\<exists>s'. disk_store p b s = Inr s'" using disk_store_ok by blast
qed

section \<open>Properties\<close>

text \<open>The states a client reaches by successful calls, with what it has written: writes, deletions, and reads, where a page
  the manager does not map may be read only while no deleted page's slot is free. Without that bound the
  invariant is lost: the read takes the slot and does not record it (\<open>lost_slot_aliases_pages\<close>).\<close>

inductive disk_run :: "disk_manager \<Rightarrow> page_view \<Rightarrow> disk_manager \<Rightarrow> bool" for d0 where
  disk_start: "disk_run d0 Map.empty d0"
| disk_write: "disk_run d0 m d \<Longrightarrow> PAGE_SIZE \<le> length data \<Longrightarrow> write_page p data d = Inr (r, d')
    \<Longrightarrow> disk_run d0 (m(p \<mapsto> take PAGE_SIZE data)) d'"
| disk_read: "disk_run d0 m d \<Longrightarrow> p \<in> fst ` set (pages d) \<or> free_slots d = [] \<Longrightarrow> PAGE_SIZE \<le> length buf
    \<Longrightarrow> read_page p buf d = Inr (r, d') \<Longrightarrow> disk_run d0 m d'"
| disk_delete: "disk_run d0 m d \<Longrightarrow> disk_run d0 (m(p := None)) (snd (dm_delete_page p d))"

text \<open>Reading an unknown page while no slot is free looks past the last page, and may grow the file.\<close>

lemma read_unknown_ok:
  assumes ok: "disk_ok d" and unknown: "map_of (pages d) p = None" "free_slots d = []" and len: "PAGE_SIZE \<le> length buf"
  shows "\<exists>x d'. read_page p buf d = Inr (Inr x, d') \<and> disk_ok d' \<and> disk_view d' = disk_view d"
proof -
  define d1 where "d1 = (if length (pages d) + 1 \<ge> page_capacity d then grow d else d)"
  have ok1: "disk_ok d1" and v1: "disk_view d1 = disk_view d" using ok grow_ok [OF ok] grow_view [OF ok] by (simp_all add: d1_def)
  have ch: "choose_offset p d = (length (pages d) * PAGE_SIZE, d1)" using unknown by (simp add: choose_offset_def d1_def)
  let ?d' = "d1\<lparr>db_file := (db_file d1)\<lparr>fpos := length (pages d) * PAGE_SIZE + PAGE_SIZE\<rparr>\<rparr>"
  have "disk_ok ?d'" "disk_view ?d' = disk_view d1"
    using ok1 by (auto simp: disk_ok_def disk_inv_def slots_def no_faults_def disk_view_def)
  with read_page_effect [OF ch choose_offset_frame(3) [OF ok ch] choose_offset_bounds(1) [OF ok ch] len] v1 show ?thesis by simp
qed

lemma disk_run_ok: "disk_run d0 m d \<Longrightarrow> disk_ok d0 \<Longrightarrow> disk_view d0 = Map.empty \<Longrightarrow> disk_ok d \<and> disk_view d = m"
proof (induction rule: disk_run.induct)
  case (disk_write m d data p r d')
  then show ?case using write_page_ok [of d data p] by auto
next
  case (disk_read m d p buf r d')
  then have ok: "disk_ok d" "disk_view d = m" by simp_all
  show ?case
  proof (cases "disk_view d p")
    case None
    then have miss: "map_of (pages d) p = None" by (simp add: disk_view_def)
    moreover from this have "free_slots d = []" using disk_read.hyps(2) by (simp add: map_of_eq_None_iff)
    ultimately obtain x e where "read_page p buf d = Inr (Inr x, e)" "disk_ok e" "disk_view e = disk_view d"
      using read_unknown_ok [OF ok(1) _ _ disk_read.hyps(3), of p] by blast
    with disk_read.hyps(4) ok(2) show ?thesis by simp
  next
    case (Some b)
    with read_page_ok [OF ok(1) Some disk_read.hyps(3)] disk_read.hyps(4) ok(2) show ?thesis by auto
  qed
qed (simp_all add: delete_page_ok)

text \<open>C12: After a successful write every page the disk manager knows can be read back: the page just
  written with its new bytes, every other page with the bytes it had, also when the write had to
  grow the file or to reuse the slot of a deleted page.\<close>

theorem disk_write_then_read:
  assumes "disk_ok d" and "PAGE_SIZE \<le> length data"
  shows "\<exists>d1. write_page p data d = Inr (Inr (), d1) \<and> num_writes d1 = num_writes d + 1 \<and>
    (\<forall>q b. ((disk_view d)(p \<mapsto> take PAGE_SIZE data)) q = Some b \<longrightarrow>
       (\<exists>d2. read_page q (replicate PAGE_SIZE 0) d1 = Inr (Inr b, d2) \<and> disk_ok d2 \<and> disk_view d2 = disk_view d1))"
proof -
  from write_page_ok [OF assms, of p] obtain d1 where
    w: "write_page p data d = Inr (Inr (), d1)" "num_writes d1 = num_writes d + 1" and ok: "disk_ok d1" and
    v: "disk_view d1 = (disk_view d)(p \<mapsto> take PAGE_SIZE data)" by blast
  have "\<exists>d2. read_page q (replicate PAGE_SIZE 0) d1 = Inr (Inr b, d2) \<and> disk_ok d2 \<and> disk_view d2 = disk_view d1"
    if "disk_view d1 q = Some b" for q b
    using read_page_ok [OF ok that, of "replicate PAGE_SIZE 0"] disk_view_length [OF ok that]
    by (auto simp: put_whole)
  with w v show ?thesis by auto
qed

text \<open>A small disk for the witnesses: the given pages and free slots on a file of 16 zero pages.\<close>

definition disk_of :: "(page_id \<times> nat) list \<Rightarrow> nat list \<Rightarrow> disk_manager" where
  "disk_of ps fs = \<lparr>db_file = \<lparr>fbytes = replicate (DB_IO_SIZE * PAGE_SIZE + PAGE_SIZE) 0, fpos = 0, faults = []\<rparr>,
     page_capacity = DB_IO_SIZE, page_size = PAGE_SIZE, pages = ps, num_writes = 0, num_deletes = 0, free_slots = fs\<rparr>"

lemma disk_of_simps [simp]:
  "pages (disk_of ps fs) = ps" "num_writes (disk_of ps fs) = 0" "free_slots (disk_of ps fs) = fs"
  by (simp_all add: disk_of_def)

lemma disk_of_ok:
  "distinct (map fst ps) \<Longrightarrow> distinct (map snd ps @ fs) \<Longrightarrow> length ps + length fs \<le> DB_IO_SIZE
    \<Longrightarrow> set (map snd ps @ fs) = (\<lambda>i. i * PAGE_SIZE) ` {..<length ps + length fs} \<Longrightarrow> disk_ok (disk_of ps fs)"
  by (simp add: disk_ok_def disk_inv_def no_faults_def slots_def disk_of_def DB_IO_SIZE_def del: set_append)

theorem disk_write_then_read_witness:
  "\<exists>d1. write_page 7 (replicate PAGE_SIZE 1) (disk_of [(3, 0)] []) = Inr (Inr (), d1) \<and> num_writes d1 = 1 \<and>
    (\<exists>d2. read_page 7 (replicate PAGE_SIZE 0) d1 = Inr (Inr (replicate PAGE_SIZE 1), d2))"
proof -
  have "disk_ok (disk_of [(3, 0)] [])" by (rule disk_of_ok) (auto simp: DB_IO_SIZE_def)
  from disk_write_then_read [OF this, of "replicate PAGE_SIZE 1" 7] obtain d1 where
    "write_page 7 (replicate PAGE_SIZE 1) (disk_of [(3, 0)] []) = Inr (Inr (), d1)" "num_writes d1 = 1" and
    rd: "\<forall>q b. ((disk_view (disk_of [(3, 0)] []))(7 \<mapsto> take PAGE_SIZE (replicate PAGE_SIZE 1))) q = Some b \<longrightarrow>
      (\<exists>d2. read_page q (replicate PAGE_SIZE 0) d1 = Inr (Inr b, d2) \<and> disk_ok d2 \<and> disk_view d2 = disk_view d1)"
    by auto
  moreover have "\<exists>d2. read_page 7 (replicate PAGE_SIZE 0) d1 = Inr (Inr (replicate PAGE_SIZE 1), d2)
      \<and> disk_ok d2 \<and> disk_view d2 = disk_view d1" by (rule rd [rule_format]) simp
  ultimately show ?thesis by blast
qed

text \<open>C37: States of the disk manager. On a file without faults, after any sequence of writes, deletions and reads on a new
  manager in which pages it does not map are read only while no deleted slot is free, it holds exactly what
  was written last: every page written and not deleted since with its bytes, each a whole page, and no other. Its slots are
  sound, they lie inside the file, and no two pages share a byte. \<open>lost_slot_aliases_pages\<close> shows what the excluded read does.\<close>

theorem disk_reachable_sound:
  assumes "dm_new (Some f) = Inr d0" and "faults f = []" and "disk_run d0 m d"
  shows "disk_view d = m \<and> (\<forall>b \<in> ran (disk_view d). length b = PAGE_SIZE) \<and> disk_inv d
    \<and> (\<forall>p off. map_of (pages d) p = Some off \<longrightarrow> off + PAGE_SIZE \<le> length (fbytes (db_file d)))
    \<and> (\<forall>p q a b. p \<noteq> q \<longrightarrow> map_of (pages d) p = Some a \<longrightarrow> map_of (pages d) q = Some b \<longrightarrow>
         {a..<a + PAGE_SIZE} \<inter> {b..<b + PAGE_SIZE} = {})"
proof -
  have run: "disk_ok d \<and> disk_view d = m" using disk_run_ok [OF assms(3)] dm_new_ok [OF assms(2)] assms(1) by auto
  then have ok: "disk_ok d" by simp
  have ch: "choose_offset p d = (off, d)" if "map_of (pages d) p = Some off" for p off
    using that by (simp add: choose_offset_def)
  have "{a..<a + PAGE_SIZE} \<inter> {b..<b + PAGE_SIZE} = {}"
    if "p \<noteq> q" "map_of (pages d) p = Some a" "map_of (pages d) q = Some b" for p q a b
    using choose_offset_bounds(2) [OF ok ch [OF that(2)], of q b] that by auto
  moreover have "\<forall>b \<in> ran (disk_view d). length b = PAGE_SIZE" using disk_view_length [OF ok] by (auto simp: ran_def)
  ultimately show ?thesis using run choose_offset_bounds(1) [OF ok ch] unfolding disk_ok_def by blast
qed

theorem disk_reachable_sound_witness:
  "\<exists>d0 d. dm_new (Some \<lparr>fbytes = [], fpos = 0, faults = []\<rparr>) = Inr d0 \<and> disk_run d0 [4 \<mapsto> replicate PAGE_SIZE 2] d
    \<and> disk_view d = [4 \<mapsto> replicate PAGE_SIZE 2] \<and> disk_inv d"
proof -
  have f: "faults \<lparr>fbytes = [], fpos = 0, faults = []\<rparr> = []" by simp
  from dm_new_ok [OF f] obtain d0 where d0: "dm_new (Some \<lparr>fbytes = [], fpos = 0, faults = []\<rparr>) = Inr d0" "disk_ok d0" by blast
  have len: "PAGE_SIZE \<le> length (replicate PAGE_SIZE (1 :: u8))" "PAGE_SIZE \<le> length (replicate PAGE_SIZE (2 :: u8))" by simp_all
  from write_page_ok [OF d0(2) len(1), of 3] obtain d1 where d1: "write_page 3 (replicate PAGE_SIZE 1) d0 = Inr (Inr (), d1)" "disk_ok d1" by blast
  let ?d2 = "snd (dm_delete_page 3 d1)"
  have "disk_ok ?d2" using delete_page_ok [OF d1(2)] by blast
  from write_page_ok [OF this len(2), of 4] obtain d3 where d3: "write_page 4 (replicate PAGE_SIZE 2) ?d2 = Inr (Inr (), d3)" by blast
  have "disk_run d0 (((Map.empty(3 \<mapsto> take PAGE_SIZE (replicate PAGE_SIZE 1)))(3 := None))(4 \<mapsto> take PAGE_SIZE (replicate PAGE_SIZE 2))) d3"
    by (rule disk_write [OF disk_delete [OF disk_write [OF disk_start len(1) d1(1)]] len(2) d3])
  then have run: "disk_run d0 [4 \<mapsto> replicate PAGE_SIZE 2] d3" by simp
  from disk_reachable_sound [OF d0(1) f run] d0(1) run show ?thesis by blast
qed

text \<open>C38: Deleting a page frees its slot: the page is gone, its slot goes to the next new page, the
  file does not grow, and all other pages keep their bytes.\<close>

theorem deleted_slot_reused:
  assumes "disk_ok d" and "map_of (pages d) p = Some off" and "disk_view d q = None" and "length data = PAGE_SIZE"
  shows "\<exists>d2. write_page q data (snd (dm_delete_page p d)) = Inr (Inr (), d2) \<and> map_of (pages d2) q = Some off
    \<and> length (fbytes (db_file d2)) = length (fbytes (db_file d)) \<and> disk_view d2 = ((disk_view d)(p := None))(q \<mapsto> data)"
proof -
  let ?d1 = "snd (dm_delete_page p d)"
  have d1: "disk_ok ?d1" "disk_view ?d1 = (disk_view d)(p := None)" using delete_page_ok [OF assms(1), of p] by auto
  have free: "free_slots ?d1 = free_slots d @ [off]" "map_of (pages ?d1) q = None" "db_file ?d1 = db_file d"
    using assms(2,3) by (auto simp: dm_delete_page_def disk_view_def)
  then have ch: "choose_offset q ?d1 = (off, ?d1\<lparr>free_slots := free_slots d\<rparr>)" by (simp add: choose_offset_def)
  have "no_faults (?d1\<lparr>free_slots := free_slots d\<rparr>)" using d1(1) by (simp add: disk_ok_def no_faults_def)
  from write_page_effect [OF ch this choose_offset_bounds(1) [OF d1(1) ch], of data] assms(4) obtain d2 where
    w: "write_page q data ?d1 = Inr (Inr (), d2)" and m: "map_of (pages d2) q = Some off"
    and l: "length (fbytes (db_file d2)) = length (fbytes (db_file d))"
    using choose_offset_bounds(1) [OF d1(1) ch] free(3) by auto
  from write_page_ok [OF d1(1), of data q] assms(4) w have "disk_view d2 = (disk_view ?d1)(q \<mapsto> data)" by auto
  with w m l d1(2) show ?thesis by auto
qed

theorem deleted_slot_reused_witness:
  "\<exists>d2. write_page 9 (replicate PAGE_SIZE 1) (snd (dm_delete_page 3 (disk_of [(3, 0), (4, PAGE_SIZE)] []))) = Inr (Inr (), d2)
    \<and> map_of (pages d2) 9 = Some 0"
proof -
  have "disk_ok (disk_of [(3, 0), (4, PAGE_SIZE)] [])"
    by (rule disk_of_ok) (auto simp: DB_IO_SIZE_def lessThan_Suc numeral_2_eq_2)
  from deleted_slot_reused [OF this, of 3 0 9 "replicate PAGE_SIZE 1"] show ?thesis
    by (auto simp: disk_view_def)
qed

text \<open>C39: Overwriting a mapped page, whatever the system calls do (fail at once, or after part of the
  bytes are on disk), changes no other page and moves no page.\<close>

theorem faulty_overwrite_local:
  assumes inv: "disk_inv d" and p: "map_of (pages d) p = Some off" and run: "write_page p data d = Inr (r, d')"
    and q: "q \<noteq> p"
  shows "disk_view d' q = disk_view d q \<and> map_of (pages d') = map_of (pages d) \<and> disk_inv d'"
proof -
  have ch: "choose_offset p d = (off, d)" using p by (simp add: choose_offset_def)
  obtain i where i: "off = i * PAGE_SIZE" "i < page_capacity d" using disk_inv_offset [OF inv p] .
  have len: "length (fbytes (db_file d)) = (page_capacity d + 1) * PAGE_SIZE" using inv by (simp add: disk_inv_def)
  have bound: "off + PAGE_SIZE \<le> length (fbytes (db_file d))" unfolding len using i by (simp add: slot_multiple)
  have upd: "AList.update p off (pages d) = pages d" using p by (rule update_same)
  have ex: "\<exists>bs. length bs \<le> PAGE_SIZE \<and> put off x xs = put off bs xs" if "length x \<le> PAGE_SIZE" for x xs :: "u8 list"
    using that by blast
  have ex0: "\<exists>bs. length bs \<le> PAGE_SIZE \<and> xs = put off bs xs" for xs :: "u8 list"
    by (rule exI [of _ "[]"]) (simp add: put_def)
  have "\<exists>bs. length bs \<le> PAGE_SIZE \<and> pages d' = pages d \<and> free_slots d' = free_slots d
      \<and> page_capacity d' = page_capacity d \<and> fbytes (db_file d') = put off bs (fbytes (db_file d))"
    using run bound
    by (auto simp: write_page_def ch sys_defs seq_Inr_iff slice_def file_write_at_inside upd length_get min_le_iff_disj
        split: list.splits option.splits if_splits prod.splits intro!: ex ex0)
  then obtain bs where pg: "pages d' = pages d" "free_slots d' = free_slots d" "page_capacity d' = page_capacity d"
    and fb: "fbytes (db_file d') = put off bs (fbytes (db_file d))" and bs: "length bs \<le> PAGE_SIZE" by blast
  have "get b PAGE_SIZE (put off bs (fbytes (db_file d))) = get b PAGE_SIZE (fbytes (db_file d))"
    if "map_of (pages d) q = Some b" for b
  proof -
    have "b + PAGE_SIZE \<le> off \<or> off + PAGE_SIZE \<le> b"
    proof -
      have "b \<noteq> off" using disk_inv_offsets_distinct [OF inv that, of p] p q by blast
      with i(1) slots_disjoint show ?thesis using disk_inv_offset [OF inv that] by metis
    qed
    then show ?thesis using bound bs by (intro get_put_other) auto
  qed
  then have "disk_view d' q = disk_view d q"
    by (auto simp: disk_view_def pg fb split: option.splits intro!: map_option_cong)
  moreover have "disk_inv d'" using inv bound bs by (simp add: disk_inv_def slots_def pg fb)
  ultimately show ?thesis by (simp add: pg)
qed

theorem faulty_overwrite_local_witness:
  "\<exists>d'. write_page 3 (replicate PAGE_SIZE 1)
      ((disk_of [(3, 0), (4, PAGE_SIZE)] [])\<lparr>db_file := \<lparr>fbytes = replicate (DB_IO_SIZE * PAGE_SIZE + PAGE_SIZE) 0,
         fpos = 0, faults = [None, Some (OtherIo, 5)]\<rparr>\<rparr>) = Inr (Inl OtherIo, d')
    \<and> disk_view d' 4 = Some (replicate PAGE_SIZE 0)"
proof -
  let ?d = "(disk_of [(3, 0), (4, PAGE_SIZE)] [])\<lparr>db_file := \<lparr>fbytes = replicate (DB_IO_SIZE * PAGE_SIZE + PAGE_SIZE) 0,
         fpos = 0, faults = [None, Some (OtherIo, 5)]\<rparr>\<rparr>"
  have "disk_ok (disk_of [(3, 0), (4, PAGE_SIZE)] [])"
    by (rule disk_of_ok) (auto simp: DB_IO_SIZE_def lessThan_Suc numeral_2_eq_2)
  then have inv: "disk_inv ?d" by (simp add: disk_ok_def disk_inv_def slots_def disk_of_def)
  obtain d' where w: "write_page 3 (replicate PAGE_SIZE 1) ?d = Inr (Inl OtherIo, d')"
    by (simp add: write_page_def choose_offset_def sys_defs slice_def)
  have "map_of (pages ?d) 3 = Some 0" by simp
  from faulty_overwrite_local [OF inv this w, of 4] have "disk_view d' 4 = disk_view ?d 4" by simp
  also have "min PAGE_SIZE (DB_IO_SIZE * PAGE_SIZE) = PAGE_SIZE" by (simp add: DB_IO_SIZE_def)
  then have "disk_view ?d 4 = Some (replicate PAGE_SIZE 0)" by (simp add: disk_view_def get_def min.commute)
  finally have "disk_view d' 4 = Some (replicate PAGE_SIZE 0)" .
  with w show ?thesis by (intro exI conjI)
qed

text \<open>C40: A read of a page the disk manager does not know takes the last free slot and loses it. If
  that was the only one, the page written next is placed on a slot another page already uses, and
  reading that other page gives the new bytes.\<close>

theorem lost_slot_aliases_pages:
  assumes "disk_ok d" and "free_slots d = [off]" and "off \<noteq> length (pages d) * PAGE_SIZE"
    and "disk_view d u = None" and "disk_view d r = None" and "length data = PAGE_SIZE"
  shows "\<exists>x d1 d2 q. read_page u (replicate PAGE_SIZE 0) d = Inr (Inr x, d1) \<and> write_page r data d1 = Inr (Inr (), d2)
    \<and> q \<noteq> r \<and> disk_view d q \<noteq> None \<and> disk_view d2 q = Some data \<and> \<not> disk_inv d1"
proof -
  have len: "PAGE_SIZE \<le> length (replicate PAGE_SIZE (0 :: u8))" "PAGE_SIZE \<le> length data" using assms(6) by simp_all
  from lost_slot_alias [OF assms(1-5) len] obtain x d1 d2 q where
    w: "read_page u (replicate PAGE_SIZE 0) d = Inr (Inr x, d1)" "write_page r data d1 = Inr (Inr (), d2)"
    "q \<noteq> r" "disk_view d q \<noteq> None" "disk_view d2 q = Some (take PAGE_SIZE data)" .
  have "\<not> disk_inv d1"
  proof
    assume "disk_inv d1"
    have "choose_offset u d = (off, d\<lparr>free_slots := []\<rparr>)"
      using assms(2,4) by (simp add: choose_offset_def disk_view_def)
    with read_page_effect [OF this _ choose_offset_bounds(1) [OF assms(1) this] len(1)] assms(1) w(1)
    have d1: "pages d1 = pages d" "free_slots d1 = []" by (auto simp: disk_ok_def no_faults_def)
    have "set (map snd (pages d) @ [off]) = (\<lambda>i. i * PAGE_SIZE) ` {..<Suc (length (pages d))}" "distinct (map snd (pages d) @ [off])"
      using assms(1,2) by (simp_all add: disk_ok_def disk_inv_def slots_def)
    moreover have "set (map snd (pages d)) = (\<lambda>i. i * PAGE_SIZE) ` {..<length (pages d)}"
      using \<open>disk_inv d1\<close> d1 by (simp add: disk_inv_def slots_def)
    ultimately show False using assms(3) by (auto simp: lessThan_Suc)
  qed
  with w assms(6) show ?thesis by auto
qed

theorem lost_slot_aliases_pages_witness:
  "\<exists>x d1 d2 q. read_page 8 (replicate PAGE_SIZE 0) (disk_of [(4, PAGE_SIZE)] [0]) = Inr (Inr x, d1)
    \<and> write_page 9 (replicate PAGE_SIZE 1) d1 = Inr (Inr (), d2) \<and> q \<noteq> 9 \<and> disk_view d2 q = Some (replicate PAGE_SIZE 1)"
proof -
  have "disk_ok (disk_of [(4, PAGE_SIZE)] [0])"
    by (rule disk_of_ok) (auto simp: DB_IO_SIZE_def lessThan_Suc numeral_2_eq_2)
  from lost_slot_aliases_pages [OF this, of 0 8 9 "replicate PAGE_SIZE 1"] show ?thesis
    by (simp add: disk_view_def [of "disk_of [(4, PAGE_SIZE)] [0]"]) blast
qed

end
