(* ===== verification/DiskScheduler.thy ===== *)
theory DiskScheduler
  imports DiskManager "HOL-Library.Sublist"
begin

text \<open>
  \<open>disk_scheduler.rs\<close>: a queue of disk requests served by one worker thread, which answers each
  request on the channel the request carries. The two threads are modelled by the events that move
  the shared state: a client submits or receives, the worker takes the head of the queue. The worker
  has stopped once it took the \<open>None\<close> that \<open>drop\<close> sends, and has panicked when a call into the disk
  manager panicked; in both cases its end of the request channel is gone.
\<close>

datatype disk_request_type = ReqRead | ReqWrite | ReqDelete

record disk_request =
  req_type :: disk_request_type
  promise :: nat
  req_data :: "u8 list"
  req_page_id :: page_id

datatype worker_state = Running | Stopped | Panicked

type_synonym reply = "nat \<times> u8 list option"

record disk_scheduler =
  request_queue :: "disk_request option list"
  disk_mgr :: disk_manager
  worker :: worker_state
  sent :: "reply list"
  next_channel :: nat

definition scheduler_new :: "disk_manager \<Rightarrow> disk_scheduler" where
  "scheduler_new d = \<lparr>request_queue = [], disk_mgr = d, worker = Running, sent = [], next_channel = 0\<rparr>"

text \<open>The body of the worker's loop for one request: the call and the answer it sends.\<close>

definition handle_request :: "disk_request \<Rightarrow> disk_manager \<Rightarrow> (u8 list option \<times> disk_manager) res" where
  "handle_request r d = (case req_type r of
       ReqRead \<Rightarrow>
         seq (read_page (req_page_id r) (req_data r) d) (\<lambda>(res, d').
           Inr (case res of Inr data \<Rightarrow> Some data | Inl _ \<Rightarrow> None, d'))
     | ReqWrite \<Rightarrow>
         seq (write_page (req_page_id r) (req_data r) d) (\<lambda>(res, d').
           Inr (case res of Inr _ \<Rightarrow> Some (req_data r) | Inl _ \<Rightarrow> None, d'))
     | ReqDelete \<Rightarrow>
         (case dm_delete_page (req_page_id r) d of
            (Inr _, d') \<Rightarrow> Inr (Some (req_data r), d')
          | (Inl _, d') \<Rightarrow> Inr (None, d')))"

text \<open>One turn of \<open>while let Ok(Some(request)) = request_rx.recv()\<close> on a queue that is not empty.\<close>

definition worker_step :: "disk_scheduler \<Rightarrow> disk_scheduler" where
  "worker_step s = (case request_queue s of
       [] \<Rightarrow> s
     | None # q \<Rightarrow> s\<lparr>request_queue := [], worker := Stopped\<rparr>
     | Some r # q \<Rightarrow>
         (case handle_request r (disk_mgr s) of
            Inl _ \<Rightarrow> s\<lparr>request_queue := [], worker := Panicked\<rparr>
          | Inr (answer, d') \<Rightarrow>
              s\<lparr>request_queue := q, disk_mgr := d', sent := sent s @ [(promise r, answer)]\<rparr>))"

text \<open>The worker on its own until it blocks in \<open>recv\<close>, stops or panics.\<close>

function worker_loop :: "disk_scheduler \<Rightarrow> disk_scheduler" where
  "worker_loop s =
     (if worker s = Running \<and> request_queue s \<noteq> [] then worker_loop (worker_step s) else s)"
  by pat_completeness auto
termination
  by (relation "measure (\<lambda>s. length (request_queue s))")
    (auto simp: worker_step_def split: list.splits option.splits sum.splits)

declare worker_loop.simps [simp del]

definition schedule :: "disk_request \<Rightarrow> disk_scheduler \<Rightarrow> disk_scheduler res" where
  "schedule r s =
     (if worker s = Running then Inr (s\<lparr>request_queue := request_queue s @ [Some r]\<rparr>)
      else Inl UnwrapNone)"

text \<open>\<open>rx.recv().unwrap()\<close> on a channel: the first message sent on it.\<close>

fun take_message :: "nat \<Rightarrow> reply list \<Rightarrow> (u8 list option \<times> reply list) option" where
  "take_message c [] = None"
| "take_message c (m # ms) =
     (if fst m = c then Some (snd m, ms)
      else map_option (\<lambda>(x, ms'). (x, m # ms')) (take_message c ms))"

definition receive :: "nat \<Rightarrow> disk_scheduler \<Rightarrow> (u8 list option \<times> disk_scheduler) res" where
  "receive c s = (case take_message c (sent s) of
       Some (x, ms) \<Rightarrow> Inr (x, s\<lparr>sent := ms\<rparr>)
     | None \<Rightarrow> if worker s = Running then Inl WouldBlock else Inl ChannelClosed)"

text \<open>\<open>Drop\<close>: send \<open>None\<close> (ignoring the outcome) and join the worker.\<close>

definition send_stop :: "disk_scheduler \<Rightarrow> disk_scheduler" where
  "send_stop s = (if worker s = Running then s\<lparr>request_queue := request_queue s @ [None]\<rparr> else s)"

definition scheduler_drop :: "disk_scheduler \<Rightarrow> disk_scheduler" where
  "scheduler_drop s = worker_loop (send_stop s)"

text \<open>What every synchronous caller does: a fresh channel, \<open>schedule\<close>, then \<open>rx.recv().unwrap()\<close>
  while the worker runs.\<close>

definition disk_io :: "disk_request_type \<Rightarrow> page_id \<Rightarrow> u8 list \<Rightarrow> disk_scheduler
    \<Rightarrow> (u8 list option \<times> disk_scheduler) res" where
  "disk_io ty p bs s =
     (let c = next_channel s;
          r = \<lparr>req_type = ty, promise = c, req_data = bs, req_page_id = p\<rparr>
      in seq (schedule r (s\<lparr>next_channel := c + 1\<rparr>)) (\<lambda>s'. receive c (worker_loop s')))"

section \<open>Events and runs of the two threads\<close>

datatype sched_event = Submit disk_request | Work | Recv nat "u8 list option" | SendStop

inductive sched_step :: "disk_scheduler \<Rightarrow> sched_event \<Rightarrow> disk_scheduler \<Rightarrow> bool" where
  submit: "schedule r s = Inr s' \<Longrightarrow> sched_step s (Submit r) s'"
| work: "worker s = Running \<Longrightarrow> request_queue s \<noteq> [] \<Longrightarrow> sched_step s Work (worker_step s)"
| recv: "receive c s = Inr (x, s') \<Longrightarrow> sched_step s (Recv c x) s'"
| stop: "sched_step s SendStop (send_stop s)"

inductive sched_run :: "disk_scheduler \<Rightarrow> sched_event list \<Rightarrow> disk_scheduler \<Rightarrow> bool" where
  run_nil: "sched_run s [] s"
| run_snoc: "sched_run s es s' \<Longrightarrow> sched_step s' e s'' \<Longrightarrow> sched_run s (es @ [e]) s''"

inductive_cases submitE: "sched_step s (Submit r) s'"
inductive_cases workE: "sched_step s Work s'"
inductive_cases recvE: "sched_step s (Recv c x) s'"
inductive_cases stopE: "sched_step s SendStop s'"

code_pred sched_step .

fun submitted :: "sched_event list \<Rightarrow> disk_request list" where
  "submitted [] = []"
| "submitted (Submit r # es) = r # submitted es"
| "submitted (_ # es) = submitted es"

fun received :: "nat \<Rightarrow> sched_event list \<Rightarrow> u8 list option list" where
  "received c [] = []"
| "received c (Recv c' x # es) = (if c' = c then x # received c es else received c es)"
| "received c (_ # es) = received c es"

definition worked :: "sched_event list \<Rightarrow> nat" where
  "worked es = length (filter (\<lambda>e. e = Work) es)"

definition on_channel :: "nat \<Rightarrow> reply list \<Rightarrow> u8 list option list" where
  "on_channel c ms = map snd (filter (\<lambda>m. fst m = c) ms)"

text \<open>The sequential reading of a list of requests: one after the other, answers in order.\<close>

fun serve_all :: "disk_request list \<Rightarrow> disk_manager \<Rightarrow> (reply list \<times> disk_manager) res" where
  "serve_all [] d = Inr ([], d)"
| "serve_all (r # rs) d =
     seq (handle_request r d) (\<lambda>(answer, d').
       seq (serve_all rs d') (\<lambda>(out, d''). Inr ((promise r, answer) # out, d'')))"

lemma submitted_append [simp]: "submitted (es @ es') = submitted es @ submitted es'"
  by (induction es rule: submitted.induct) auto

lemma received_append [simp]: "received c (es @ es') = received c es @ received c es'"
  by (induction c es rule: received.induct) auto

lemma worked_append [simp]: "worked (es @ es') = worked es + worked es'"
  by (simp add: worked_def)

lemma on_channel_append [simp]: "on_channel c (ms @ ms') = on_channel c ms @ on_channel c ms'"
  by (simp add: on_channel_def)

lemma serve_all_snoc:
  "serve_all (rs @ [r]) d =
     seq (serve_all rs d) (\<lambda>(out, d'). seq (handle_request r d') (\<lambda>(x, d''). Inr (out @ [(promise r, x)], d'')))"
proof (induction rs arbitrary: d)
  case Nil
  show ?case by (cases "handle_request r d") auto
next
  case (Cons a rs)
  show ?case
  proof (cases "handle_request a d")
    case (Inr xd)
    then obtain x d1 where x: "handle_request a d = Inr (x, d1)" by (cases xd) simp
    show ?thesis
    proof (cases "serve_all rs d1")
      case (Inr od)
      then obtain out d2 where "serve_all rs d1 = Inr (out, d2)" by (cases od) simp
      with x Cons.IH [of d1] show ?thesis by (cases "handle_request r d2") auto
    qed (simp add: x Cons.IH)
  qed simp
qed

lemma take_message_Some:
  "take_message c ms = Some (x, ms') \<Longrightarrow>
     on_channel c ms = x # on_channel c ms' \<and> (\<forall>c'. c' \<noteq> c \<longrightarrow> on_channel c' ms = on_channel c' ms')"
  by (induction c ms arbitrary: x ms' rule: take_message.induct)
    (auto simp: on_channel_def split: if_splits)

definition sched_idle :: "disk_scheduler \<Rightarrow> bool" where
  "sched_idle s \<longleftrightarrow> worker s = Running \<and> request_queue s = [] \<and> sent s = []"

text \<open>Where the run stands: the worker has served the first \<open>worked es\<close> requests, one after the
  other, and every channel has got the answers to its own requests, in order.\<close>

definition sched_at :: "disk_manager \<Rightarrow> sched_event list \<Rightarrow> disk_scheduler \<Rightarrow> bool" where
  "sched_at d0 es s \<longleftrightarrow> worked es \<le> length (submitted es)
     \<and> request_queue s = map Some (drop (worked es) (submitted es))
     \<and> (\<exists>out. serve_all (take (worked es) (submitted es)) d0 = Inr (out, disk_mgr s)
          \<and> (\<forall>c. received c es @ on_channel c (sent s) = on_channel c out))"

lemma worker_step_not_running:
  "sched_step s e s' \<Longrightarrow> worker s \<noteq> Running \<Longrightarrow> worker s' \<noteq> Running"
  by (erule sched_step.cases)
    (auto simp: schedule_def receive_def send_stop_def split: if_splits option.splits)

lemma sched_at_step:
  assumes "sched_at d0 es s" and "sched_step s e s'" and "e \<noteq> SendStop" and "worker s' = Running"
  shows "sched_at d0 (es @ [e]) s'"
  using assms(2)
proof cases
  case (submit r)
  then have "s' = s\<lparr>request_queue := request_queue s @ [Some r]\<rparr>"
    by (auto simp: schedule_def split: if_splits)
  with assms(1) submit(1) show ?thesis
    by (simp add: sched_at_def worked_def)
next
  case work
  let ?k = "worked es" and ?rs = "submitted es"
  from work assms(1) have k: "?k < length ?rs" by (auto simp: sched_at_def)
  then have q: "request_queue s = Some (?rs ! ?k) # map Some (drop (Suc ?k) ?rs)"
    using assms(1) by (simp add: sched_at_def Cons_nth_drop_Suc [symmetric])
  then obtain x d' where h: "handle_request (?rs ! ?k) (disk_mgr s) = Inr (x, d')"
    using work assms(4) by (auto simp: worker_step_def split: sum.splits)
  with work q have s': "s' = s\<lparr>request_queue := map Some (drop (Suc ?k) ?rs), disk_mgr := d',
      sent := sent s @ [(promise (?rs ! ?k), x)]\<rparr>"
    by (simp add: worker_step_def)
  from assms(1) obtain out where out: "serve_all (take ?k ?rs) d0 = Inr (out, disk_mgr s)"
    "\<forall>c. received c es @ on_channel c (sent s) = on_channel c out"
    by (auto simp: sched_at_def)
  have "serve_all (take (Suc ?k) ?rs) d0 = Inr (out @ [(promise (?rs ! ?k), x)], d')"
    using out(1) h k by (simp add: take_Suc_conv_app_nth serve_all_snoc)
  moreover have "received c es @ on_channel c (sent s') = on_channel c (out @ [(promise (?rs ! ?k), x)])" for c
    using out(2) by (simp add: s' flip: append_assoc)
  ultimately show ?thesis
    using k s' work(1) by (auto simp: sched_at_def worked_def)
next
  case (recv c x)
  then obtain ms where ms: "take_message c (sent s) = Some (x, ms)" "s' = s\<lparr>sent := ms\<rparr>"
    by (auto simp: receive_def split: option.splits if_splits)
  have "received c' (es @ [e]) @ on_channel c' (sent s') = received c' es @ on_channel c' (sent s)" for c'
    using take_message_Some [OF ms(1)] ms(2) recv(1) by (cases "c' = c") auto
  with assms(1) recv(1) ms(2) show ?thesis
    by (simp add: sched_at_def worked_def)
next
  case stop
  with assms(3) show ?thesis by simp
qed

lemma sched_run_at:
  assumes "sched_run s0 es s" and "sched_idle s0" and "SendStop \<notin> set es" and "worker s = Running"
  shows "sched_at (disk_mgr s0) es s"
  using assms
proof (induction rule: sched_run.induct)
  case (run_nil s)
  then show ?case by (auto simp: sched_at_def sched_idle_def worked_def on_channel_def)
next
  case (run_snoc s es s' e s'')
  then have "worker s' = Running" using worker_step_not_running by blast
  with run_snoc show ?case by (auto intro: sched_at_step)
qed

section \<open>The worker on its own\<close>

lemma worker_loop_serves:
  assumes "serve_all rs (disk_mgr s) = Inr (out, d')" and "worker s = Running"
    and "request_queue s = map Some rs @ q"
  shows "worker_loop s = worker_loop (s\<lparr>request_queue := q, disk_mgr := d', sent := sent s @ out\<rparr>)"
  using assms
proof (induction rs arbitrary: s out)
  case Nil
  then have "s\<lparr>request_queue := q, disk_mgr := d', sent := sent s @ out\<rparr> = s" by (cases s) simp
  then show ?case by simp
next
  case (Cons r rs)
  from Cons.prems(1) obtain x d1 out' where
    h: "handle_request r (disk_mgr s) = Inr (x, d1)" and
    rest: "serve_all rs d1 = Inr (out', d')" and out: "out = (promise r, x) # out'"
    by (auto simp: monad_simps)
  let ?s1 = "s\<lparr>request_queue := map Some rs @ q, disk_mgr := d1, sent := sent s @ [(promise r, x)]\<rparr>"
  have "worker_loop s = worker_loop (worker_step s)"
    using Cons.prems by (subst worker_loop.simps) simp
  also have "worker_step s = ?s1" using Cons.prems(3) h by (simp add: worker_step_def)
  also have "worker_loop ?s1 = worker_loop (s\<lparr>request_queue := q, disk_mgr := d', sent := sent s @ out\<rparr>)"
    using Cons.IH [of ?s1 out'] rest Cons.prems(2) out by simp
  finally show ?case .
qed

lemma worker_loop_idle: "request_queue s = [] \<Longrightarrow> worker_loop s = s"
  by (subst worker_loop.simps) simp

lemma scheduler_drop_serves:
  assumes "worker s = Running" and "request_queue s = map Some rs"
    and "serve_all rs (disk_mgr s) = Inr (out, d')"
  shows "worker (scheduler_drop s) = Stopped \<and> disk_mgr (scheduler_drop s) = d'
    \<and> sent (scheduler_drop s) = sent s @ out"
proof -
  let ?s1 = "(send_stop s)\<lparr>request_queue := [None], disk_mgr := d', sent := sent s @ out\<rparr>"
  have "scheduler_drop s = worker_loop ?s1"
    unfolding scheduler_drop_def
    using worker_loop_serves [of rs "send_stop s" out d' "[None]"] assms by (simp add: send_stop_def)
  also have "\<dots> = worker_loop (worker_step ?s1)"
    using assms(1) by (subst worker_loop.simps) (simp add: send_stop_def)
  also have "\<dots> = worker_step ?s1" by (rule worker_loop_idle) (simp add: worker_step_def)
  finally show ?thesis by (simp add: worker_step_def)
qed

section \<open>The synchronous round trip\<close>

lemma disk_io_idle:
  assumes "sched_idle s"
  shows "disk_io ty p bs s =
    (case handle_request \<lparr>req_type = ty, promise = next_channel s, req_data = bs, req_page_id = p\<rparr> (disk_mgr s) of
       Inl e \<Rightarrow> Inl ChannelClosed
     | Inr (x, d') \<Rightarrow> Inr (x, s\<lparr>disk_mgr := d', next_channel := next_channel s + 1\<rparr>))"
proof -
  let ?r = "\<lparr>req_type = ty, promise = next_channel s, req_data = bs, req_page_id = p\<rparr>"
  let ?s1 = "s\<lparr>next_channel := next_channel s + 1, request_queue := [Some ?r]\<rparr>"
  have sch: "schedule ?r (s\<lparr>next_channel := next_channel s + 1\<rparr>) = Inr ?s1"
    using assms by (simp add: schedule_def sched_idle_def)
  have loop: "worker_loop ?s1 = worker_step ?s1"
    using assms by (subst worker_loop.simps, subst worker_loop_idle)
      (auto simp: sched_idle_def worker_step_def split: sum.splits)
  have "disk_io ty p bs s = receive (next_channel s) (worker_step ?s1)"
    unfolding disk_io_def Let_def sch seq.simps loop ..
  then show ?thesis
    using assms by (auto simp: worker_step_def receive_def sched_idle_def split: sum.splits)
qed

definition sched_view :: "disk_scheduler \<Rightarrow> page_view" where
  "sched_view s = disk_view (disk_mgr s)"

definition sched_ok :: "disk_scheduler \<Rightarrow> bool" where
  "sched_ok s \<longleftrightarrow> sched_idle s \<and> disk_ok (disk_mgr s)"

lemma sched_new_ok: "disk_ok d \<Longrightarrow> sched_ok (scheduler_new d) \<and> sched_view (scheduler_new d) = disk_view d"
  by (simp add: sched_ok_def sched_idle_def scheduler_new_def sched_view_def)

lemma sched_read_ok:
  assumes "sched_ok s" and "sched_view s p = Some b"
  shows "\<exists>s'. disk_io ReqRead p (replicate PAGE_SIZE 0) s = Inr (Some b, s') \<and> sched_ok s' \<and> sched_view s' = sched_view s"
  using assms read_page_ok [of "disk_mgr s" p b "replicate PAGE_SIZE 0"] disk_view_length [of "disk_mgr s" p b]
  by (auto simp: sched_ok_def sched_view_def disk_io_idle handle_request_def put_whole sched_idle_def)

lemma sched_write_ok:
  assumes "sched_ok s" and "length b = PAGE_SIZE"
  shows "\<exists>s'. disk_io ReqWrite p b s = Inr (Some b, s') \<and> sched_ok s' \<and> sched_view s' = (sched_view s)(p \<mapsto> b)"
  using assms write_page_ok [of "disk_mgr s" b p]
  by (auto simp: sched_ok_def sched_view_def disk_io_idle handle_request_def sched_idle_def)

lemma sched_delete_ok:
  assumes "sched_ok s"
  shows "\<exists>s'. disk_io ReqDelete p b s = Inr (Some b, s') \<and> sched_ok s' \<and> sched_view s' = (sched_view s)(p := None)"
  using assms delete_page_ok [of "disk_mgr s" p]
  by (auto simp: sched_ok_def sched_view_def disk_io_idle handle_request_def sched_idle_def dm_delete_page_def
      split: option.splits)

text \<open>The scheduler as the device the buffer pool talks to.\<close>

definition sched_load :: "page_id \<Rightarrow> disk_scheduler \<Rightarrow> (u8 list \<times> disk_scheduler) res" where
  "sched_load p s = seq (disk_io ReqRead p (replicate PAGE_SIZE 0) s) (\<lambda>(x, s'). seq (unwrap x) (\<lambda>b. Inr (b, s')))"

definition sched_store :: "page_id \<Rightarrow> u8 list \<Rightarrow> disk_scheduler \<Rightarrow> disk_scheduler res" where
  "sched_store p b s = seq (disk_io ReqWrite p b s) (\<lambda>(_, s'). Inr s')"

lemma sched_load_ok:
  assumes "sched_ok s" and "sched_view s p = Some b"
  shows "\<exists>s'. sched_load p s = Inr (b, s') \<and> sched_ok s' \<and> sched_view s' = sched_view s"
  using sched_read_ok [OF assms] by (auto simp: sched_load_def)

lemma sched_store_ok:
  assumes "sched_ok s" and "length b = PAGE_SIZE"
  shows "\<exists>s'. sched_store p b s = Inr s' \<and> sched_ok s' \<and> sched_view s' = (sched_view s)(p \<mapsto> b)"
  using sched_write_ok [OF assms, of p] by (auto simp: sched_store_def)

interpretation sched: page_device_total sched_ok sched_view sched_load sched_store
proof unfold_locales
  fix s p b x s'
  assume "sched_ok s" "sched_view s p = Some b" "sched_load p s = Inr (x, s')"
  with sched_load_ok [of s p b] show "x = b \<and> sched_ok s' \<and> sched_view s' = sched_view s" by auto
next
  fix s p b s'
  assume "sched_ok s" "length b = PAGE_SIZE" "sched_store p b s = Inr s'"
  with sched_store_ok [of s b p] show "sched_ok s' \<and> sched_view s' = (sched_view s)(p \<mapsto> b)" by auto
next
  fix s p
  assume "sched_ok s" "p \<in> dom (sched_view s)"
  then show "\<exists>x s'. sched_load p s = Inr (x, s')" using sched_load_ok by blast
next
  fix s p and b :: "u8 list"
  assume "sched_ok s" "length b = PAGE_SIZE"
  then show "\<exists>s'. sched_store p b s = Inr s'" using sched_store_ok by blast
qed

section \<open>Properties\<close>

text \<open>C11: The scheduler is linearizable and answers are never mixed up. However the submissions,
  the worker's turns and the receptions of any number of clients interleave, the disk is in the state
  that serving the first requests one after the other, in the order of submission, gives; what a
  client has received on its channel is the beginning of the answers to the requests that carry this
  channel, in order; and the requests not served yet are exactly those still in the queue.\<close>

theorem scheduler_linearizable:
  assumes "sched_run s0 es s" and "sched_idle s0" and "SendStop \<notin> set es" and "worker s = Running"
  shows "\<exists>k out. k \<le> length (submitted es) \<and> serve_all (take k (submitted es)) (disk_mgr s0) = Inr (out, disk_mgr s)
    \<and> request_queue s = map Some (drop k (submitted es)) \<and> (\<forall>c. prefix (received c es) (on_channel c out))"
proof -
  from sched_run_at [OF assms] have at: "sched_at (disk_mgr s0) es s" .
  then obtain out where "serve_all (take (worked es) (submitted es)) (disk_mgr s0) = Inr (out, disk_mgr s)"
    and "\<forall>c. received c es @ on_channel c (sent s) = on_channel c out" by (auto simp: sched_at_def)
  moreover from this(2) have "\<forall>c. prefix (received c es) (on_channel c out)" by (metis prefixI)
  ultimately show ?thesis using at unfolding sched_at_def by blast
qed

definition sample_request :: "disk_request_type \<Rightarrow> nat \<Rightarrow> disk_request" where
  "sample_request ty c = \<lparr>req_type = ty, promise = c, req_data = replicate PAGE_SIZE 0, req_page_id = 5\<rparr>"

theorem scheduler_linearizable_witness:
  "\<exists>s k out. sched_run (scheduler_new (disk_of [] [])) [Submit (sample_request ReqDelete 0), Submit (sample_request ReqDelete 1), Work] s
    \<and> serve_all (take k [sample_request ReqDelete 0, sample_request ReqDelete 1]) (disk_of [] []) = Inr (out, disk_mgr s)
    \<and> request_queue s = map Some (drop k [sample_request ReqDelete 0, sample_request ReqDelete 1])"
proof -
  let ?s0 = "scheduler_new (disk_of [] [])" and ?a = "sample_request ReqDelete 0" and ?b = "sample_request ReqDelete 1"
  let ?s1 = "?s0\<lparr>request_queue := [Some ?a]\<rparr>" and ?s2 = "?s0\<lparr>request_queue := [Some ?a, Some ?b]\<rparr>"
  have "sched_run ?s0 ([] @ [Submit ?a]) ?s1"
    by (rule run_snoc [OF run_nil submit]) (simp add: schedule_def scheduler_new_def)
  moreover have "sched_step ?s1 (Submit ?b) ?s2"
    by (rule submit) (simp add: schedule_def scheduler_new_def)
  ultimately have "sched_run ?s0 (([] @ [Submit ?a]) @ [Submit ?b]) ?s2" by (rule run_snoc)
  moreover have "sched_step ?s2 Work (worker_step ?s2)" by (rule work) (simp_all add: scheduler_new_def)
  ultimately have run: "sched_run ?s0 [Submit ?a, Submit ?b, Work] (worker_step ?s2)" using run_snoc by fastforce
  have "worker (worker_step ?s2) = Running"
    by (simp add: worker_step_def scheduler_new_def handle_request_def sample_request_def dm_delete_page_def)
  from scheduler_linearizable [OF run _ _ this] show ?thesis
    using run by (auto simp: scheduler_new_def sched_idle_def)
qed

fun schedule_all :: "disk_request list \<Rightarrow> disk_scheduler \<Rightarrow> disk_scheduler res" where
  "schedule_all [] s = Inr s"
| "schedule_all (r # rs) s = seq (schedule r s) (schedule_all rs)"

lemma schedule_all_running:
  "worker s = Running \<Longrightarrow> schedule_all rs s = Inr (s\<lparr>request_queue := request_queue s @ map Some rs\<rparr>)"
  by (induction rs arbitrary: s) (simp_all add: schedule_def)

text \<open>C34: Dropping the scheduler loses no request: everything queued before the drop is served, in
  order, before the worker ends; afterwards the queue takes no more requests and the callers that
  wait on a channel nobody answers get an error instead of blocking.\<close>

theorem drop_serves_queue:
  assumes "sched_idle s" and "serve_all rs (disk_mgr s) = Inr (out, d')" and "schedule_all rs s = Inr s1"
  shows "disk_mgr (scheduler_drop s1) = d' \<and> sent (scheduler_drop s1) = out \<and> worker (scheduler_drop s1) = Stopped
    \<and> schedule r (scheduler_drop s1) = Inl UnwrapNone
    \<and> (on_channel c out = [] \<longrightarrow> receive c (scheduler_drop s1) = Inl ChannelClosed)"
proof -
  have s1: "s1 = s\<lparr>request_queue := map Some rs\<rparr>"
    using assms(1,3) by (simp add: schedule_all_running sched_idle_def)
  have "worker (scheduler_drop s1) = Stopped \<and> disk_mgr (scheduler_drop s1) = d' \<and> sent (scheduler_drop s1) = out"
    using scheduler_drop_serves [of s1 rs out d'] assms(1,2) by (simp add: s1 sched_idle_def)
  moreover have "take_message c out = None" if "on_channel c out = []"
    using that take_message_Some [of c out] by (cases "take_message c out") auto
  ultimately show ?thesis by (simp add: schedule_def receive_def)
qed

theorem drop_serves_queue_witness:
  "\<exists>s1. schedule_all [sample_request ReqDelete 0] (scheduler_new (disk_of [] [])) = Inr s1
    \<and> worker (scheduler_drop s1) = Stopped \<and> sent (scheduler_drop s1) = [(0, Some (replicate PAGE_SIZE 0))]
    \<and> receive 1 (scheduler_drop s1) = Inl ChannelClosed"
proof -
  let ?s = "scheduler_new (disk_of [] [])" and ?r = "sample_request ReqDelete 0"
  have 1: "sched_idle ?s" by (simp add: sched_idle_def scheduler_new_def)
  have 2: "serve_all [?r] (disk_mgr ?s) = Inr ([(0, Some (replicate PAGE_SIZE 0))], disk_of [] [])"
    by (simp add: sample_request_def scheduler_new_def handle_request_def dm_delete_page_def)
  obtain s1 where 3: "schedule_all [?r] ?s = Inr s1" by (simp add: schedule_def scheduler_new_def)
  from drop_serves_queue [OF 1 2 3, of undefined 1] 3 show ?thesis by (simp add: on_channel_def)
qed

text \<open>C35: A client that talks to the disk through the scheduler, one request at a time, sees an array
  of pages: every script of reads and writes of known pages runs to its end and returns what the
  array gives, and the disk holds the array's final contents.\<close>

theorem scheduler_is_page_array:
  assumes "sched_ok s" and "list_all (cmd_ok (dom (sched_view s))) cs"
  shows "\<exists>out s'. run_cmds sched_load sched_store cs s = Inr (out, s') \<and> spec_cmds cs (sched_view s) = (out, disk_view (disk_mgr s'))
    \<and> sched_ok s'"
  using sched.run_cmds_total [OF assms] by (simp add: sched_view_def)

theorem scheduler_is_page_array_witness:
  "\<exists>s'. run_cmds sched_load sched_store [PRead 3, PWrite 3 (replicate PAGE_SIZE 1), PRead 3] (scheduler_new (disk_of [(3, 0)] []))
    = Inr ([replicate PAGE_SIZE 0, replicate PAGE_SIZE 1], s')"
proof -
  let ?s = "scheduler_new (disk_of [(3, 0)] [])" and ?cs = "[PRead 3, PWrite 3 (replicate PAGE_SIZE 1), PRead 3]"
  have "disk_ok (disk_of [(3, 0)] [])" by (rule disk_of_ok) (auto simp: DB_IO_SIZE_def)
  from sched_new_ok [OF this] have ok: "sched_ok ?s" "sched_view ?s = disk_view (disk_of [(3, 0)] [])" by simp_all
  have v: "disk_view (disk_of [(3, 0)] []) 3 = Some (replicate PAGE_SIZE 0)" by (simp add: disk_view_def disk_of_def get_def)
  have "list_all (cmd_ok (dom (sched_view ?s))) ?cs" using v by (simp add: ok domIff)
  from scheduler_is_page_array [OF ok(1) this] obtain out s' where
    "run_cmds sched_load sched_store ?cs ?s = Inr (out, s')"
    "spec_cmds ?cs (sched_view ?s) = (out, disk_view (disk_mgr s'))" by blast
  with v show ?thesis by (simp add: ok)
qed

end
