(* ===== verification/Guard.thy ===== *)
theory Guard
  imports FrameHeader ArcReplacer DiskScheduler
begin

text \<open>
  \<open>guard.rs\<close>: \<open>WritePageGuard\<close> and \<open>ReadPageGuard\<close> pin a page while they live. A guard shares the
  frame, the replacer and the scheduler with the pool through \<open>Arc\<close>s; the shared objects are the
  record \<open>engine\<close>, which the buffer pool extends, and the guard's \<open>Arc<FrameHeader>\<close> is the index of
  its frame. The two guard types have the same fields and differ in \<open>data_mut\<close> only, so one record
  serves both; their operations are separate definitions, as in the source. A borrow returned by
  \<open>data()\<close> or \<open>data_mut()\<close> is taken by \<open>guard_borrow\<close> / \<open>guard_borrow_mut\<close> and ends explicitly.
\<close>

record engine =
  frames :: "frame_header list"
  replacer :: arc_replacer
  scheduler :: disk_scheduler

record page_guard =
  g_page_id :: page_id
  g_frame :: nat
  g_valid :: bool

definition upd_frame :: "nat \<Rightarrow> (frame_header \<Rightarrow> frame_header) \<Rightarrow> 'a engine_scheme \<Rightarrow> 'a engine_scheme" where
  "upd_frame i h s = s\<lparr>frames := (frames s)[i := h (frames s ! i)]\<rparr>"

definition write_guard_new :: "page_id \<Rightarrow> nat \<Rightarrow> 'a engine_scheme \<Rightarrow> (page_guard \<times> 'a engine_scheme) res" where
  "write_guard_new p i s =
     (let s1 = upd_frame i pin s
      in seq (record_access (fh_id (frames s1 ! i)) p (replacer s1)) (\<lambda>r.
           Inr (\<lparr>g_page_id = p, g_frame = i, g_valid = True\<rparr>, s1\<lparr>replacer := r\<rparr>)))"

definition read_guard_new :: "page_id \<Rightarrow> nat \<Rightarrow> 'a engine_scheme \<Rightarrow> (page_guard \<times> 'a engine_scheme) res" where
  "read_guard_new p i s =
     (let s1 = upd_frame i pin s
      in seq (record_access (fh_id (frames s1 ! i)) p (replacer s1)) (\<lambda>r.
           Inr (\<lparr>g_page_id = p, g_frame = i, g_valid = True\<rparr>, s1\<lparr>replacer := r\<rparr>)))"

text \<open>\<open>flush\<close>: nothing to do for an invalid guard or a clean frame; else write the bytes and clear
  the dirty flag (whatever the disk answered).\<close>

definition write_guard_flush :: "page_guard \<Rightarrow> 'a engine_scheme \<Rightarrow> (bool \<times> 'a engine_scheme) res" where
  "write_guard_flush g s =
     (let fr = frames s ! g_frame g
      in if \<not> g_valid g \<or> \<not> is_dirty fr then Inr (False, s)
         else seq (frame_clone_data fr) (\<lambda>data.
           seq (disk_io ReqWrite (g_page_id g) data (scheduler s)) (\<lambda>(_, sch).
             Inr (True, upd_frame (g_frame g) (\<lambda>fr. fr\<lparr>is_dirty := False\<rparr>) (s\<lparr>scheduler := sch\<rparr>)))))"

definition read_guard_flush :: "page_guard \<Rightarrow> 'a engine_scheme \<Rightarrow> (bool \<times> 'a engine_scheme) res" where
  "read_guard_flush g s =
     (let fr = frames s ! g_frame g
      in if \<not> g_valid g \<or> \<not> is_dirty fr then Inr (False, s)
         else seq (frame_clone_data fr) (\<lambda>data.
           seq (disk_io ReqWrite (g_page_id g) data (scheduler s)) (\<lambda>(_, sch).
             Inr (True, upd_frame (g_frame g) (\<lambda>fr. fr\<lparr>is_dirty := False\<rparr>) (s\<lparr>scheduler := sch\<rparr>)))))"

text \<open>\<open>data_mut()\<close>: mark the frame dirty, then take the write lock.\<close>

definition guard_borrow_mut :: "page_guard \<Rightarrow> 'a engine_scheme \<Rightarrow> 'a engine_scheme res" where
  "guard_borrow_mut g s =
     (let s1 = upd_frame (g_frame g) (\<lambda>fr. fr\<lparr>is_dirty := True\<rparr>) s
      in seq (lock_write (frames s1 ! g_frame g)) (\<lambda>fr. Inr (upd_frame (g_frame g) (\<lambda>_. fr) s1)))"

definition guard_release_mut :: "page_guard \<Rightarrow> 'a engine_scheme \<Rightarrow> 'a engine_scheme" where
  "guard_release_mut g s = upd_frame (g_frame g) unlock_write s"

text \<open>\<open>data()\<close> of either guard: take the read lock.\<close>

definition guard_borrow :: "page_guard \<Rightarrow> 'a engine_scheme \<Rightarrow> 'a engine_scheme res" where
  "guard_borrow g s =
     seq (lock_read (frames s ! g_frame g)) (\<lambda>fr. Inr (upd_frame (g_frame g) (\<lambda>_. fr) s))"

definition guard_release :: "page_guard \<Rightarrow> 'a engine_scheme \<Rightarrow> 'a engine_scheme" where
  "guard_release g s = upd_frame (g_frame g) unlock_read s"

text \<open>The bytes behind a borrow.\<close>

definition guard_bytes :: "page_guard \<Rightarrow> 'a engine_scheme \<Rightarrow> u8 list" where
  "guard_bytes g s = fh_data (frames s ! g_frame g)"

definition guard_set_bytes :: "page_guard \<Rightarrow> u8 list \<Rightarrow> 'a engine_scheme \<Rightarrow> 'a engine_scheme" where
  "guard_set_bytes g bs s = upd_frame (g_frame g) (\<lambda>fr. fr\<lparr>fh_data := bs\<rparr>) s"

text \<open>A borrow that lives for one block: read a result off the bytes, or compute one and new bytes.\<close>

definition with_data :: "page_guard \<Rightarrow> (u8 list \<Rightarrow> 'r res) \<Rightarrow> 'a engine_scheme \<Rightarrow> ('r \<times> 'a engine_scheme) res" where
  "with_data g k s =
     seq (guard_borrow g s) (\<lambda>s1. seq (k (guard_bytes g s1)) (\<lambda>x. Inr (x, guard_release g s1)))"

definition with_data_mut :: "page_guard \<Rightarrow> (u8 list \<Rightarrow> ('r \<times> u8 list) res) \<Rightarrow> 'a engine_scheme
    \<Rightarrow> ('r \<times> 'a engine_scheme) res" where
  "with_data_mut g k s =
     seq (guard_borrow_mut g s) (\<lambda>s1. seq (k (guard_bytes g s1)) (\<lambda>(x, bs).
       Inr (x, guard_release_mut g (guard_set_bytes g bs s1))))"

text \<open>\<open>Drop\<close> of either guard.\<close>

definition write_guard_drop :: "page_guard \<Rightarrow> 'a engine_scheme \<Rightarrow> 'a engine_scheme res" where
  "write_guard_drop g s =
     (if \<not> g_valid g then Inr s
      else
        let s1 = upd_frame (g_frame g) unpin s; fr = frames s1 ! g_frame g
        in if pin_count fr = 0
           then seq (set_evictable (fh_id fr) (replacer s1)) (\<lambda>r. Inr (s1\<lparr>replacer := r\<rparr>))
           else Inr s1)"

definition read_guard_drop :: "page_guard \<Rightarrow> 'a engine_scheme \<Rightarrow> 'a engine_scheme res" where
  "read_guard_drop g s =
     (if \<not> g_valid g then Inr s
      else
        let s1 = upd_frame (g_frame g) unpin s; fr = frames s1 ! g_frame g
        in if pin_count fr = 0
           then seq (set_evictable (fh_id fr) (replacer s1)) (\<lambda>r. Inr (s1\<lparr>replacer := r\<rparr>))
           else Inr s1)"

text \<open>The two guard types behave alike where both have the operation.\<close>

lemma read_guard_new_eq: "read_guard_new = write_guard_new"
  by (intro ext) (simp add: read_guard_new_def write_guard_new_def)

lemma read_guard_flush_eq: "read_guard_flush = write_guard_flush"
  by (intro ext) (simp add: read_guard_flush_def write_guard_flush_def)

lemma read_guard_drop_eq: "read_guard_drop = write_guard_drop"
  by (intro ext) (simp add: read_guard_drop_def write_guard_drop_def)

lemmas read_guard_as_write = read_guard_new_eq read_guard_flush_eq read_guard_drop_eq

lemma upd_frame_simps [simp]:
  "replacer (upd_frame i h s) = replacer s" "scheduler (upd_frame i h s) = scheduler s"
  "length (frames (upd_frame i h s)) = length (frames s)"
  "engine.more (upd_frame i h s) = engine.more s"
  "frames (upd_frame i h s) = (frames s)[i := h (frames s ! i)]"
  by (simp_all add: upd_frame_def)

lemma upd_frame_id: "h (frames s ! i) = frames s ! i \<Longrightarrow> upd_frame i h s = s"
  by (simp add: upd_frame_def)

lemma upd_frame_twice: "i < length (frames s) \<Longrightarrow> upd_frame i h (upd_frame i k s) = upd_frame i (\<lambda>fr. h (k fr)) s"
  by (simp add: upd_frame_def)

lemma upd_frame_replacer: "upd_frame i h (s\<lparr>replacer := r\<rparr>) = (upd_frame i h s)\<lparr>replacer := r\<rparr>"
  by (simp add: upd_frame_def)

text \<open>Reading through a guard of an unlocked frame leaves the engine as it is.\<close>

lemma with_data_unlocked:
  assumes "g_frame g < length (frames s)" and "fh_lock (frames s ! g_frame g) = Unlocked"
  shows "with_data g k s = seq (k (fh_data (frames s ! g_frame g))) (\<lambda>x. Inr (x, s))"
proof -
  let ?fr = "frames s ! g_frame g"
  have "guard_release g (upd_frame (g_frame g) (\<lambda>_. ?fr\<lparr>fh_lock := Readers 1\<rparr>) s) = s"
    unfolding guard_release_def using assms
    by (subst upd_frame_twice) (simp_all add: unlock_read_def upd_frame_def)
  with assms show ?thesis
    by (simp add: with_data_def guard_borrow_def guard_bytes_def)
qed

lemma with_data_mut_unlocked:
  assumes "g_frame g < length (frames s)" and "fh_lock (frames s ! g_frame g) = Unlocked"
  shows "with_data_mut g k s = seq (k (fh_data (frames s ! g_frame g))) (\<lambda>(x, bs).
    Inr (x, upd_frame (g_frame g) (\<lambda>fr. fr\<lparr>is_dirty := True, fh_data := bs\<rparr>) s))"
  using assms
  by (auto simp: with_data_mut_def guard_borrow_mut_def guard_release_mut_def guard_set_bytes_def
      guard_bytes_def upd_frame_def unlock_write_def intro!: seq_cong)

end
