(* ===== verification/BufferPool.thy ===== *)
theory BufferPool
  imports Guard
begin

text \<open>
  \<open>buffer_pool.rs\<close>: the pool of frames, its page table, its free list, and the five requests it
  serves. \<open>Vec\<close>s grow and shrink at their end, so the top of the free list is its last element. The
  latch is taken for the length of a method and never while it is held, so it does not appear in
  the single-threaded state. \<open>check_write_page\<close> and \<open>check_read_page\<close> return \<open>Some\<close> guard on every
  path that returns, so the model returns the guard itself.
\<close>

record bpm = engine +
  num_frames :: nat
  next_page_id :: page_id
  free_frames :: "frame_id list"
  page_table :: "(page_id \<times> frame_id) list"

definition bpm_new :: "nat \<Rightarrow> disk_manager \<Rightarrow> bpm" where
  "bpm_new n d =
     \<lparr>frames = map (\<lambda>i. frame_new (of_nat i)) [0..<n], replacer = arc_new n, scheduler = scheduler_new d,
      num_frames = n, next_page_id = 0, free_frames = map of_nat [0..<n], page_table = []\<rparr>"

definition new_page :: "bpm \<Rightarrow> (page_id \<times> bpm) res" where
  "new_page s =
     (let p = next_page_id s; s1 = s\<lparr>next_page_id := p + 1\<rparr>
      in seq (disk_io ReqWrite p (replicate PAGE_SIZE 0) (scheduler s1)) (\<lambda>(_, sch).
           Inr (p, s1\<lparr>scheduler := sch\<rparr>)))"

definition bpm_delete_page :: "page_id \<Rightarrow> bpm \<Rightarrow> bpm res" where
  "bpm_delete_page p s = (case map_of (page_table s) p of
       None \<Rightarrow> Inr s
     | Some f \<Rightarrow>
         seq (index (frames s) (unat f)) (\<lambda>fr.
           if pin_count fr > 0 then Inr s
           else
             let s1 = s\<lparr>page_table := AList.delete p (page_table s), replacer := arc_remove f (replacer s)\<rparr>
             in seq (frame_reset fr) (\<lambda>fr'.
                  let s2 = s1\<lparr>frames := (frames s1)[unat f := fr'], free_frames := free_frames s1 @ [f]\<rparr>
                  in seq (disk_io ReqDelete p (replicate PAGE_SIZE 0) (scheduler s2)) (\<lambda>(_, sch).
                       Inr (s2\<lparr>scheduler := sch\<rparr>)))))"

text \<open>The steps both page requests share. Reading the page from disk into a frame taken off the free
  list and entering it in the page table:\<close>

definition load_page :: "page_id \<Rightarrow> frame_id \<Rightarrow> bpm \<Rightarrow> bpm res" where
  "load_page p f s =
     seq (disk_io ReqRead p (replicate PAGE_SIZE 0) (scheduler s)) (\<lambda>(data, sch).
       seq (index (frames s) (unat f)) (\<lambda>fr.
         seq (lock_write fr) (\<lambda>_.
           seq (unwrap data) (\<lambda>bytes.
             seq (frame_copy_from bytes fr) (\<lambda>fr'.
               Inr (s\<lparr>scheduler := sch, frames := (frames s)[unat f := fr'],
                      page_table := AList.update p f (page_table s)\<rparr>))))))"

text \<open>Taking a victim's frame: out of the page table, its bytes to disk, the frame reset and pushed
  on the free list.\<close>

definition evict_frame :: "bpm \<Rightarrow> bpm res" where
  "evict_frame s =
     seq (evict (replacer s)) (\<lambda>(victim, rep).
       seq (unwrap victim) (\<lambda>f.
         seq (index (frames s) (unat f)) (\<lambda>fr.
           let s1 = s\<lparr>replacer := rep, free_frames := free_frames s @ [f]\<rparr>;
               to_remove = map_option fst (find (\<lambda>e. snd e = f) (page_table s1))
           in seq (unwrap to_remove) (\<lambda>old_page_id.
                let s2 = s1\<lparr>page_table := AList.delete old_page_id (page_table s1)\<rparr>
                in seq (frame_clone_data fr) (\<lambda>data.
                     seq (disk_io ReqWrite old_page_id data (scheduler s2)) (\<lambda>(_, sch).
                       seq (frame_reset (fr\<lparr>is_dirty := False\<rparr>)) (\<lambda>fr'.
                         Inr (s2\<lparr>scheduler := sch, frames := (frames s2)[unat f := fr']\<rparr>))))))))"

definition pop_free_frame :: "bpm \<Rightarrow> (frame_id \<times> bpm) res" where
  "pop_free_frame s =
     (if free_frames s = [] then Inl UnwrapNone
      else Inr (last (free_frames s), s\<lparr>free_frames := butlast (free_frames s)\<rparr>))"

definition check_write_page :: "page_id \<Rightarrow> bpm \<Rightarrow> (page_guard \<times> bpm) res" where
  "check_write_page p s = (case map_of (page_table s) p of
       Some f \<Rightarrow> seq (index (frames s) (unat f)) (\<lambda>_. write_guard_new p (unat f) s)
     | None \<Rightarrow>
         if length (free_frames s) > 0 then
           seq (pop_free_frame s) (\<lambda>(f, s1).
             seq (load_page p f s1) (write_guard_new p (unat f)))
         else
           seq (evict_frame s) (\<lambda>s1.
             seq (pop_free_frame s1) (\<lambda>(f, s2).
               seq (load_page p f s2) (write_guard_new p (unat f)))))"

definition check_read_page :: "page_id \<Rightarrow> bpm \<Rightarrow> (page_guard \<times> bpm) res" where
  "check_read_page p s = (case map_of (page_table s) p of
       Some f \<Rightarrow> seq (index (frames s) (unat f)) (\<lambda>_. read_guard_new p (unat f) s)
     | None \<Rightarrow>
         if length (free_frames s) > 0 then
           seq (pop_free_frame s) (\<lambda>(f, s1).
             seq (load_page p f s1) (read_guard_new p (unat f)))
         else
           seq (evict_frame s) (\<lambda>s1.
             seq (pop_free_frame s1) (\<lambda>(f, s2).
               seq (load_page p f s2) (read_guard_new p (unat f)))))"

definition flush_page :: "page_id \<Rightarrow> bpm \<Rightarrow> (bool \<times> bpm) res" where
  "flush_page p s = (case map_of (page_table s) p of
       None \<Rightarrow> Inr (False, s)
     | Some f \<Rightarrow>
         seq (index (frames s) (unat f)) (\<lambda>_.
           seq (read_guard_new p (unat f) s) (\<lambda>(g, s1).
             seq (read_guard_flush g s1) (\<lambda>(r, s2).
               seq (read_guard_drop g s2) (\<lambda>s3. Inr (r, s3))))))"

fun flush_each :: "(page_id \<times> frame_id) list \<Rightarrow> bpm \<Rightarrow> bpm res" where
  "flush_each [] s = Inr s"
| "flush_each ((p, f) # es) s =
     seq (index (frames s) (unat f)) (\<lambda>_.
       seq (read_guard_new p (unat f) s) (\<lambda>(g, s1).
         seq (read_guard_flush g s1) (\<lambda>(_, s2).
           seq (read_guard_drop g s2) (flush_each es))))"

definition flush_all_pages :: "bpm \<Rightarrow> (bool \<times> bpm) res" where
  "flush_all_pages s =
     (if page_table s = [] then Inr (False, s)
      else seq (flush_each (page_table s) s) (\<lambda>s'. Inr (True, s')))"

lemma check_read_page_eq: "check_read_page = check_write_page"
  unfolding check_read_page_def check_write_page_def read_guard_as_write ..

section \<open>What the pool holds, and its invariant\<close>

text \<open>The contents of a page as the clients of the pool see it: the frame if the page has one, else
  the disk.\<close>

definition pool_view :: "bpm \<Rightarrow> page_view" where
  "pool_view s p = (case map_of (page_table s) p of
       Some f \<Rightarrow> Some (fh_data (frames s ! unat f))
     | None \<Rightarrow> sched_view (scheduler s) p)"

text \<open>The parts of the invariant. Frames carry their index and a whole page:\<close>

definition frames_ok :: "bpm \<Rightarrow> bool" where
  "frames_ok s \<longleftrightarrow> length (frames s) = num_frames s
     \<and> (\<forall>i < num_frames s. fh_id (frames s ! i) = of_nat i \<and> length (fh_data (frames s ! i)) = PAGE_SIZE)"

text \<open>every frame is either free or holds exactly one page:\<close>

definition table_ok :: "bpm \<Rightarrow> bool" where
  "table_ok s \<longleftrightarrow> distinct (map fst (page_table s)) \<and> distinct (map snd (page_table s) @ free_frames s)
     \<and> unat ` set (map snd (page_table s) @ free_frames s) = {..<num_frames s}"

text \<open>the replacer tracks the page table, and marks only frames that hold a page:\<close>

definition replacer_ok :: "bpm \<Rightarrow> bool" where
  "replacer_ok s \<longleftrightarrow> arc_inv (replacer s) \<and> replacer_size (replacer s) = num_frames s
     \<and> tracked (replacer s) = prod.swap ` set (page_table s)
     \<and> evictable_pages (replacer s) \<subseteq> snd ` set (page_table s)"

text \<open>the disk has every page handed out so far, and a frame that is not dirty agrees with it:\<close>

definition disk_side_ok :: "bpm \<Rightarrow> bool" where
  "disk_side_ok s \<longleftrightarrow> sched_ok (scheduler s) \<and> dom (sched_view (scheduler s)) = {p. p < next_page_id s}
     \<and> fst ` set (page_table s) \<subseteq> {p. p < next_page_id s}
     \<and> (\<forall>(p, f) \<in> set (page_table s). \<not> is_dirty (frames s ! unat f) \<longrightarrow>
          sched_view (scheduler s) p = Some (fh_data (frames s ! unat f)))"

text \<open>\<open>G\<close> is the multiset of the frames of the live guards, \<open>L\<close> the frames write-borrowed: pin
  counts and locks say so, a write-borrowed frame is dirty, guards are on frames that hold a page, and
  every unpinned frame with a page is evictable.\<close>

definition guards_ok :: "nat multiset \<Rightarrow> nat set \<Rightarrow> bpm \<Rightarrow> bool" where
  "guards_ok G L s \<longleftrightarrow>
     (\<forall>i < num_frames s. unat (pin_count (frames s ! i)) = count G i
        \<and> fh_lock (frames s ! i) = (if i \<in> L then Writer else Unlocked)
        \<and> (i \<in> L \<longrightarrow> is_dirty (frames s ! i)))
     \<and> set_mset G \<subseteq> unat ` snd ` set (page_table s) \<and> L \<subseteq> set_mset G
     \<and> (\<forall>f \<in> snd ` set (page_table s). unat f \<notin># G \<longrightarrow> f \<in> evictable_pages (replacer s))"

definition pool_inv :: "nat multiset \<Rightarrow> nat set \<Rightarrow> bpm \<Rightarrow> bool" where
  "pool_inv G L s \<longleftrightarrow> frames_ok s \<and> table_ok s \<and> replacer_ok s \<and> disk_side_ok s \<and> guards_ok G L s"

lemmas pool_inv_defs = pool_inv_def frames_ok_def table_ok_def replacer_ok_def disk_side_ok_def guards_ok_def

text \<open>The pool at rest: no guard is alive.\<close>

abbreviation pool_idle :: "bpm \<Rightarrow> bool" where
  "pool_idle \<equiv> pool_inv {#} {}"

lemma pool_inv_entry:
  assumes "pool_inv G L s" and "map_of (page_table s) p = Some f"
  shows "unat f < num_frames s" "unat f < length (frames s)" "(f, p) \<in> tracked (replacer s)"
    "p < next_page_id s" "f \<notin> set (free_frames s)" "fh_id (frames s ! unat f) = f"
    "length (fh_data (frames s ! unat f)) = PAGE_SIZE"
proof -
  have e: "(p, f) \<in> set (page_table s)" using assms(2) by (rule map_of_SomeD)
  then have "f \<in> set (map snd (page_table s) @ free_frames s)" by force
  then have "unat f \<in> unat ` set (map snd (page_table s) @ free_frames s)" by (rule imageI)
  then show n: "unat f < num_frames s" using assms(1) by (simp add: pool_inv_defs)
  then show "unat f < length (frames s)" "fh_id (frames s ! unat f) = f"
    "length (fh_data (frames s ! unat f)) = PAGE_SIZE" using assms(1) by (simp_all add: pool_inv_defs)
  show "(f, p) \<in> tracked (replacer s)" using e assms(1) by (force simp: pool_inv_def replacer_ok_def)
  show "p < next_page_id s" using e assms(1) by (auto simp: pool_inv_def disk_side_ok_def)
  show "f \<notin> set (free_frames s)" using e assms(1) by (auto simp: pool_inv_def table_ok_def)
qed

lemma pool_inv_table_inj:
  assumes "pool_inv G L s" and "map_of (page_table s) p = Some f" and "map_of (page_table s) q = Some f"
  shows "p = q"
proof -
  have "distinct (map snd (page_table s))" using assms(1) by (simp add: pool_inv_def table_ok_def)
  then have "inj_on snd (set (page_table s))" by (simp add: distinct_map)
  from inj_onD [OF this, of "(p, f)" "(q, f)"] assms(2,3) show ?thesis by (auto dest: map_of_SomeD)
qed

lemma pool_view_length:
  assumes "pool_inv G L s" and "pool_view s p = Some b"
  shows "length b = PAGE_SIZE"
proof (cases "map_of (page_table s) p")
  case None
  then have "sched_view (scheduler s) p = Some b" using assms(2) by (simp add: pool_view_def)
  moreover have "sched_ok (scheduler s)" using assms(1) by (simp add: pool_inv_def disk_side_ok_def)
  ultimately show ?thesis
    using disk_view_length [of "disk_mgr (scheduler s)" p b] by (simp add: sched_view_def sched_ok_def)
next
  case (Some f)
  with assms pool_inv_entry [OF assms(1) Some] show ?thesis by (auto simp: pool_view_def)
qed

lemma pool_view_dom:
  assumes "pool_inv G L s"
  shows "dom (pool_view s) = {p. p < next_page_id s}"
proof -
  have "pool_view s p \<noteq> None \<longleftrightarrow> p < next_page_id s" for p
  proof (cases "map_of (page_table s) p")
    case None
    then have "pool_view s p = sched_view (scheduler s) p" by (simp add: pool_view_def)
    moreover have "dom (sched_view (scheduler s)) = {p. p < next_page_id s}"
      using assms by (simp add: pool_inv_def disk_side_ok_def)
    ultimately show ?thesis by (auto simp: set_eq_iff dom_def)
  next
    case (Some f)
    with pool_inv_entry(4) [OF assms Some] show ?thesis by (simp add: pool_view_def)
  qed
  then show ?thesis by auto
qed

lemma bpm_new_idle:
  assumes "disk_ok d" and "disk_view d = Map.empty" and "n < 2 ^ 30"
  shows "pool_idle (bpm_new n d)" and "pool_view (bpm_new n d) = Map.empty"
proof -
  have un: "unat (of_nat i :: u32) = i" if "i < n" for i using that assms(3) by (intro unat_of_nat_u32) simp
  have inj: "inj_on (of_nat :: nat \<Rightarrow> u32) {0..<n}"
  proof (rule inj_onI)
    fix i j assume "i \<in> {0..<n}" "j \<in> {0..<n}" "(of_nat i :: u32) = of_nat j"
    then show "i = j" by (metis un atLeastLessThan_iff)
  qed
  have "(\<lambda>i. unat (of_nat i :: u32)) ` {0..<n} = (\<lambda>i. i) ` {0..<n}" by (rule image_cong) (simp_all add: un)
  then have img: "unat ` (of_nat :: nat \<Rightarrow> u32) ` {0..<n} = {..<n}" by (simp add: image_image atLeast0LessThan)
  have "frames_ok (bpm_new n d)" by (simp add: frames_ok_def bpm_new_def frame_new_def)
  moreover have "table_ok (bpm_new n d)"
    using inj img by (simp add: table_ok_def bpm_new_def distinct_map)
  moreover have "replacer_ok (bpm_new n d)"
    using arc_new_inv [OF assms(3)] by (simp add: replacer_ok_def bpm_new_def) (simp add: arc_new_def tracked_def)
  moreover have "disk_side_ok (bpm_new n d)"
    using sched_new_ok [OF assms(1)] assms(2) by (simp add: disk_side_ok_def bpm_new_def)
  moreover have "guards_ok {#} {} (bpm_new n d)"
    by (simp add: guards_ok_def bpm_new_def frame_new_def)
  ultimately show "pool_idle (bpm_new n d)" by (simp add: pool_inv_def)
  show "pool_view (bpm_new n d) = Map.empty"
    using assms(2) by (simp add: pool_view_def bpm_new_def sched_view_def scheduler_new_def fun_eq_iff)
qed

section \<open>Guards\<close>

text \<open>What a guard operation leaves alone.\<close>

definition same_pool :: "bpm \<Rightarrow> bpm \<Rightarrow> bool" where
  "same_pool s s' \<longleftrightarrow> page_table s' = page_table s \<and> free_frames s' = free_frames s
     \<and> next_page_id s' = next_page_id s \<and> num_frames s' = num_frames s"

lemma same_pool_refl [simp]: "same_pool s s"
  by (simp add: same_pool_def)

lemma same_pool_trans: "same_pool s t \<Longrightarrow> same_pool t u \<Longrightarrow> same_pool s u"
  by (simp add: same_pool_def)

lemma pin_count_update:
  assumes "unat (pin_count fr) = count G i" and "size G + 1 < 2 ^ 64"
  shows "unat (pin_count (pin fr)) = count (add_mset i G) i"
proof -
  have "count G i + 1 < 2 ^ 64" using assms(2) count_le_size [of G i] by linarith
  then show ?thesis using assms(1) by (simp add: unat_pin)
qed

text \<open>A new guard on a page that has a frame: one pin more, nothing else a client sees.\<close>

lemma guard_new_inv:
  assumes inv: "pool_inv G L s" and e: "map_of (page_table s) p = Some f" and small: "size G + 1 < 2 ^ 64"
    and run: "write_guard_new p (unat f) s = Inr (g, s')"
  shows "pool_inv (add_mset (unat f) G) L s'" and "pool_view s' = pool_view s" and "same_pool s s'"
    and "g = \<lparr>g_page_id = p, g_frame = unat f, g_valid = True\<rparr>"
    and "curr_size (replacer s') = curr_size (replacer s)"
    and "evictable_pages (replacer s') = evictable_pages (replacer s)"
proof -
  note entry = pool_inv_entry [OF inv e]
  from run entry(2,6) obtain r where r: "record_access f p (replacer s) = Inr r"
    and s': "s' = (upd_frame (unat f) pin s)\<lparr>replacer := r\<rparr>"
    and g: "g = \<lparr>g_page_id = p, g_frame = unat f, g_valid = True\<rparr>"
    by (auto simp: write_guard_new_def monad_simps pin_def)
  have rep: "arc_inv (replacer s)" "replacer_size (replacer s) = num_frames s"
    using inv by (simp_all add: pool_inv_defs)
  then have "access_ok f p (replacer s)" using entry(1,3) by (simp add: access_ok_def)
  note law = record_access_law [OF rep(1) this r]
  have trk: "tracked r = tracked (replacer s)" using law entry(3) by auto
  have frs: "frames s' = (frames s)[unat f := pin (frames s ! unat f)]" by (simp add: s')
  have rest: "page_table s' = page_table s" "free_frames s' = free_frames s" "next_page_id s' = next_page_id s"
    "num_frames s' = num_frames s" "scheduler s' = scheduler s" "replacer s' = r"
    by (simp_all add: s' upd_frame_def)
  have data: "fh_data (frames s' ! i) = fh_data (frames s ! i)" "fh_id (frames s' ! i) = fh_id (frames s ! i)"
    "fh_lock (frames s' ! i) = fh_lock (frames s ! i)" "is_dirty (frames s' ! i) = is_dirty (frames s ! i)" for i
    using entry(2) by (cases "i = unat f"; simp add: frs pin_def)+
  have pc: "unat (pin_count (frames s' ! i)) = count (add_mset (unat f) G) i" if "i < num_frames s" for i
  proof (cases "i = unat f")
    case True
    have "unat (pin_count (frames s ! unat f)) = count G (unat f)"
      using inv entry(1) by (simp add: pool_inv_def guards_ok_def)
    from pin_count_update [OF this small] True entry(2) show ?thesis by (simp add: frs)
  next
    case False
    with inv that show ?thesis by (simp add: pool_inv_def guards_ok_def frs)
  qed
  have "frames_ok s'" "table_ok s'" "disk_side_ok s'"
    using inv data by (simp_all add: pool_inv_def frames_ok_def table_ok_def disk_side_ok_def rest frs del: set_append)
  moreover have "replacer_ok s'" using inv law trk by (simp add: pool_inv_def replacer_ok_def rest)
  moreover have "guards_ok (add_mset (unat f) G) L s'"
  proof -
    have "f \<in> snd ` set (page_table s)" using map_of_SomeD [OF e] by force
    then show ?thesis using inv pc data law by (auto simp: pool_inv_def guards_ok_def rest)
  qed
  ultimately show "pool_inv (add_mset (unat f) G) L s'" by (simp add: pool_inv_def)
  show "pool_view s' = pool_view s" using data by (simp add: pool_view_def rest fun_eq_iff split: option.split)
  show "same_pool s s'" by (simp add: same_pool_def rest)
  show "g = \<lparr>g_page_id = p, g_frame = unat f, g_valid = True\<rparr>" by (rule g)
  show "curr_size (replacer s') = curr_size (replacer s)"
    "evictable_pages (replacer s') = evictable_pages (replacer s)" using law by (simp_all add: rest)
qed

lemma guard_new_total:
  assumes inv: "pool_inv G L s" and e: "map_of (page_table s) p = Some f"
  shows "\<exists>g s'. write_guard_new p (unat f) s = Inr (g, s')"
proof -
  note entry = pool_inv_entry [OF inv e]
  have "arc_inv (replacer s)" using inv by (simp add: pool_inv_defs)
  from record_access_panics [OF this, of f p] entry(3)
  obtain r where "record_access f p (replacer s) = Inr r" by (cases "record_access f p (replacer s)") auto
  with entry(2,6) show ?thesis by (simp add: write_guard_new_def pin_def)
qed

text \<open>Dropping a live guard: one pin less, and a frame nobody pins any more becomes evictable.\<close>

lemma guard_drop_inv:
  assumes inv: "pool_inv G L s" and valid: "g_valid g" and live: "g_frame g \<in># G" and free: "g_frame g \<notin> L"
    and run: "write_guard_drop g s = Inr s'"
  shows "pool_inv (G - {#g_frame g#}) L s'" and "pool_view s' = pool_view s" and "same_pool s s'"
    and "unat (curr_size (replacer s')) \<le> unat (curr_size (replacer s)) + 1"
proof -
  let ?i = "g_frame g"
  have "set_mset G \<subseteq> unat ` snd ` set (page_table s)" using inv by (simp add: pool_inv_def guards_ok_def)
  from subsetD [OF this live] obtain f where f: "f \<in> snd ` set (page_table s)" "?i = unat f" by blast
  then obtain p where "map_of (page_table s) p = Some f"
    using inv by (auto simp: pool_inv_def table_ok_def)
  note entry = pool_inv_entry [OF inv this]
  define s1 where "s1 = upd_frame ?i unpin s"
  have frs1: "frames s1 = (frames s)[?i := unpin (frames s ! ?i)]" by (simp add: s1_def)
  have pin: "unat (pin_count (frames s ! ?i)) = count G ?i"
    using inv entry(1) f(2) by (simp add: pool_inv_def guards_ok_def)
  have pin1: "unat (pin_count (frames s1 ! ?i)) = count (G - {#?i#}) ?i"
    using pin live entry(2) f(2) by (simp add: frs1 unat_unpin)
  define last where "last \<longleftrightarrow> ?i \<notin># G - {#?i#}"
  have zero: "pin_count (frames s1 ! ?i) = 0 \<longleftrightarrow> last"
    unfolding last_def not_in_iff pin1 [symmetric] by (simp add: unat_eq_0)
  have fid: "fh_id (frames s1 ! ?i) = f" using entry(2,6) f(2) by (simp add: frs1 unpin_def)
  from run valid obtain r where r: "if last then set_evictable f (replacer s) = Inr r else r = replacer s"
    and s': "s' = s1\<lparr>replacer := r\<rparr>"
    by (auto simp: write_guard_drop_def Let_def zero fid s1_def [symmetric] monad_simps split: if_splits)
       (auto simp: s1_def)
  have arc: "arc_inv (replacer s)" using inv by (simp add: pool_inv_def replacer_ok_def)
  have law: "arc_inv r \<and> tracked r = tracked (replacer s)
    \<and> evictable_pages r = (if last then insert f (evictable_pages (replacer s)) else evictable_pages (replacer s))
    \<and> replacer_size r = replacer_size (replacer s) \<and> unat (curr_size r) \<le> unat (curr_size (replacer s)) + 1"
    using r set_evictable_law [OF arc, of f r] arc by (auto split: if_splits)
  have rest: "page_table s' = page_table s" "free_frames s' = free_frames s" "next_page_id s' = next_page_id s"
    "num_frames s' = num_frames s" "scheduler s' = scheduler s" "replacer s' = r" "frames s' = frames s1"
    by (simp_all add: s' s1_def upd_frame_def)
  have data: "fh_data (frames s' ! i) = fh_data (frames s ! i)" "fh_id (frames s' ! i) = fh_id (frames s ! i)"
    "fh_lock (frames s' ! i) = fh_lock (frames s ! i)" "is_dirty (frames s' ! i) = is_dirty (frames s ! i)" for i
    using entry(2) f(2) by (cases "i = ?i"; simp add: rest frs1 unpin_def)+
  have pc: "unat (pin_count (frames s' ! i)) = count (G - {#?i#}) i" if "i < num_frames s" for i
  proof (cases "i = ?i")
    case True
    with pin1 show ?thesis by (simp add: rest)
  next
    case False
    with inv that show ?thesis by (simp add: pool_inv_def guards_ok_def rest frs1)
  qed
  have "frames_ok s'" "table_ok s'" "disk_side_ok s'"
    using inv data by (simp_all add: pool_inv_def frames_ok_def table_ok_def disk_side_ok_def rest frs1 del: set_append)
  moreover have "replacer_ok s'" using inv law f(1) by (auto simp: pool_inv_def replacer_ok_def rest)
  moreover have "guards_ok (G - {#?i#}) L s'"
  proof -
    have "set_mset (G - {#?i#}) \<subseteq> set_mset G" by (auto dest: in_diffD)
    moreover have "L \<subseteq> set_mset (G - {#?i#})"
      using inv free by (auto simp: pool_inv_def guards_ok_def count_greater_zero_iff [symmetric] simp del: count_greater_zero_iff)
    moreover have "h \<in> evictable_pages r" if "h \<in> snd ` set (page_table s)" "unat h \<notin># G - {#?i#}" for h
    proof (cases "unat h = ?i")
      case True
      then have "h = f" using f(2) by (simp add: unsigned_word_eqI)
      with True that(2) law f(2) show ?thesis by (simp add: last_def)
    next
      case False
      then have "unat h \<notin># G" using that(2) by (simp add: in_diff_count not_in_iff)
      with inv that(1) have "h \<in> evictable_pages (replacer s)" unfolding pool_inv_def guards_ok_def by blast
      with law show ?thesis by simp
    qed
    ultimately show ?thesis using inv pc data by (simp add: pool_inv_def guards_ok_def rest) (meson subset_trans)
  qed
  ultimately show "pool_inv (G - {#?i#}) L s'" by (simp add: pool_inv_def)
  show "pool_view s' = pool_view s" using data by (simp add: pool_view_def rest fun_eq_iff split: option.split)
  show "same_pool s s'" by (simp add: same_pool_def rest)
  show "unat (curr_size (replacer s')) \<le> unat (curr_size (replacer s)) + 1" using law by (simp add: rest)
qed

lemma guard_drop_total:
  assumes "unat (curr_size (replacer s)) + 1 < 2 ^ 32"
  shows "\<exists>s'. write_guard_drop g s = Inr s'"
proof -
  from set_evictable_total [OF assms] have "\<exists>r. set_evictable f (replacer s) = Inr r" for f .
  then obtain r where "\<And>f. set_evictable f (replacer s) = Inr (r f)" by metis
  then show ?thesis by (simp add: write_guard_drop_def Let_def)
qed

text \<open>The only panic of a drop is the overflow of \<open>curr_size\<close>.\<close>

lemma guard_drop_panics: "write_guard_drop g s = Inl e \<Longrightarrow> e = ArithOverflow \<and> unat (curr_size (replacer s)) + 1 = 2 ^ 32"
proof -
  assume run: "write_guard_drop g s = Inl e"
  have "\<not> unat (curr_size (replacer s)) + 1 < 2 ^ 32" using guard_drop_total [of s g] run by auto
  moreover have "unat (curr_size (replacer s)) < 2 ^ 32" using unsigned_less [of "curr_size (replacer s)", where ?'a = nat] by simp
  moreover have "e = ArithOverflow"
    using run by (auto simp: write_guard_drop_def Let_def set_evictable_def checked_add_def monad_simps split: if_splits)
  ultimately show ?thesis by linarith
qed

section \<open>Writing through a guard\<close>

text \<open>Replacing the bytes of a live, unborrowed guard's page changes that page and no other.\<close>

lemma write_bytes_inv:
  assumes inv: "pool_inv G L s" and e: "map_of (page_table s) p = Some f" and len: "length bs = PAGE_SIZE"
    and s': "s' = upd_frame (unat f) (\<lambda>fr. fr\<lparr>is_dirty := True, fh_data := bs\<rparr>) s"
  shows "pool_inv G L s'" and "pool_view s' = (pool_view s)(p \<mapsto> bs)" and "same_pool s s'"
    and "replacer s' = replacer s"
proof -
  note entry = pool_inv_entry [OF inv e]
  have frs: "frames s' = (frames s)[unat f := (frames s ! unat f)\<lparr>is_dirty := True, fh_data := bs\<rparr>]"
    by (simp add: s')
  have rest: "page_table s' = page_table s" "free_frames s' = free_frames s" "next_page_id s' = next_page_id s"
    "num_frames s' = num_frames s" "scheduler s' = scheduler s" "replacer s' = replacer s"
    by (simp_all add: s' upd_frame_def)
  have data: "fh_data (frames s' ! i) = (if i = unat f then bs else fh_data (frames s ! i))"
    "fh_id (frames s' ! i) = fh_id (frames s ! i)" "fh_lock (frames s' ! i) = fh_lock (frames s ! i)"
    "pin_count (frames s' ! i) = pin_count (frames s ! i)"
    "is_dirty (frames s' ! i) = (i = unat f \<or> is_dirty (frames s ! i))" for i
    using entry(2) by (cases "i = unat f"; simp add: frs)+
  have "length (frames s') = length (frames s)" by (simp add: s')
  then have "frames_ok s'" using inv len by (simp add: pool_inv_def frames_ok_def rest data)
  moreover have "table_ok s'" "replacer_ok s'" "guards_ok G L s'"
    using inv by (simp_all add: pool_inv_def table_ok_def replacer_ok_def guards_ok_def rest data del: set_append)
  moreover have "disk_side_ok s'"
    using inv unfolding pool_inv_def disk_side_ok_def rest by (auto simp: data)
  ultimately show "pool_inv G L s'" by (simp add: pool_inv_def)
  have "unat h = unat f \<longleftrightarrow> q = p" if "map_of (page_table s) q = Some h" for q h
    using pool_inv_table_inj [OF inv e, of q] that e by (auto simp: unsigned_word_eqI dest: unsigned_word_eqI)
  then show "pool_view s' = (pool_view s)(p \<mapsto> bs)"
    using e by (auto simp: pool_view_def rest data fun_eq_iff split: option.split)
  show "same_pool s s'" "replacer s' = replacer s" by (simp_all add: same_pool_def rest)
qed

lemma guard_view:
  assumes "pool_inv G L s" and "map_of (page_table s) p = Some f"
  shows "pool_view s p = Some (fh_data (frames s ! unat f))"
  using assms by (simp add: pool_view_def)

text \<open>The two block-scoped borrows on a guard of page \<open>p\<close>.\<close>

lemma with_data_guard:
  assumes inv: "pool_inv G L s" and e: "map_of (page_table s) p = Some f" and "unat f \<notin> L"
    and g: "g_frame g = unat f" and b: "pool_view s p = Some b"
  shows "with_data g k s = seq (k b) (\<lambda>x. Inr (x, s))"
proof -
  note entry = pool_inv_entry [OF inv e]
  have "fh_lock (frames s ! unat f) = Unlocked" using inv entry(1) assms(3) by (simp add: pool_inv_def guards_ok_def)
  with with_data_unlocked [of g s k] entry(2) g guard_view [OF inv e] b show ?thesis by simp
qed

lemma with_data_mut_guard:
  assumes inv: "pool_inv G L s" and e: "map_of (page_table s) p = Some f" and "unat f \<notin> L"
    and g: "g_frame g = unat f" and b: "pool_view s p = Some b" and k: "k b = Inr (x, bs)" and len: "length bs = PAGE_SIZE"
  shows "\<exists>s'. with_data_mut g k s = Inr (x, s') \<and> pool_inv G L s' \<and> pool_view s' = (pool_view s)(p \<mapsto> bs)
    \<and> same_pool s s' \<and> replacer s' = replacer s"
proof -
  note entry = pool_inv_entry [OF inv e]
  have "fh_lock (frames s ! unat f) = Unlocked" using inv entry(1) assms(3) by (simp add: pool_inv_def guards_ok_def)
  then have "with_data_mut g k s = Inr (x, upd_frame (unat f) (\<lambda>fr. fr\<lparr>is_dirty := True, fh_data := bs\<rparr>) s)"
    using with_data_mut_unlocked [of g s k] entry(2) g guard_view [OF inv e] b k by simp
  with write_bytes_inv [OF inv e len refl] show ?thesis by blast
qed

section \<open>Requests\<close>

lemma sched_parts:
  assumes "pool_inv G L s"
  shows "sched_ok (scheduler s)" "dom (sched_view (scheduler s)) = {p. p < next_page_id s}"
  using assms by (simp_all add: pool_inv_def disk_side_ok_def)

text \<open>\<open>new_page\<close>: the next id, a page of zeros, no frame.\<close>

lemma new_page_inv:
  assumes inv: "pool_inv G L s" and room: "unat (next_page_id s) + 1 < 2 ^ 32"
  shows "\<exists>s'. new_page s = Inr (next_page_id s, s') \<and> pool_inv G L s'
    \<and> pool_view s' = (pool_view s)(next_page_id s \<mapsto> replicate PAGE_SIZE 0) \<and> pool_view s (next_page_id s) = None
    \<and> next_page_id s' = next_page_id s + 1 \<and> page_table s' = page_table s \<and> free_frames s' = free_frames s
    \<and> num_frames s' = num_frames s \<and> replacer s' = replacer s"
proof -
  let ?p = "next_page_id s"
  have "length (replicate PAGE_SIZE (0 :: u8)) = PAGE_SIZE" by simp
  from sched_write_ok [OF sched_parts(1) [OF inv] this, of ?p] obtain sch where
    io: "disk_io ReqWrite ?p (replicate PAGE_SIZE 0) (scheduler s) = Inr (Some (replicate PAGE_SIZE 0), sch)" and
    sch: "sched_ok sch" "sched_view sch = (sched_view (scheduler s))(?p \<mapsto> replicate PAGE_SIZE 0)" by blast
  define s' where "s' = s\<lparr>next_page_id := ?p + 1, scheduler := sch\<rparr>"
  have run: "new_page s = Inr (?p, s')" by (simp add: new_page_def Let_def io s'_def)
  have succ: "q < ?p + 1 \<longleftrightarrow> q = ?p \<or> q < ?p" for q
    using room by (auto simp: word_less_nat_alt unat_word_ariths word_unat_eq_iff)
  have notin: "map_of (page_table s) ?p = None"
    using pool_inv_entry(4) [OF inv, of ?p] by (cases "map_of (page_table s) ?p") auto
  have "disk_side_ok s'"
    using inv sch succ unfolding pool_inv_def disk_side_ok_def s'_def by force
  then have inv': "pool_inv G L s'"
    using inv by (simp add: pool_inv_def frames_ok_def table_ok_def replacer_ok_def guards_ok_def s'_def)
  have "pool_view s ?p = None" using pool_view_dom [OF inv] by (auto simp: dom_def)
  moreover have "pool_view s' = (pool_view s)(?p \<mapsto> replicate PAGE_SIZE 0)"
    using notin by (simp add: pool_view_def s'_def sch(2) fun_eq_iff split: option.split)
  ultimately show ?thesis using run inv' by (simp add: s'_def)
qed

text \<open>Loading a page into a frame off the free list and pinning it. The replacer may refuse the
  access with its arithmetic panic; then so does the request.\<close>

lemma free_frame_facts:
  assumes inv: "pool_inv G L s" and free: "free_frames s = fs @ [f]"
  shows "unat f < num_frames s" "f \<notin> snd ` set (page_table s)" "unat f \<notin># G" "unat f \<notin> L"
    "unat f < length (frames s)" "pin_count (frames s ! unat f) = 0" "fh_lock (frames s ! unat f) = Unlocked"
    "fh_id (frames s ! unat f) = f" "length (fh_data (frames s ! unat f)) = PAGE_SIZE" "f \<notin> fst ` tracked (replacer s)"
proof -
  have "f \<in> set (map snd (page_table s) @ free_frames s)" using free by simp
  then have "unat f \<in> unat ` set (map snd (page_table s) @ free_frames s)" by (rule imageI)
  then show n: "unat f < num_frames s" using inv by (simp add: pool_inv_def table_ok_def)
  show nt: "f \<notin> snd ` set (page_table s)" using inv free by (auto simp: pool_inv_def table_ok_def)
  have "set_mset G \<subseteq> unat ` snd ` set (page_table s)" using inv by (simp add: pool_inv_def guards_ok_def)
  with nt show g: "unat f \<notin># G" by (auto dest!: subsetD dest: unsigned_word_eqI)
  then show l: "unat f \<notin> L" using inv by (auto simp: pool_inv_def guards_ok_def)
  show "unat f < length (frames s)" "fh_id (frames s ! unat f) = f"
    "length (fh_data (frames s ! unat f)) = PAGE_SIZE"
    using inv n by (simp_all add: pool_inv_def frames_ok_def)
  have "unat (pin_count (frames s ! unat f)) = 0" using inv n g by (simp add: pool_inv_def guards_ok_def not_in_iff)
  then show "pin_count (frames s ! unat f) = 0" by (simp add: unat_eq_0)
  show "fh_lock (frames s ! unat f) = Unlocked" using inv n l by (simp add: pool_inv_def guards_ok_def)
  have "fst ` tracked (replacer s) = snd ` set (page_table s)"
    using inv by (simp add: pool_inv_def replacer_ok_def image_image)
  with nt show "f \<notin> fst ` tracked (replacer s)" by simp
qed

lemma load_page_run:
  assumes inv: "pool_inv G L s" and free: "free_frames s = fs @ [f]" and miss: "map_of (page_table s) p = None"
    and b: "pool_view s p = Some b"
  shows "\<exists>sch. load_page p f (s\<lparr>free_frames := fs\<rparr>) = Inr (s\<lparr>free_frames := fs, scheduler := sch,
       frames := (frames s)[unat f := (frames s ! unat f)\<lparr>fh_data := b\<rparr>], page_table := page_table s @ [(p, f)]\<rparr>)
     \<and> sched_ok sch \<and> sched_view sch = sched_view (scheduler s)"
proof -
  note ff = free_frame_facts [OF inv free]
  have "sched_view (scheduler s) p = Some b" using b miss by (simp add: pool_view_def)
  from sched_read_ok [OF sched_parts(1) [OF inv] this] obtain sch where
    io: "disk_io ReqRead p (replicate PAGE_SIZE 0) (scheduler s) = Inr (Some b, sch)"
    and sch: "sched_ok sch" "sched_view sch = sched_view (scheduler s)" by blast
  have upd: "AList.update p f (page_table s) = page_table s @ [(p, f)]"
    using miss by (intro set_update_new) (simp add: map_of_eq_None_iff)
  show ?thesis
    using sch ff pool_view_length [OF inv b] by (intro exI [of _ sch]) (simp add: load_page_def io upd)
qed

lemma fetch_free_inv:
  assumes inv: "pool_inv G L s" and free: "free_frames s = fs @ [f]" and miss: "map_of (page_table s) p = None"
    and b: "pool_view s p = Some b" and small: "size G + 1 < 2 ^ 64"
    and run: "seq (load_page p f (s\<lparr>free_frames := fs\<rparr>)) (write_guard_new p (unat f)) = Inr (g, s')"
  shows "pool_inv (add_mset (unat f) G) L s'" and "pool_view s' = pool_view s"
    and "g = \<lparr>g_page_id = p, g_frame = unat f, g_valid = True\<rparr>"
    and "page_table s' = page_table s @ [(p, f)]" and "free_frames s' = fs"
    and "next_page_id s' = next_page_id s" and "num_frames s' = num_frames s"
    and "curr_size (replacer s') = curr_size (replacer s)"
    and "record_access f p (replacer s) = Inr (replacer s')"
proof -
  note ff = free_frame_facts [OF inv free]
  from load_page_run [OF inv free miss b] obtain sch where
    load: "load_page p f (s\<lparr>free_frames := fs\<rparr>) = Inr (s\<lparr>free_frames := fs, scheduler := sch,
       frames := (frames s)[unat f := (frames s ! unat f)\<lparr>fh_data := b\<rparr>], page_table := page_table s @ [(p, f)]\<rparr>)"
    and sch: "sched_ok sch" "sched_view sch = sched_view (scheduler s)" by blast
  from run load ff(5,8) obtain r where r: "record_access f p (replacer s) = Inr r"
    and s': "s' = s\<lparr>free_frames := fs, scheduler := sch, frames := (frames s)[unat f := pin ((frames s ! unat f)\<lparr>fh_data := b\<rparr>)],
       page_table := page_table s @ [(p, f)], replacer := r\<rparr>"
    and g: "g = \<lparr>g_page_id = p, g_frame = unat f, g_valid = True\<rparr>"
    by (auto simp: write_guard_new_def upd_frame_def pin_def monad_simps)
  have blen: "length b = PAGE_SIZE" using inv b by (rule pool_view_length)
  have pnew: "p \<notin> fst ` set (page_table s)" using miss by (simp add: map_of_eq_None_iff)
  have plt: "p < next_page_id s" using pool_view_dom [OF inv] b by (auto simp: dom_def)
  have rep: "arc_inv (replacer s)" "replacer_size (replacer s) = num_frames s"
    "tracked (replacer s) = prod.swap ` set (page_table s)" "evictable_pages (replacer s) \<subseteq> snd ` set (page_table s)"
    using inv by (simp_all add: pool_inv_def replacer_ok_def)
  have "snd ` tracked (replacer s) = fst ` set (page_table s)" by (simp add: rep(3) image_image)
  then have "access_ok f p (replacer s)" using ff(1,10) pnew rep(2) by (simp add: access_ok_def)
  note law = record_access_law [OF rep(1) this r]
  have rest: "page_table s' = page_table s @ [(p, f)]" "free_frames s' = fs" "next_page_id s' = next_page_id s"
    "num_frames s' = num_frames s" "scheduler s' = sch" "replacer s' = r" by (simp_all add: s')
  have data: "fh_data (frames s' ! i) = (if i = unat f then b else fh_data (frames s ! i))"
    "fh_id (frames s' ! i) = fh_id (frames s ! i)" "fh_lock (frames s' ! i) = fh_lock (frames s ! i)"
    "is_dirty (frames s' ! i) = is_dirty (frames s ! i)" for i
    using ff(5) by (cases "i = unat f"; simp add: s' pin_def)+
  have pc: "unat (pin_count (frames s' ! i)) = count (add_mset (unat f) G) i" if "i < num_frames s" for i
  proof (cases "i = unat f")
    case True
    then show ?thesis using ff(3,5,6) by (simp add: s' pin_def not_in_iff)
  next
    case False
    with inv that show ?thesis by (simp add: pool_inv_def guards_ok_def s')
  qed
  have old: "unat h \<noteq> unat f" if "(q, h) \<in> set (page_table s)" for q h
    using that ff(2) by (force dest: unsigned_word_eqI)
  have "length (frames s') = length (frames s)" by (simp add: s')
  then have "frames_ok s'" using inv blen by (simp add: pool_inv_def frames_ok_def rest data)
  moreover have "table_ok s'"
    using inv pnew ff(2) free by (auto simp: pool_inv_def table_ok_def rest)
  moreover have "replacer_ok s'" using law rep by (auto simp: replacer_ok_def rest)
  moreover have "disk_side_ok s'"
  proof -
    have "sched_view (scheduler s) p = Some b" using b miss by (simp add: pool_view_def)
    then show ?thesis using inv sch plt old unfolding pool_inv_def disk_side_ok_def rest by (force simp: data)
  qed
  moreover have "guards_ok (add_mset (unat f) G) L s'"
  proof -
    have "set_mset (add_mset (unat f) G) \<subseteq> unat ` snd ` set (page_table s')"
      using inv by (auto simp: pool_inv_def guards_ok_def rest)
    moreover have "L \<subseteq> set_mset (add_mset (unat f) G)" using inv by (auto simp: pool_inv_def guards_ok_def)
    moreover have "h \<in> evictable_pages r" if "h \<in> snd ` set (page_table s')" "unat h \<notin># add_mset (unat f) G" for h
      using that inv law unfolding pool_inv_def guards_ok_def rest by auto
    moreover have "fh_lock (frames s ! i) = (if i \<in> L then Writer else Unlocked)" "i \<in> L \<Longrightarrow> is_dirty (frames s ! i)"
      if "i < num_frames s" for i using that inv by (simp_all add: pool_inv_def guards_ok_def)
    ultimately show ?thesis using pc unfolding guards_ok_def by (simp add: rest data)
  qed
  ultimately show "pool_inv (add_mset (unat f) G) L s'" by (simp add: pool_inv_def)
  show "pool_view s' = pool_view s"
  proof
    fix q
    show "pool_view s' q = pool_view s q"
    proof (cases "map_of (page_table s) q")
      case None
      then show ?thesis using b sch(2) by (auto simp: pool_view_def rest data map_add_def)
    next
      case (Some h)
      with old [OF map_of_SomeD [OF Some]] show ?thesis by (simp add: pool_view_def rest data map_add_def)
    qed
  qed
  show "g = \<lparr>g_page_id = p, g_frame = unat f, g_valid = True\<rparr>" by (rule g)
  show "page_table s' = page_table s @ [(p, f)]" "free_frames s' = fs" "next_page_id s' = next_page_id s"
    "num_frames s' = num_frames s" by (simp_all add: rest)
  show "curr_size (replacer s') = curr_size (replacer s)" using law by (simp add: rest)
  show "record_access f p (replacer s) = Inr (replacer s')" by (simp add: r rest)
qed

text \<open>Eviction. The policy only looks at its own candidate set, so the frame it returns is unpinned
  provided every candidate is; the pool does not check.\<close>

lemma find_frame:
  assumes "distinct (map snd ps)" and "(q, f) \<in> set ps"
  shows "find (\<lambda>e. snd e = f) ps = Some (q, f)"
  using assms by (induction ps) (auto simp: image_iff)

lemma victim_exists:
  assumes inv: "pool_inv G L s" and cand: "evictable_pages (replacer s) \<noteq> {}"
  obtains v where "favoured_victim (replacer s) = Some v" and "fst v \<in> evictable_pages (replacer s)"
proof -
  have rep: "arc_inv (replacer s)" "tracked (replacer s) = prod.swap ` set (page_table s)"
    "evictable_pages (replacer s) \<subseteq> snd ` set (page_table s)"
    using inv by (simp_all add: pool_inv_def replacer_ok_def)
  have "fst ` tracked (replacer s) = snd ` set (page_table s)" by (simp add: rep(2) image_image)
  with cand rep(3) have "fst ` tracked (replacer s) \<inter> evictable_pages (replacer s) \<noteq> {}" by auto
  with evict_result [OF rep(1)] obtain f r where "evict (replacer s) = Inr (Some f, r)" unfolding takes_victim_def by blast
  then have "map_option fst (favoured_victim (replacer s)) = Some f" using evict_is_favoured by metis
  then obtain v where "favoured_victim (replacer s) = Some v" by auto
  with that favoured_victim_tracked show ?thesis by blast
qed

lemma evict_frame_run:
  assumes inv: "pool_inv G L s" and vic: "favoured_victim (replacer s) = Some v" and unlocked: "unat (fst v) \<notin> L"
  obtains q f r sch where "f = fst v" and "evict (replacer s) = Inr (Some f, r)" and "map_of (page_table s) q = Some f"
    and "f \<in> evictable_pages (replacer s)" and "arc_inv r" and "replacer_size r = replacer_size (replacer s)"
    and "tracked r = tracked (replacer s) - {(f, q)}" and "evictable_pages r = evictable_pages (replacer s) - {f}"
    and "evict_frame s = Inr (s\<lparr>replacer := r, free_frames := free_frames s @ [f],
      page_table := AList.delete q (page_table s), scheduler := sch,
      frames := (frames s)[unat f := (frames s ! unat f)\<lparr>fh_data := replicate PAGE_SIZE 0, pin_count := 0, is_dirty := False\<rparr>]\<rparr>)"
    and "sched_ok sch" and "sched_view sch = (sched_view (scheduler s))(q \<mapsto> fh_data (frames s ! unat f))"
proof -
  have rep: "arc_inv (replacer s)" "tracked (replacer s) = prod.swap ` set (page_table s)"
    "evictable_pages (replacer s) \<subseteq> snd ` set (page_table s)"
    using inv by (simp_all add: pool_inv_def replacer_ok_def)
  have "fst v \<in> evictable_pages (replacer s)" "v \<in> tracked (replacer s)" using favoured_victim_tracked [OF vic] by simp_all
  then have "fst ` tracked (replacer s) \<inter> evictable_pages (replacer s) \<noteq> {}" by blast
  with evict_result [OF rep(1)] have "takes_victim (replacer s) (evict (replacer s))" by blast
  then obtain f q r where ev: "evict (replacer s) = Inr (Some f, r)" and f: "f \<in> evictable_pages (replacer s)"
    and q: "(f, q) \<in> tracked (replacer s)" and r: "arc_inv r" "tracked r = tracked (replacer s) - {(f, q)}"
      "evictable_pages r = evictable_pages (replacer s) - {f}" "replacer_size r = replacer_size (replacer s)"
    unfolding takes_victim_def by blast
  have fv: "f = fst v" using evict_is_favoured [OF ev] vic by simp
  have mem: "(q, f) \<in> set (page_table s)" using q rep(2) by auto
  have tab: "distinct (map fst (page_table s))" "distinct (map snd (page_table s))"
    using inv by (simp_all add: pool_inv_def table_ok_def)
  have e: "map_of (page_table s) q = Some f" using mem tab(1) by simp
  note entry = pool_inv_entry [OF inv e]
  have "unat f \<notin> L" using unlocked fv by simp
  then have lk: "fh_lock (frames s ! unat f) = Unlocked" using inv entry(1) by (simp add: pool_inv_def guards_ok_def)
  from sched_write_ok [OF sched_parts(1) [OF inv] entry(7), of q] obtain sch where
    io: "disk_io ReqWrite q (fh_data (frames s ! unat f)) (scheduler s) = Inr (Some (fh_data (frames s ! unat f)), sch)"
    and sch: "sched_ok sch" "sched_view sch = (sched_view (scheduler s))(q \<mapsto> fh_data (frames s ! unat f))" by blast
  have run: "evict_frame s = Inr (s\<lparr>replacer := r, free_frames := free_frames s @ [f],
      page_table := AList.delete q (page_table s), scheduler := sch,
      frames := (frames s)[unat f := (frames s ! unat f)\<lparr>fh_data := replicate PAGE_SIZE 0, pin_count := 0, is_dirty := False\<rparr>]\<rparr>)"
    using ev entry(2,7) lk io find_frame [OF tab(2) mem]
    by (simp add: evict_frame_def Let_def)
  show ?thesis by (rule that [OF fv ev e f r(1,4,2,3) run sch])
qed


lemma evict_frame_inv:
  assumes inv: "pool_inv G L s" and vic: "favoured_victim (replacer s) = Some v" and unpinned: "unat (fst v) \<notin># G"
  obtains q f r s' where "f = fst v" and "evict (replacer s) = Inr (Some f, r)" and "replacer s' = r" and "evict_frame s = Inr s'" and "pool_inv G L s'" and "pool_view s' = pool_view s"
    and "free_frames s' = free_frames s @ [f]" and "map_of (page_table s) q = Some f"
    and "page_table s' = AList.delete q (page_table s)" and "f \<in> evictable_pages (replacer s)"
    and "evictable_pages (replacer s') = evictable_pages (replacer s) - {f}"
    and "next_page_id s' = next_page_id s" and "num_frames s' = num_frames s"
    and "unat (curr_size (replacer s')) \<le> unat (curr_size (replacer s))"
proof -
  have "L \<subseteq> set_mset G" using inv by (simp add: pool_inv_def guards_ok_def)
  then have "unat (fst v) \<notin> L" using unpinned by blast
  from evict_frame_run [OF inv vic this] obtain q f r sch where fv: "f = fst v" and ev: "evict (replacer s) = Inr (Some f, r)"
    and e: "map_of (page_table s) q = Some f" and f: "f \<in> evictable_pages (replacer s)"
    and r: "arc_inv r" "replacer_size r = replacer_size (replacer s)"
      "tracked r = tracked (replacer s) - {(f, q)}" "evictable_pages r = evictable_pages (replacer s) - {f}"
    and run: "evict_frame s = Inr (s\<lparr>replacer := r, free_frames := free_frames s @ [f],
      page_table := AList.delete q (page_table s), scheduler := sch,
      frames := (frames s)[unat f := (frames s ! unat f)\<lparr>fh_data := replicate PAGE_SIZE 0, pin_count := 0, is_dirty := False\<rparr>]\<rparr>)"
    and sch: "sched_ok sch" "sched_view sch = (sched_view (scheduler s))(q \<mapsto> fh_data (frames s ! unat f))" .
  define s' where "s' = s\<lparr>replacer := r, free_frames := free_frames s @ [f],
      page_table := AList.delete q (page_table s), scheduler := sch,
      frames := (frames s)[unat f := (frames s ! unat f)\<lparr>fh_data := replicate PAGE_SIZE 0, pin_count := 0, is_dirty := False\<rparr>]\<rparr>"
  note entry = pool_inv_entry [OF inv e]
  have ng: "unat f \<notin># G" using unpinned fv by simp
  have rest: "page_table s' = AList.delete q (page_table s)" "free_frames s' = free_frames s @ [f]"
    "next_page_id s' = next_page_id s" "num_frames s' = num_frames s" "scheduler s' = sch" "replacer s' = r"
    by (simp_all add: s'_def)
  have tab: "distinct (map fst (page_table s))" "distinct (map snd (page_table s))"
    using inv by (simp_all add: pool_inv_def table_ok_def)
  have mem: "(q, f) \<in> set (page_table s)" using e by (rule map_of_SomeD)
  have uq: "b = f" if "(q, b) \<in> set (page_table s)" for b
    using map_of_is_SomeI [OF tab(1) that] e by simp
  have up: "p = q" if "(p, f) \<in> set (page_table s)" for p
    using pool_inv_table_inj [OF inv map_of_is_SomeI [OF tab(1) that] e] .
  have set': "set (page_table s') = set (page_table s) - {(q, f)}"
  proof -
    have "fst x \<noteq> q \<longleftrightarrow> x \<noteq> (q, f)" if "x \<in> set (page_table s)" for x
      using that uq [of "snd x"] by (cases x) auto
    then show ?thesis unfolding rest set_delete by blast
  qed
  have other: "unat h \<noteq> unat f" if "(p, h) \<in> set (page_table s')" for p h
  proof
    assume "unat h = unat f"
    then have "h = f" by (rule unsigned_word_eqI)
    with that have "(p, f) \<in> set (page_table s)" "p \<noteq> q" unfolding set' by auto
    with up show False by blast
  qed
  have data: "fh_data (frames s' ! i) = (if i = unat f then replicate PAGE_SIZE 0 else fh_data (frames s ! i))"
    "fh_id (frames s' ! i) = fh_id (frames s ! i)" "fh_lock (frames s' ! i) = fh_lock (frames s ! i)"
    "is_dirty (frames s' ! i) = (i \<noteq> unat f \<and> is_dirty (frames s ! i))"
    "pin_count (frames s' ! i) = (if i = unat f then 0 else pin_count (frames s ! i))" for i
    using entry(2) by (cases "i = unat f"; simp add: s'_def)+
  have "length (frames s') = length (frames s)" by (simp add: s'_def)
  then have "frames_ok s'" using inv by (simp add: pool_inv_def frames_ok_def rest data)
  moreover have "table_ok s'"
  proof -
    have "mset (page_table s) = add_mset (q, f) (mset (page_table s'))"
      using mset_delete [OF tab(1) e] by (simp add: rest)
    then have "mset (map snd (page_table s) @ free_frames s) = mset (map snd (page_table s') @ free_frames s')"
      by (simp add: rest)
    note perm = distinct_mset_cong [OF this]
    have "distinct (map fst (page_table s'))" using tab(1) by (simp add: rest distinct_delete)
    with perm show ?thesis using inv unfolding pool_inv_def table_ok_def rest by simp
  qed
  moreover have "replacer_ok s'"
  proof -
    have "tracked r = prod.swap ` set (page_table s')"
      using inv unfolding set' r(3) by (auto simp: pool_inv_def replacer_ok_def)
    moreover have "evictable_pages r \<subseteq> snd ` set (page_table s')"
      using inv unfolding set' r(4) pool_inv_def replacer_ok_def by fastforce
    ultimately show ?thesis using inv r by (simp add: pool_inv_def replacer_ok_def rest)
  qed
  moreover have "disk_side_ok s'"
  proof -
    have pre: "dom (sched_view (scheduler s)) = {p. p < next_page_id s}" "fst ` set (page_table s) \<subseteq> {p. p < next_page_id s}"
      "\<forall>(p, f) \<in> set (page_table s). \<not> is_dirty (frames s ! unat f) \<longrightarrow> sched_view (scheduler s) p = Some (fh_data (frames s ! unat f))"
      using inv by (simp_all add: pool_inv_def disk_side_ok_def)
    have "dom (sched_view sch) = {p. p < next_page_id s}" using pre(1) entry(4) by (auto simp: sch(2) dom_def)
    moreover have "fst ` set (page_table s') \<subseteq> {p. p < next_page_id s}" using pre(2) unfolding set' by blast
    moreover have "sched_view sch p = Some (fh_data (frames s' ! unat h))"
      if m: "(p, h) \<in> set (page_table s')" and d: "\<not> is_dirty (frames s' ! unat h)" for p h
    proof -
      from m have m': "(p, h) \<in> set (page_table s)" "(p, h) \<noteq> (q, f)" unfolding set' by blast+
      with uq have "p \<noteq> q" by blast
      moreover have "unat h \<noteq> unat f" using other [OF m] .
      moreover have "\<not> is_dirty (frames s ! unat h)" using d other [OF m] by (simp add: data)
      ultimately show ?thesis using pre(3) m'(1) by (auto simp: sch(2) data)
    qed
    ultimately show ?thesis using sch(1) unfolding disk_side_ok_def rest(3,5) by blast
  qed
  moreover have "guards_ok G L s'"
  proof -
    have "i \<noteq> unat f" if "i \<in># G" for i using that ng by auto
    then have "set_mset G \<subseteq> unat ` snd ` set (page_table s')"
      using inv unfolding set' pool_inv_def guards_ok_def by fastforce
    moreover have "h \<in> evictable_pages r" if h: "h \<in> snd ` set (page_table s')" "unat h \<notin># G" for h
    proof -
      from h(1) have "h \<in> snd ` set (page_table s)" unfolding set' by blast
      then have "h \<in> evictable_pages (replacer s)" using inv h(2) unfolding pool_inv_def guards_ok_def by blast
      moreover have "h \<noteq> f" using h(1) other by fastforce
      ultimately show ?thesis by (simp add: r(4))
    qed
    moreover have "unat (pin_count (frames s' ! i)) = count G i" "fh_lock (frames s' ! i) = (if i \<in> L then Writer else Unlocked)"
      if "i < num_frames s" for i
      using that inv ng by (simp_all add: data pool_inv_def guards_ok_def not_in_iff)
    moreover have sub: "L \<subseteq> set_mset G" using inv by (simp add: pool_inv_def guards_ok_def)
    moreover have "is_dirty (frames s' ! i)" if "i < num_frames s" "i \<in> L" for i
      using that inv ng sub by (auto simp: data pool_inv_def guards_ok_def)
    ultimately show ?thesis unfolding guards_ok_def rest(4,6) by simp
  qed
  ultimately have inv': "pool_inv G L s'" by (simp add: pool_inv_def)
  have view: "pool_view s' = pool_view s"
  proof
    fix p
    show "pool_view s' p = pool_view s p"
    proof (cases "p = q")
      case True
      then show ?thesis using e by (simp add: pool_view_def rest sch)
    next
      case False
      then have "map_of (page_table s') p = map_of (page_table s) p" by (simp add: rest)
      then show ?thesis using False other [OF map_of_SomeD]
        by (auto simp: pool_view_def rest(5) sch data split: option.split)
    qed
  qed
  have "unat (curr_size r) \<le> unat (curr_size (replacer s))" using evict_curr_size [OF ev] by linarith
  moreover have "evict_frame s = Inr s'" using run by (simp add: s'_def)
  moreover have "evictable_pages (replacer s') = evictable_pages (replacer s) - {f}" by (simp add: rest r(4))
  ultimately show ?thesis using that [OF fv ev rest(6) _ inv' view rest(2) e rest(1) f] rest(3,4,6) by simp
qed

section \<open>The two page requests\<close>

text \<open>When a request finds a frame it may take: the page has one, one is free, or the policy has a victim
  that is not pinned.\<close>

definition can_fetch :: "nat multiset \<Rightarrow> page_id \<Rightarrow> bpm \<Rightarrow> bool" where
  "can_fetch G p s \<longleftrightarrow> map_of (page_table s) p \<noteq> None \<or> free_frames s \<noteq> []
     \<or> (case favoured_victim (replacer s) of None \<Rightarrow> False | Some v \<Rightarrow> unat (fst v) \<notin># G)"

text \<open>The frames of live guards keep their pages.\<close>

definition keeps_pinned :: "nat multiset \<Rightarrow> bpm \<Rightarrow> bpm \<Rightarrow> bool" where
  "keeps_pinned G s s' \<longleftrightarrow>
     (\<forall>q f. map_of (page_table s) q = Some f \<longrightarrow> unat f \<in># G \<longrightarrow> map_of (page_table s') q = Some f)"

lemma write_guard_new_panic:
  assumes "write_guard_new p i s = Inl e" and "i < length (frames s)" and "arc_inv (replacer s)"
  shows "e = ArithOverflow \<and> p \<in> set (mfu_ghost (replacer s))"
proof -
  have "record_access (fh_id (frames s ! i)) p (replacer s) = Inl e"
    using assms(1,2) by (simp add: write_guard_new_def seq_Inl_iff pin_def)
  with record_access_panics [OF assms(3)] show ?thesis by blast
qed

lemma evict_frame_stage:
  assumes inv: "pool_inv G L s" and miss: "map_of (page_table s) p = None" and full: "free_frames s = []"
    and cf: "can_fetch G p s"
  obtains f s1 where "evict_frame s = Inr s1" and "pool_inv G L s1" and "pool_view s1 = pool_view s"
    and "free_frames s1 = [] @ [f]" and "map_of (page_table s1) p = None" and "keeps_pinned G s s1"
    and "next_page_id s1 = next_page_id s" and "num_frames s1 = num_frames s"
    and "unat (curr_size (replacer s1)) \<le> unat (curr_size (replacer s))"
proof -
  obtain v where c: "favoured_victim (replacer s) = Some v" "unat (fst v) \<notin># G"
    using cf miss full by (auto simp: can_fetch_def split: option.splits)
  from evict_frame_inv [OF inv c] obtain q f s1 where fv: "f = fst v" and
    s1: "evict_frame s = Inr s1" "pool_inv G L s1" "pool_view s1 = pool_view s" "free_frames s1 = free_frames s @ [f]"
      "next_page_id s1 = next_page_id s" "num_frames s1 = num_frames s"
      "unat (curr_size (replacer s1)) \<le> unat (curr_size (replacer s))"
    and q: "map_of (page_table s) q = Some f" "page_table s1 = AList.delete q (page_table s)"
      "f \<in> evictable_pages (replacer s)" .
  have "keeps_pinned G s s1" using q c(2) fv by (auto simp: keeps_pinned_def)
  moreover have "map_of (page_table s1) p = None" using miss q(2) by simp
  ultimately show ?thesis using that [of s1 f] s1 full by simp
qed

lemma fetch_free_kept:
  assumes "page_table s' = page_table s @ [(p, f)]" and "map_of (page_table s) p = None"
  shows "keeps_pinned G s s'" and "map_of (page_table s') p = Some f"
  using assms by (auto simp: keeps_pinned_def map_add_def split: option.splits)

lemma pop_free_snoc: "free_frames s = fs @ [f] \<Longrightarrow> pop_free_frame s = Inr (f, s\<lparr>free_frames := fs\<rparr>)"
  by (simp add: pop_free_frame_def)

text \<open>A request that returns gives a guard on the page, and changes nothing a client can see.\<close>

lemma check_write_inv:
  assumes inv: "pool_inv G L s" and b: "pool_view s p = Some b" and small: "size G + 1 < 2 ^ 64"
    and cf: "can_fetch G p s" and run: "check_write_page p s = Inr (g, s')"
  obtains f where "pool_inv (add_mset (unat f) G) L s'" and "pool_view s' = pool_view s"
    and "g = \<lparr>g_page_id = p, g_frame = unat f, g_valid = True\<rparr>" and "map_of (page_table s') p = Some f"
    and "keeps_pinned G s s'" and "next_page_id s' = next_page_id s" and "num_frames s' = num_frames s"
    and "unat (curr_size (replacer s')) \<le> unat (curr_size (replacer s))"
proof -
  note goal = that
  show ?thesis
  proof (cases "map_of (page_table s) p")
    case (Some f)
    note entry = pool_inv_entry [OF inv Some]
    have run': "write_guard_new p (unat f) s = Inr (g, s')" using run Some entry(2) by (simp add: check_write_page_def)
    from guard_new_inv [OF inv Some small run'] goal [of f] Some show ?thesis
      by (simp add: same_pool_def keeps_pinned_def)
  next
    case None
    have fetch: thesis if inv1: "pool_inv G L s1" and v1: "pool_view s1 = pool_view s"
      and free: "free_frames s1 = fs @ [f]" and miss: "map_of (page_table s1) p = None" and kp: "keeps_pinned G s s1"
      and eqs: "next_page_id s1 = next_page_id s" "num_frames s1 = num_frames s"
        "unat (curr_size (replacer s1)) \<le> unat (curr_size (replacer s))"
      and run1: "seq (load_page p f (s1\<lparr>free_frames := fs\<rparr>)) (write_guard_new p (unat f)) = Inr (g, s')" for fs f s1
    proof -
      have "pool_view s1 p = Some b" using b v1 by simp
      note F = fetch_free_inv [OF inv1 free miss this small run1]
      note K = fetch_free_kept(1) [OF F(4) miss] fetch_free_kept(2) [OF F(4) miss]
      have "keeps_pinned G s s'" using kp K(1) by (simp add: keeps_pinned_def)
      with F K(2) v1 eqs goal [of f] show ?thesis by simp
    qed
    show ?thesis
    proof (cases "free_frames s" rule: rev_cases)
      case (snoc fs f)
      with run None have "seq (load_page p f (s\<lparr>free_frames := fs\<rparr>)) (write_guard_new p (unat f)) = Inr (g, s')"
        by (simp add: check_write_page_def pop_free_snoc)
      then show ?thesis by (intro fetch [OF inv refl snoc None]) (simp_all add: keeps_pinned_def)
    next
      case Nil
      from evict_frame_stage [OF inv None Nil cf] obtain f s1 where
        ev: "evict_frame s = Inr s1" and s1: "pool_inv G L s1" "pool_view s1 = pool_view s"
          "free_frames s1 = [] @ [f]" "map_of (page_table s1) p = None" "keeps_pinned G s s1"
          "next_page_id s1 = next_page_id s" "num_frames s1 = num_frames s"
          "unat (curr_size (replacer s1)) \<le> unat (curr_size (replacer s))" .
      have "seq (load_page p f (s1\<lparr>free_frames := []\<rparr>)) (write_guard_new p (unat f)) = Inr (g, s')"
        using run None Nil ev pop_free_snoc [OF s1(3)] by (simp add: check_write_page_def)
      then show ?thesis by (rule fetch [OF s1])
    qed
  qed
qed

text \<open>The only panic of a request that can find a frame is the arithmetic one of the policy.\<close>

lemma check_write_panic:
  assumes inv: "pool_inv G L s" and b: "pool_view s p = Some b"
    and cf: "can_fetch G p s" and run: "check_write_page p s = Inl e"
  shows "e = ArithOverflow"
proof (cases "map_of (page_table s) p")
  case (Some f)
  note entry = pool_inv_entry [OF inv Some]
  have "write_guard_new p (unat f) s = Inl e" using run Some entry(2) by (simp add: check_write_page_def)
  with guard_new_total [OF inv Some] show ?thesis by auto
next
  case None
  have fetch: ?thesis if inv1: "pool_inv G L s1" and v1: "pool_view s1 = pool_view s"
    and free: "free_frames s1 = fs @ [f]" and miss: "map_of (page_table s1) p = None"
    and run1: "seq (load_page p f (s1\<lparr>free_frames := fs\<rparr>)) (write_guard_new p (unat f)) = Inl e" for fs f s1
  proof -
    have "pool_view s1 p = Some b" using b v1 by simp
    from load_page_run [OF inv1 free miss this] obtain sch where
      load: "load_page p f (s1\<lparr>free_frames := fs\<rparr>) = Inr (s1\<lparr>free_frames := fs, scheduler := sch,
         frames := (frames s1)[unat f := (frames s1 ! unat f)\<lparr>fh_data := b\<rparr>], page_table := page_table s1 @ [(p, f)]\<rparr>)"
      (is "_ = Inr ?s2") by blast
    with run1 have "write_guard_new p (unat f) ?s2 = Inl e" by simp
    with write_guard_new_panic [of p "unat f" ?s2 e] free_frame_facts(5) [OF inv1 free] inv1
    show ?thesis by (simp add: pool_inv_def replacer_ok_def)
  qed
  show ?thesis
  proof (cases "free_frames s" rule: rev_cases)
    case (snoc fs f)
    with run None have "seq (load_page p f (s\<lparr>free_frames := fs\<rparr>)) (write_guard_new p (unat f)) = Inl e"
      by (simp add: check_write_page_def pop_free_snoc)
    then show ?thesis by (rule fetch [OF inv refl snoc None])
  next
    case Nil
    from evict_frame_stage [OF inv None Nil cf] obtain f s1 where
      ev: "evict_frame s = Inr s1" and s1: "pool_inv G L s1" "pool_view s1 = pool_view s"
        "free_frames s1 = [] @ [f]" "map_of (page_table s1) p = None" by blast
    have "seq (load_page p f (s1\<lparr>free_frames := []\<rparr>)) (write_guard_new p (unat f)) = Inl e"
      using run None Nil ev pop_free_snoc [OF s1(3)] by (simp add: check_write_page_def)
    then show ?thesis by (rule fetch [OF s1])
  qed
qed

text \<open>A request that evicts is the request in the pool after the eviction.\<close>

lemma request_evicts:
  assumes "map_of (page_table s) p = None" and "free_frames s = []" and "evict_frame s = Inr s'"
    and "map_of (page_table s') p = None" and "free_frames s' \<noteq> []"
  shows "check_write_page p s = check_write_page p s'"
  unfolding check_write_page_def using assms by simp

end
