(* ===== verification/PoolClient.thy ===== *)
theory PoolClient
  imports BufferPool
begin

text \<open>
  What a client of the buffer pool gets: flushing, the pool as a page device with evictions, the case
  in which every page has a frame and nothing can fail, and the properties of the pool.
\<close>

section \<open>Flushing\<close>

text \<open>Flushing through a live guard writes the page's bytes to the disk, which then agrees with the
  pool on that page; the answer tells whether the frame was dirty.\<close>

lemma guard_flush_inv:
  assumes inv: "pool_inv G L s" and e: "map_of (page_table s) p = Some f" and free: "unat f \<notin> L"
    and g: "g = \<lparr>g_page_id = p, g_frame = unat f, g_valid = True\<rparr>"
  obtains s' where "write_guard_flush g s = Inr (is_dirty (frames s ! unat f), s')" and "pool_inv G L s'"
    and "pool_view s' = pool_view s" and "same_pool s s'" and "replacer s' = replacer s"
    and "sched_view (scheduler s') = (sched_view (scheduler s))(p \<mapsto> fh_data (frames s ! unat f))"
proof (cases "is_dirty (frames s ! unat f)")
  case False
  then have "sched_view (scheduler s) p = Some (fh_data (frames s ! unat f))"
    using inv map_of_SomeD [OF e] by (auto simp: pool_inv_def disk_side_ok_def)
  with that [of s] False g inv show ?thesis by (simp add: write_guard_flush_def fun_upd_idem)
next
  case True
  note entry = pool_inv_entry [OF inv e]
  have lk: "fh_lock (frames s ! unat f) = Unlocked" using inv entry(1) free by (simp add: pool_inv_def guards_ok_def)
  from sched_write_ok [OF sched_parts(1) [OF inv] entry(7), of p] obtain sch where
    io: "disk_io ReqWrite p (fh_data (frames s ! unat f)) (scheduler s) = Inr (Some (fh_data (frames s ! unat f)), sch)"
    and sch: "sched_ok sch" "sched_view sch = (sched_view (scheduler s))(p \<mapsto> fh_data (frames s ! unat f))" by blast
  define s' where "s' = upd_frame (unat f) (\<lambda>fr. fr\<lparr>is_dirty := False\<rparr>) (s\<lparr>scheduler := sch\<rparr>)"
  have run: "write_guard_flush g s = Inr (True, s')"
    using True g lk io by (simp add: write_guard_flush_def Let_def s'_def)
  have rest: "page_table s' = page_table s" "free_frames s' = free_frames s" "next_page_id s' = next_page_id s"
    "num_frames s' = num_frames s" "scheduler s' = sch" "replacer s' = replacer s"
    by (simp_all add: s'_def upd_frame_def)
  have data: "fh_data (frames s' ! i) = fh_data (frames s ! i)" "fh_id (frames s' ! i) = fh_id (frames s ! i)"
    "fh_lock (frames s' ! i) = fh_lock (frames s ! i)" "pin_count (frames s' ! i) = pin_count (frames s ! i)"
    "is_dirty (frames s' ! i) = (i \<noteq> unat f \<and> is_dirty (frames s ! i))" for i
    using entry(2) by (cases "i = unat f"; simp add: s'_def)+
  have "length (frames s') = length (frames s)" by (simp add: s'_def)
  then have "frames_ok s'" using inv by (simp add: pool_inv_def frames_ok_def rest data)
  moreover have "table_ok s'" "replacer_ok s'"
    using inv by (simp_all add: pool_inv_def table_ok_def replacer_ok_def rest del: set_append)
  moreover have "guards_ok G L s'" using inv free by (auto simp: pool_inv_def guards_ok_def rest data)
  moreover have "disk_side_ok s'"
  proof -
    have "sched_view sch q = Some (fh_data (frames s ! unat h))"
      if m: "(q, h) \<in> set (page_table s)" and d: "unat h \<noteq> unat f \<longrightarrow> \<not> is_dirty (frames s ! unat h)" for q h
    proof (cases "q = p")
      case True
      have "map_of (page_table s) q = Some h" using inv m by (simp add: pool_inv_def table_ok_def)
      with e True show ?thesis by (simp add: sch(2))
    next
      case False
      have "map_of (page_table s) q = Some h" using inv m by (simp add: pool_inv_def table_ok_def)
      with pool_inv_table_inj [OF inv _ e, of q] False have "unat h \<noteq> unat f"
        using unsigned_word_eqI [of h f] by auto
      with d inv m have "sched_view (scheduler s) q = Some (fh_data (frames s ! unat h))"
        by (auto simp: pool_inv_def disk_side_ok_def)
      with False show ?thesis by (simp add: sch(2))
    qed
    moreover have "dom (sched_view sch) = {p. p < next_page_id s}"
      using sched_parts(2) [OF inv] entry(4) by (auto simp: sch(2) dom_def)
    moreover have "fst ` set (page_table s) \<subseteq> {p. p < next_page_id s}"
      using inv by (simp add: pool_inv_def disk_side_ok_def)
    ultimately show ?thesis using sch(1) unfolding disk_side_ok_def rest by (auto simp: data)
  qed
  ultimately have inv': "pool_inv G L s'" by (simp add: pool_inv_def)
  have "pool_view s' q = pool_view s q" for q
  proof (cases "map_of (page_table s) q")
    case None
    with e have "q \<noteq> p" by auto
    with None show ?thesis by (simp add: pool_view_def rest sch(2))
  qed (simp add: pool_view_def rest data)
  then have "pool_view s' = pool_view s" by blast
  with that [of s'] run inv' True sch(2) show ?thesis by (simp add: same_pool_def rest)
qed

text \<open>A guard taken, flushed and dropped again: the body of \<open>flush_page\<close> and of the loop of
  \<open>flush_all_pages\<close>.\<close>

definition flush_frame :: "page_id \<Rightarrow> frame_id \<Rightarrow> bpm \<Rightarrow> (bool \<times> bpm) res" where
  "flush_frame p f s =
     seq (index (frames s) (unat f)) (\<lambda>_.
       seq (read_guard_new p (unat f) s) (\<lambda>(g, s1).
         seq (read_guard_flush g s1) (\<lambda>(r, s2).
           seq (read_guard_drop g s2) (\<lambda>s3. Inr (r, s3)))))"

lemma flush_page_frame:
  "flush_page p s = (case map_of (page_table s) p of None \<Rightarrow> Inr (False, s) | Some f \<Rightarrow> flush_frame p f s)"
  unfolding flush_page_def flush_frame_def ..

lemma flush_each_frame:
  "flush_each ((p, f) # es) s = seq (flush_frame p f s) (\<lambda>(_, s'). flush_each es s')"
  by (auto simp: flush_frame_def seq_assoc case_prod_unfold intro!: seq_cong)

lemma flush_frame_inv:
  assumes inv: "pool_inv G L s" and e: "map_of (page_table s) p = Some f" and free: "unat f \<notin> L"
    and small: "size G + 1 < 2 ^ 64" and run: "flush_frame p f s = Inr (r, s')"
  shows "pool_inv G L s' \<and> pool_view s' = pool_view s \<and> same_pool s s' \<and> r = is_dirty (frames s ! unat f)
    \<and> sched_view (scheduler s') = (sched_view (scheduler s))(p \<mapsto> fh_data (frames s ! unat f))
    \<and> unat (curr_size (replacer s')) \<le> unat (curr_size (replacer s)) + 1"
proof -
  note entry = pool_inv_entry [OF inv e]
  from run entry(2) obtain g s1 s2 where
    new: "write_guard_new p (unat f) s = Inr (g, s1)" and
    fl: "write_guard_flush g s1 = Inr (r, s2)" and dr: "write_guard_drop g s2 = Inr s'"
    by (auto simp: flush_frame_def read_guard_as_write seq_Inr_iff)
  note N = guard_new_inv [OF inv e small new]
  have e1: "map_of (page_table s1) p = Some f" using N(3) e by (simp add: same_pool_def)
  from new have fr: "frames s1 = (frames s)[unat f := pin (frames s ! unat f)]" and sc: "scheduler s1 = scheduler s"
    by (auto simp: write_guard_new_def seq_Inr_iff)
  have fr1: "is_dirty (frames s1 ! unat f) = is_dirty (frames s ! unat f)"
    "fh_data (frames s1 ! unat f) = fh_data (frames s ! unat f)"
    using entry(2) by (simp_all add: fr pin_def)
  from guard_flush_inv [OF N(1) e1 free N(4)] obtain s2' where
    F: "write_guard_flush g s1 = Inr (is_dirty (frames s1 ! unat f), s2')" "pool_inv (add_mset (unat f) G) L s2'"
      "pool_view s2' = pool_view s1" "same_pool s1 s2'" "replacer s2' = replacer s1"
      "sched_view (scheduler s2') = (sched_view (scheduler s1))(p \<mapsto> fh_data (frames s1 ! unat f))" .
  with fl have eq: "s2' = s2" "r = is_dirty (frames s1 ! unat f)" by simp_all
  note F = F [unfolded eq(1)]
  have "g_valid g" "g_frame g \<in># add_mset (unat f) G" "g_frame g \<notin> L" using N(4) free by simp_all
  note D = guard_drop_inv [OF F(2) this dr]
  have "scheduler s' = scheduler s2"
    using dr by (auto simp: write_guard_drop_def Let_def seq_Inr_iff split: if_splits)
  then have "sched_view (scheduler s') = (sched_view (scheduler s))(p \<mapsto> fh_data (frames s ! unat f))"
    using F(6) sc fr1 by simp
  moreover have "same_pool s s'" using N(3) F(4) D(3) by (meson same_pool_trans)
  ultimately show ?thesis using N F D eq(2) fr1(1) by simp
qed

lemma flush_frame_total:
  assumes inv: "pool_inv G L s" and e: "map_of (page_table s) p = Some f" and free: "unat f \<notin> L"
    and small: "size G + 1 < 2 ^ 64" and room: "unat (curr_size (replacer s)) + 1 < 2 ^ 32"
  shows "\<exists>r s'. flush_frame p f s = Inr (r, s')"
proof -
  from guard_new_total [OF inv e] obtain g s1 where new: "write_guard_new p (unat f) s = Inr (g, s1)" by blast
  note N = guard_new_inv [OF inv e small new]
  have e1: "map_of (page_table s1) p = Some f" using N(3) e by (simp add: same_pool_def)
  from guard_flush_inv [OF N(1) e1 free N(4)] obtain r s2 where
    F: "write_guard_flush g s1 = Inr (r, s2)" "replacer s2 = replacer s1" by metis
  have "unat (curr_size (replacer s2)) + 1 < 2 ^ 32" using F(2) N(5) room by simp
  from guard_drop_total [OF this] obtain s3 where "write_guard_drop g s2 = Inr s3" by blast
  with new F(1) pool_inv_entry(2) [OF inv e] show ?thesis by (simp add: flush_frame_def read_guard_as_write)
qed

lemma flush_each_inv:
  assumes "pool_inv G {} s" and "set es \<subseteq> set (page_table s)" and "size G + 1 < 2 ^ 64" and "flush_each es s = Inr s'"
  shows "pool_inv G {} s' \<and> pool_view s' = pool_view s \<and> same_pool s s'
    \<and> (\<forall>p. p \<in> fst ` set es \<or> sched_view (scheduler s) p = pool_view s p \<longrightarrow> sched_view (scheduler s') p = pool_view s p)"
  using assms(1,2,4)
proof (induction es arbitrary: s)
  case Nil
  then show ?case by simp
next
  case (Cons x es)
  obtain p f where x: "x = (p, f)" by fastforce
  from Cons.prems(3) x obtain r s1 where fl: "flush_frame p f s = Inr (r, s1)" and rest: "flush_each es s1 = Inr s'"
    by (auto simp: flush_each_frame seq_Inr_iff simp del: flush_each.simps)
  have e: "map_of (page_table s) p = Some f"
    using Cons.prems(1,2) x by (simp add: pool_inv_def table_ok_def)
  note F = flush_frame_inv [OF Cons.prems(1) e _ assms(3) fl, simplified]
  have "set es \<subseteq> set (page_table s1)" using F Cons.prems(2) by (simp add: same_pool_def)
  note I = Cons.IH [OF _ this rest]
  have v: "pool_view s p = Some (fh_data (frames s ! unat f))" using e by (simp add: pool_view_def)
  have "sched_view (scheduler s') q = pool_view s q"
    if "q \<in> fst ` set (x # es) \<or> sched_view (scheduler s) q = pool_view s q" for q
  proof (cases "q = p")
    case True
    then show ?thesis using I F v by auto
  next
    case False
    with that x I F show ?thesis by auto
  qed
  moreover have "same_pool s s'" using F I same_pool_trans by blast
  ultimately show ?case using F I by auto
qed

lemma flush_each_total:
  assumes "pool_inv G {} s" and "set es \<subseteq> set (page_table s)" and "size G + 1 < 2 ^ 64"
    and "unat (curr_size (replacer s)) + length es < 2 ^ 32"
  shows "\<exists>s'. flush_each es s = Inr s'"
  using assms(1,2,4)
proof (induction es arbitrary: s)
  case Nil
  then show ?case by simp
next
  case (Cons x es)
  obtain p f where x: "x = (p, f)" by fastforce
  have e: "map_of (page_table s) p = Some f"
    using Cons.prems(1,2) x by (simp add: pool_inv_def table_ok_def)
  from flush_frame_total [OF Cons.prems(1) e _ assms(3)] Cons.prems(3) obtain r s1
    where fl: "flush_frame p f s = Inr (r, s1)" by auto
  note F = flush_frame_inv [OF Cons.prems(1) e _ assms(3) fl, simplified]
  have "set es \<subseteq> set (page_table s1)" using F Cons.prems(2) by (simp add: same_pool_def)
  moreover have "unat (curr_size (replacer s1)) + length es < 2 ^ 32" using F Cons.prems(3) by simp
  ultimately obtain s2 where "flush_each es s1 = Inr s2" using Cons.IH [of s1] F by blast
  with fl x show ?case by (simp add: flush_each_frame del: flush_each.simps)
qed

section \<open>The pool at rest is a page device\<close>

text \<open>The blocks clients of the pool are made of: take a guard, work on a borrow of its bytes, give both
  back. \<open>k\<close> is what the block does with the bytes.\<close>

definition with_read_page :: "page_id \<Rightarrow> (u8 list \<Rightarrow> 'r res) \<Rightarrow> bpm \<Rightarrow> ('r \<times> bpm) res" where
  "with_read_page p k s =
     seq (check_read_page p s) (\<lambda>(g, s1).
       seq (with_data g k s1) (\<lambda>(x, s2).
         seq (read_guard_drop g s2) (\<lambda>s3. Inr (x, s3))))"

definition with_write_page :: "page_id \<Rightarrow> (u8 list \<Rightarrow> ('r \<times> u8 list) res) \<Rightarrow> bpm \<Rightarrow> ('r \<times> bpm) res" where
  "with_write_page p k s =
     seq (check_write_page p s) (\<lambda>(g, s1).
       seq (with_data_mut g k s1) (\<lambda>(x, s2).
         seq (write_guard_drop g s2) (\<lambda>s3. Inr (x, s3))))"

definition pool_ready :: "bpm \<Rightarrow> bool" where
  "pool_ready s \<longleftrightarrow> pool_idle s \<and> 0 < num_frames s"

lemma idle_can_fetch: "pool_ready s \<Longrightarrow> can_fetch {#} p s"
proof -
  assume r: "pool_ready s"
  then have inv: "pool_idle s" and n: "0 < num_frames s" by (simp_all add: pool_ready_def)
  have "evictable_pages (replacer s) \<noteq> {}" if "free_frames s = []"
  proof -
    have "unat ` set (map snd (page_table s)) = {..<num_frames s}"
      using inv that by (simp add: pool_inv_def table_ok_def)
    with n have "set (map snd (page_table s)) \<noteq> {}" by (metis image_empty lessThan_eq_iff lessThan_0 less_irrefl)
    then obtain f where "f \<in> set (map snd (page_table s))" by (meson ex_in_conv)
    then obtain p where "(p, f) \<in> set (page_table s)" by auto
    then have "f \<in> evictable_pages (replacer s)" using inv by (force simp: pool_inv_def guards_ok_def)
    then show ?thesis by blast
  qed
  with victim_exists [OF inv] have "\<exists>v. favoured_victim (replacer s) = Some v" if "free_frames s = []" using that by metis
  then show ?thesis by (fastforce simp: can_fetch_def)
qed

text \<open>What a block leaves alone, and how much it may add to the replacer's counter.\<close>

definition block_frame :: "bpm \<Rightarrow> bpm \<Rightarrow> bool" where
  "block_frame s s' \<longleftrightarrow> next_page_id s' = next_page_id s \<and> num_frames s' = num_frames s
     \<and> unat (curr_size (replacer s')) \<le> unat (curr_size (replacer s)) + 1"

lemma with_read_page_law:
  assumes r: "pool_ready s" and b: "pool_view s p = Some b" and run: "with_read_page p k s = Inr (x, s')"
  shows "k b = Inr x \<and> pool_ready s' \<and> pool_view s' = pool_view s \<and> block_frame s s'"
proof -
  have inv: "pool_idle s" and n: "0 < num_frames s" using r by (simp_all add: pool_ready_def)
  from run obtain g s1 s2 where ck: "check_write_page p s = Inr (g, s1)"
    and wd: "with_data g k s1 = Inr (x, s2)" and dr: "write_guard_drop g s2 = Inr s'"
    by (auto simp: with_read_page_def check_read_page_eq read_guard_as_write seq_Inr_iff)
  from check_write_inv [OF inv b _ idle_can_fetch [OF r] ck] obtain f where
    C: "pool_inv (add_mset (unat f) {#}) {} s1" "pool_view s1 = pool_view s"
      "g = \<lparr>g_page_id = p, g_frame = unat f, g_valid = True\<rparr>" "map_of (page_table s1) p = Some f"
      "next_page_id s1 = next_page_id s" "num_frames s1 = num_frames s"
      "unat (curr_size (replacer s1)) \<le> unat (curr_size (replacer s))" by auto
  have eq: "k b = Inr x" "s2 = s1" using with_data_guard [OF C(1,4), of g b k] wd C(2,3) b by (auto simp: seq_Inr_iff)
  have "pool_inv (add_mset (g_frame g) {#}) {} s2" using C(1,3) eq(2) by simp
  from guard_drop_inv [OF this _ _ _ dr] C(3) have D: "pool_inv ({#}) {} s'" "pool_view s' = pool_view s2"
    "same_pool s2 s'" "unat (curr_size (replacer s')) \<le> unat (curr_size (replacer s2)) + 1" by simp_all
  with C eq n show ?thesis by (simp add: pool_ready_def same_pool_def block_frame_def)
qed

lemma with_write_page_law:
  assumes r: "pool_ready s" and b: "pool_view s p = Some b" and k: "k b = Inr (y, bs)" and len: "length bs = PAGE_SIZE"
    and run: "with_write_page p k s = Inr (x, s')"
  shows "x = y \<and> pool_ready s' \<and> pool_view s' = (pool_view s)(p \<mapsto> bs) \<and> block_frame s s'"
proof -
  have inv: "pool_idle s" and n: "0 < num_frames s" using r by (simp_all add: pool_ready_def)
  from run obtain g s1 s2 where ck: "check_write_page p s = Inr (g, s1)"
    and wd: "with_data_mut g k s1 = Inr (x, s2)" and dr: "write_guard_drop g s2 = Inr s'"
    by (auto simp: with_write_page_def seq_Inr_iff)
  from check_write_inv [OF inv b _ idle_can_fetch [OF r] ck] obtain f where
    C: "pool_inv (add_mset (unat f) {#}) {} s1" "pool_view s1 = pool_view s"
      "g = \<lparr>g_page_id = p, g_frame = unat f, g_valid = True\<rparr>" "map_of (page_table s1) p = Some f"
      "next_page_id s1 = next_page_id s" "num_frames s1 = num_frames s"
      "unat (curr_size (replacer s1)) \<le> unat (curr_size (replacer s))" by auto
  have b1: "pool_view s1 p = Some b" using b C(2) by simp
  from with_data_mut_guard [where k = k and g = g, OF C(1,4) _ _ b1 k len] C(3) wd
  have W: "x = y" "pool_inv (add_mset (g_frame g) {#}) {} s2" "pool_view s2 = (pool_view s)(p \<mapsto> bs)" "same_pool s1 s2"
    "replacer s2 = replacer s1" using C(2) by auto
  from guard_drop_inv [OF W(2) _ _ _ dr] C(3) have D: "pool_inv ({#}) {} s'" "pool_view s' = pool_view s2"
    "same_pool s2 s'" "unat (curr_size (replacer s')) \<le> unat (curr_size (replacer s2)) + 1" by simp_all
  with C W n show ?thesis by (simp add: pool_ready_def same_pool_def block_frame_def)
qed

text \<open>A block fails with the error of its own work, or with the arithmetic one of the policy.\<close>

lemma with_read_page_panic:
  assumes r: "pool_ready s" and b: "pool_view s p = Some b" and run: "with_read_page p k s = Inl e"
  shows "e = ArithOverflow \<or> k b = Inl e"
proof -
  have inv: "pool_idle s" using r by (simp add: pool_ready_def)
  show ?thesis
  proof (cases "check_write_page p s")
    case (Inl e')
    with run have "check_write_page p s = Inl e" by (simp add: with_read_page_def check_read_page_eq)
    then show ?thesis using check_write_panic [OF inv b idle_can_fetch [OF r]] by blast
  next
    case (Inr gs)
    then obtain g s1 where ck: "check_write_page p s = Inr (g, s1)" by (cases gs) simp
    from check_write_inv [OF inv b _ idle_can_fetch [OF r] ck] obtain f where
      C: "pool_inv (add_mset (unat f) {#}) {} s1" "pool_view s1 = pool_view s"
        "g = \<lparr>g_page_id = p, g_frame = unat f, g_valid = True\<rparr>" "map_of (page_table s1) p = Some f" by auto
    have wd: "with_data g k s1 = seq (k b) (\<lambda>x. Inr (x, s1))" using with_data_guard [OF C(1,4), of g b k] C(2,3) b by auto
    show ?thesis
    proof (cases "k b")
      case (Inl e'')
      with run ck wd show ?thesis by (simp add: with_read_page_def check_read_page_eq)
    next
      case (Inr x)
      with run ck wd have "write_guard_drop g s1 = Inl e"
        by (auto simp: with_read_page_def check_read_page_eq read_guard_as_write seq_Inl_iff)
      then show ?thesis using guard_drop_panics by blast
    qed
  qed
qed

lemma with_write_page_panic:
  assumes r: "pool_ready s" and b: "pool_view s p = Some b" and k: "k b = Inr (y, bs)" and len: "length bs = PAGE_SIZE"
    and run: "with_write_page p k s = Inl e"
  shows "e = ArithOverflow"
proof -
  have inv: "pool_idle s" using r by (simp add: pool_ready_def)
  show ?thesis
  proof (cases "check_write_page p s")
    case (Inl e')
    with run have "check_write_page p s = Inl e" by (simp add: with_write_page_def)
    then show ?thesis by (rule check_write_panic [OF inv b idle_can_fetch [OF r]])
  next
    case (Inr gs)
    then obtain g s1 where ck: "check_write_page p s = Inr (g, s1)" by (cases gs) simp
    from check_write_inv [OF inv b _ idle_can_fetch [OF r] ck] obtain f where
      C: "pool_inv (add_mset (unat f) {#}) {} s1" "pool_view s1 = pool_view s"
        "g = \<lparr>g_page_id = p, g_frame = unat f, g_valid = True\<rparr>" "map_of (page_table s1) p = Some f" by auto
    have b1: "pool_view s1 p = Some b" using b C(2) by simp
    from with_data_mut_guard [where k = k and g = g, OF C(1,4) _ _ b1 k len] C(3)
    obtain s2 where "with_data_mut g k s1 = Inr (y, s2)" by auto
    with run ck have "write_guard_drop g s2 = Inl e" by (auto simp: with_write_page_def seq_Inl_iff)
    then show ?thesis using guard_drop_panics by blast
  qed
qed

text \<open>Copying a page out or in is a page device.\<close>

definition pool_read :: "page_id \<Rightarrow> bpm \<Rightarrow> (u8 list \<times> bpm) res" where
  "pool_read p s = with_read_page p Inr s"

definition copy_in :: "u8 list \<Rightarrow> u8 list \<Rightarrow> (unit \<times> u8 list) res" where
  "copy_in bs old = (if length bs = length old then Inr ((), bs) else Inl IndexError)"

definition pool_write :: "page_id \<Rightarrow> u8 list \<Rightarrow> bpm \<Rightarrow> bpm res" where
  "pool_write p bs s = seq (with_write_page p (copy_in bs) s) (\<lambda>(_, s'). Inr s')"

lemma copy_in_view:
  "pool_ready s \<Longrightarrow> pool_view s p = Some b \<Longrightarrow> length bs = PAGE_SIZE \<Longrightarrow> copy_in bs b = Inr ((), bs)"
  using pool_view_length by (auto simp: copy_in_def pool_ready_def)

lemma pool_read_law:
  assumes "pool_ready s" and "pool_view s p = Some b" and "pool_read p s = Inr (x, s')"
  shows "x = b \<and> pool_ready s' \<and> pool_view s' = pool_view s \<and> block_frame s s'"
  using with_read_page_law [OF assms(1,2), of Inr x s'] assms(3) by (simp add: pool_read_def)

lemma pool_write_law:
  assumes "pool_ready s" and "p \<in> dom (pool_view s)" and "length bs = PAGE_SIZE" and "pool_write p bs s = Inr s'"
  shows "pool_ready s' \<and> pool_view s' = (pool_view s)(p \<mapsto> bs) \<and> block_frame s s'"
proof -
  from assms(2) obtain b where b: "pool_view s p = Some b" by blast
  from assms(4) have "with_write_page p (copy_in bs) s = Inr ((), s')" by (auto simp: pool_write_def seq_Inr_iff)
  from with_write_page_law [where k = "copy_in bs", OF assms(1) b copy_in_view [OF assms(1) b assms(3)] assms(3) this] show ?thesis by simp
qed

interpretation pool: page_device pool_ready pool_view pool_read pool_write
  by unfold_locales (use pool_read_law pool_write_law in blast)+

lemma pool_read_panic: "pool_ready s \<Longrightarrow> pool_view s p = Some b \<Longrightarrow> pool_read p s = Inl e \<Longrightarrow> e = ArithOverflow"
  using with_read_page_panic by (fastforce simp: pool_read_def)

lemma pool_write_panic:
  assumes "pool_ready s" and "p \<in> dom (pool_view s)" and "length bs = PAGE_SIZE" and "pool_write p bs s = Inl e"
  shows "e = ArithOverflow"
proof -
  from assms(2) obtain b where b: "pool_view s p = Some b" by blast
  have "with_write_page p (copy_in bs) s = Inl e" using assms(4) by (auto simp: pool_write_def seq_Inl_iff)
  then show ?thesis by (rule with_write_page_panic [where k = "copy_in bs", OF assms(1) b copy_in_view [OF assms(1) b assms(3)] assms(3)])
qed

section \<open>While every page has a frame\<close>

text \<open>As long as no more pages were handed out than the pool has frames, nothing is evicted, the
  policy's ghost lists stay empty of evicted MFU pages, and no request can fail.\<close>

definition resident :: "bpm \<Rightarrow> bool" where
  "resident s \<longleftrightarrow> unat (next_page_id s) \<le> num_frames s \<and> mfu_ghost (replacer s) = []"

lemma record_access_mfu_ghost:
  "record_access f p r = Inr r' \<Longrightarrow> set (mfu_ghost r') \<subseteq> set (mfu_ghost r)"
  by (auto simp: record_access_def Let_def seq_Inr_iff split: if_splits dest: in_set_butlastD)

lemma guard_new_mfu_ghost:
  "write_guard_new p i s = Inr (g, s') \<Longrightarrow> set (mfu_ghost (replacer s')) \<subseteq> set (mfu_ghost (replacer s))"
  using record_access_mfu_ghost by (fastforce simp: write_guard_new_def seq_Inr_iff)

lemma guard_drop_mfu_ghost:
  "write_guard_drop g s = Inr s' \<Longrightarrow> mfu_ghost (replacer s') = mfu_ghost (replacer s)"
  by (auto simp: write_guard_drop_def Let_def set_evictable_def seq_Inr_iff split: if_splits)

lemma table_length:
  assumes "pool_inv G L s"
  shows "length (page_table s) + length (free_frames s) = num_frames s"
proof -
  let ?fs = "map snd (page_table s) @ free_frames s"
  have d: "distinct ?fs" and i: "unat ` set ?fs = {..<num_frames s}"
    using assms by (simp_all only: pool_inv_def table_ok_def)
  have "inj_on unat (set ?fs)" by (intro inj_onI unsigned_word_eqI)
  then have "card (set ?fs) = num_frames s" using i by (metis card_image card_lessThan)
  with distinct_card [OF d] show ?thesis by simp
qed

lemma resident_has_frame:
  assumes inv: "pool_inv G L s" and res: "resident s" and b: "pool_view s p = Some b"
  shows "map_of (page_table s) p \<noteq> None \<or> free_frames s \<noteq> []"
proof (rule ccontr)
  assume "\<not> ?thesis"
  then have miss: "p \<notin> fst ` set (page_table s)" and full: "free_frames s = []"
    by (simp_all add: map_of_eq_None_iff)
  have p: "p < next_page_id s" using pool_view_dom [OF inv] b by (auto simp: dom_def)
  have "fst ` set (page_table s) \<subseteq> {q. q < next_page_id s}"
    using inv by (simp add: pool_inv_def disk_side_ok_def)
  with miss p have sub: "insert p (set (map fst (page_table s))) \<subseteq> {q. q < next_page_id s}" by auto
  let ?P = "{q. q < next_page_id s}"
  have "inj_on unat ?P" by (intro inj_onI unsigned_word_eqI)
  then have "card ?P = card (unat ` ?P)" by (rule card_image [symmetric])
  also have "\<dots> \<le> card {..<unat (next_page_id s)}" by (intro card_mono) (auto simp: word_less_nat_alt)
  finally have "card ?P \<le> unat (next_page_id s)" by simp
  with card_mono [OF _ sub] have "card (insert p (set (map fst (page_table s)))) \<le> unat (next_page_id s)" by simp
  moreover have "distinct (map fst (page_table s))" using inv by (simp add: pool_inv_def table_ok_def)
  then have "card (insert p (set (map fst (page_table s)))) = Suc (length (page_table s))"
    using miss distinct_card [of "map fst (page_table s)"] by (simp add: card_insert_if)
  ultimately show False using table_length [OF inv] full res by (simp add: resident_def)
qed

lemma check_write_hit_or_free:
  assumes inv: "pool_inv G L s" and b: "pool_view s p = Some b" and small: "size G + 1 < 2 ^ 64"
    and hf: "map_of (page_table s) p \<noteq> None \<or> free_frames s \<noteq> []" and run: "check_write_page p s = Inr (g, s')"
  shows "set (mfu_ghost (replacer s')) \<subseteq> set (mfu_ghost (replacer s))"
    and "map_of (page_table s) q = Some h \<Longrightarrow> map_of (page_table s') q = Some h"
proof -
  have "set (mfu_ghost (replacer s')) \<subseteq> set (mfu_ghost (replacer s))
    \<and> (map_of (page_table s) q = Some h \<longrightarrow> map_of (page_table s') q = Some h)"
  proof (cases "map_of (page_table s) p")
    case (Some f)
    with run pool_inv_entry(2) [OF inv Some] have "write_guard_new p (unat f) s = Inr (g, s')"
      by (simp add: check_write_page_def)
    with guard_new_mfu_ghost [OF this] guard_new_inv(3) [OF inv Some small this] show ?thesis
      by (simp add: same_pool_def)
  next
    case None
    with hf obtain fs f where free: "free_frames s = fs @ [f]" by (metis rev_exhaust)
    with run None have "seq (load_page p f (s\<lparr>free_frames := fs\<rparr>)) (write_guard_new p (unat f)) = Inr (g, s')"
      by (simp add: check_write_page_def pop_free_snoc)
    note F = fetch_free_inv [OF inv free None b small this]
    show ?thesis using record_access_mfu_ghost [OF F(9)] F(4) None by (auto simp: map_add_def)
  qed
  then show "set (mfu_ghost (replacer s')) \<subseteq> set (mfu_ghost (replacer s))"
    "map_of (page_table s) q = Some h \<Longrightarrow> map_of (page_table s') q = Some h" by blast+
qed

lemma check_write_hit_or_free_panic:
  assumes inv: "pool_inv G L s" and b: "pool_view s p = Some b"
    and hf: "map_of (page_table s) p \<noteq> None \<or> free_frames s \<noteq> []" and run: "check_write_page p s = Inl e"
  shows "p \<in> set (mfu_ghost (replacer s))"
proof (cases "map_of (page_table s) p")
  case (Some f)
  with run pool_inv_entry(2) [OF inv Some] have "write_guard_new p (unat f) s = Inl e"
    by (simp add: check_write_page_def)
  with guard_new_total [OF inv Some] show ?thesis by auto
next
  case None
  with hf obtain fs f where free: "free_frames s = fs @ [f]" by (metis rev_exhaust)
  with run None have run1: "seq (load_page p f (s\<lparr>free_frames := fs\<rparr>)) (write_guard_new p (unat f)) = Inl e"
    by (simp add: check_write_page_def pop_free_snoc)
  from load_page_run [OF inv free None b] obtain sch where
    load: "load_page p f (s\<lparr>free_frames := fs\<rparr>) = Inr (s\<lparr>free_frames := fs, scheduler := sch,
       frames := (frames s)[unat f := (frames s ! unat f)\<lparr>fh_data := b\<rparr>], page_table := page_table s @ [(p, f)]\<rparr>)"
    (is "_ = Inr ?s2") by blast
  with run1 have "write_guard_new p (unat f) ?s2 = Inl e" by simp
  with write_guard_new_panic [of p "unat f" ?s2 e] free_frame_facts(5) [OF inv free] inv
  show ?thesis by (simp add: pool_inv_def replacer_ok_def)
qed

lemma check_write_resident:
  assumes inv: "pool_inv G L s" and b: "pool_view s p = Some b" and small: "size G + 1 < 2 ^ 64" and res: "resident s"
  obtains f s' where "check_write_page p s = Inr (\<lparr>g_page_id = p, g_frame = unat f, g_valid = True\<rparr>, s')"
    and "pool_inv (add_mset (unat f) G) L s'" and "pool_view s' = pool_view s" and "map_of (page_table s') p = Some f"
    and "map_of (page_table s) \<subseteq>\<^sub>m map_of (page_table s')" and "resident s'"
    and "next_page_id s' = next_page_id s" and "num_frames s' = num_frames s"
    and "unat (curr_size (replacer s')) \<le> unat (curr_size (replacer s))"
proof -
  note hf = resident_has_frame [OF inv res b]
  have "check_write_page p s \<noteq> Inl e" for e
    using check_write_hit_or_free_panic [OF inv b hf] res by (auto simp: resident_def)
  then obtain g s' where run: "check_write_page p s = Inr (g, s')" by (cases "check_write_page p s") auto
  have "can_fetch G p s" using hf by (auto simp: can_fetch_def)
  from check_write_inv [OF inv b small this run] obtain f where
    C: "pool_inv (add_mset (unat f) G) L s'" "pool_view s' = pool_view s" "g = \<lparr>g_page_id = p, g_frame = unat f, g_valid = True\<rparr>"
      "map_of (page_table s') p = Some f" "next_page_id s' = next_page_id s" "num_frames s' = num_frames s"
      "unat (curr_size (replacer s')) \<le> unat (curr_size (replacer s))" .
  note H = check_write_hit_or_free [OF inv b small hf run]
  have "resident s'" using H(1) C(5,6) res by (simp add: resident_def)
  moreover have "map_of (page_table s) \<subseteq>\<^sub>m map_of (page_table s')" using H(2) by (auto simp: map_le_def)
  ultimately show ?thesis using that [of f s'] run C by simp
qed

lemma guard_drop_resident:
  assumes "write_guard_drop g s = Inr s'" and "same_pool s s'" and "resident s"
  shows "resident s'"
  using assms guard_drop_mfu_ghost [OF assms(1)] by (simp add: resident_def same_pool_def)

text \<open>Blocks and scripts of them, while \<open>curr_size\<close> has room for the increments the guard drops make.\<close>

lemma with_read_page_resident:
  assumes r: "pool_ready s" and res: "resident s" and b: "pool_view s p = Some b" and k: "k b = Inr x"
    and room: "unat (curr_size (replacer s)) + 1 < 2 ^ 32"
  obtains s' where "with_read_page p k s = Inr (x, s')" and "resident s'"
proof -
  have inv: "pool_idle s" using r by (simp add: pool_ready_def)
  have "size {#} + 1 < (2 :: nat) ^ 64" by simp
  from check_write_resident [OF inv b this res] obtain f s1 where
    ck: "check_write_page p s = Inr (\<lparr>g_page_id = p, g_frame = unat f, g_valid = True\<rparr>, s1)" (is "_ = Inr (?g, _)")
    and C: "pool_inv (add_mset (unat f) {#}) {} s1" "pool_view s1 = pool_view s" "map_of (page_table s1) p = Some f"
      "resident s1" "unat (curr_size (replacer s1)) \<le> unat (curr_size (replacer s))" by metis
  have wd: "with_data ?g k s1 = Inr (x, s1)" using with_data_guard [OF C(1,3), of ?g b k] C(2) b k by simp
  have "unat (curr_size (replacer s1)) + 1 < 2 ^ 32" using C(5) room by linarith
  then obtain s' where dr: "write_guard_drop ?g s1 = Inr s'" using guard_drop_total by blast
  have "same_pool s1 s'" using guard_drop_inv(3) [OF C(1) _ _ _ dr] by simp
  with guard_drop_resident [OF dr] C(4) that [of s'] ck wd dr show ?thesis
    by (simp add: with_read_page_def check_read_page_eq read_guard_as_write)
qed

lemma with_write_page_resident:
  assumes r: "pool_ready s" and res: "resident s" and b: "pool_view s p = Some b" and k: "k b = Inr (x, bs)"
    and len: "length bs = PAGE_SIZE" and room: "unat (curr_size (replacer s)) + 1 < 2 ^ 32"
  obtains s' where "with_write_page p k s = Inr (x, s')" and "resident s'"
proof -
  have inv: "pool_idle s" using r by (simp add: pool_ready_def)
  have "size {#} + 1 < (2 :: nat) ^ 64" by simp
  from check_write_resident [OF inv b this res] obtain f s1 where
    ck: "check_write_page p s = Inr (\<lparr>g_page_id = p, g_frame = unat f, g_valid = True\<rparr>, s1)" (is "_ = Inr (?g, _)")
    and C: "pool_inv (add_mset (unat f) {#}) {} s1" "pool_view s1 = pool_view s" "map_of (page_table s1) p = Some f"
      "resident s1" "unat (curr_size (replacer s1)) \<le> unat (curr_size (replacer s))" by metis
  have b1: "pool_view s1 p = Some b" using b C(2) by simp
  from with_data_mut_guard [where k = k and g = ?g, OF C(1,3) _ _ b1 k len]
  obtain s2 where wd: "with_data_mut ?g k s1 = Inr (x, s2)" and W: "pool_inv (add_mset (unat f) {#}) {} s2"
    "same_pool s1 s2" "replacer s2 = replacer s1" by auto
  have "unat (curr_size (replacer s2)) + 1 < 2 ^ 32" using C(5) W(3) room by simp
  then obtain s' where dr: "write_guard_drop ?g s2 = Inr s'" using guard_drop_total by blast
  have "same_pool s2 s'" using guard_drop_inv(3) [OF W(1) _ _ _ dr] by simp
  moreover have "resident s2" using C(4) W(2,3) by (simp add: resident_def same_pool_def)
  ultimately show ?thesis using guard_drop_resident [OF dr] that [of s'] ck wd dr by (simp add: with_write_page_def)
qed

lemma pool_read_resident:
  assumes "pool_ready s" and "resident s" and "pool_view s p = Some b" and "unat (curr_size (replacer s)) + 1 < 2 ^ 32"
  obtains s' where "pool_read p s = Inr (b, s')" and "resident s'"
  using with_read_page_resident [OF assms(1-3), of Inr b] assms(4) by (auto simp: pool_read_def)

lemma pool_write_resident:
  assumes "pool_ready s" and "resident s" and "p \<in> dom (pool_view s)" and "length bs = PAGE_SIZE"
    and "unat (curr_size (replacer s)) + 1 < 2 ^ 32"
  obtains s' where "pool_write p bs s = Inr s'" and "resident s'"
proof -
  from assms(3) obtain b where b: "pool_view s p = Some b" by blast
  from with_write_page_resident [where k = "copy_in bs", OF assms(1,2) b copy_in_view [OF assms(1) b assms(4)] assms(4,5)]
  obtain s' where "with_write_page p (copy_in bs) s = Inr ((), s')" "resident s'" .
  then show ?thesis by (intro that [of s']) (simp_all add: pool_write_def)
qed

lemma pool_run_resident:
  assumes "pool_ready s" and "resident s" and "list_all (cmd_ok (dom (pool_view s))) cs"
    and "unat (curr_size (replacer s)) + length cs < 2 ^ 32"
  shows "\<exists>out s'. run_cmds pool_read pool_write cs s = Inr (out, s')"
  using assms
proof (induction cs arbitrary: s)
  case Nil
  then show ?case by simp
next
  case (Cons c cs)
  have room: "unat (curr_size (replacer s)) + 1 < 2 ^ 32" using Cons.prems(4) by simp
  show ?case
  proof (cases c)
    case (PRead p)
    with Cons.prems(3) obtain b where b: "pool_view s p = Some b" by auto
    from pool_read_resident [OF Cons.prems(1,2) b room] obtain s1 where
      s1: "pool_read p s = Inr (b, s1)" "resident s1" .
    from pool_read_law [OF Cons.prems(1) b s1(1)] Cons.IH [of s1] s1 Cons.prems(3,4)
    obtain out s2 where "run_cmds pool_read pool_write cs s1 = Inr (out, s2)" by (auto simp: block_frame_def)
    with s1 PRead show ?thesis by simp
  next
    case (PWrite p b)
    with Cons.prems(3) have p: "p \<in> dom (pool_view s)" "length b = PAGE_SIZE" by auto
    from pool_write_resident [OF Cons.prems(1,2) p room] obtain s1 where
      s1: "pool_write p b s = Inr s1" "resident s1" .
    note law = pool_write_law [OF Cons.prems(1) p s1(1)]
    have "dom (pool_view s1) = dom (pool_view s)" using law p(1) by auto
    with Cons.prems(3) have "list_all (cmd_ok (dom (pool_view s1))) cs" by simp
    moreover have "unat (curr_size (replacer s1)) + length cs < 2 ^ 32" using law Cons.prems(4) by (simp add: block_frame_def)
    ultimately obtain out s2 where "run_cmds pool_read pool_write cs s1 = Inr (out, s2)"
      using Cons.IH [of s1] law s1(2) by blast
    with s1 PWrite show ?thesis by simp
  qed
qed

section \<open>Properties\<close>

text \<open>A small pool for the witnesses: one frame, no page.\<close>

definition empty_pool :: bpm where
  "empty_pool = bpm_new 1 (disk_of [] [])"

lemma empty_pool_idle: "pool_idle empty_pool" "pool_view empty_pool = Map.empty"
proof -
  have "disk_ok (disk_of [] [])" by (rule disk_of_ok) simp_all
  moreover have "disk_view (disk_of [] []) = Map.empty" by (simp add: disk_view_def fun_eq_iff)
  ultimately show "pool_idle empty_pool" "pool_view empty_pool = Map.empty"
    using bpm_new_idle [of "disk_of [] []" 1] by (simp_all add: empty_pool_def)
qed

lemma empty_pool_simps: "next_page_id empty_pool = 0" "num_frames empty_pool = 1" "mfu_ghost (replacer empty_pool) = []"
  "curr_size (replacer empty_pool) = 0"
  by (simp_all add: empty_pool_def bpm_new_def arc_new_def)

text \<open>The same pool after one call of \<open>new_page\<close>, and after two.\<close>

lemma one_page_pool:
  obtains s where "new_page empty_pool = Inr (0, s)" and "pool_idle s" and "num_frames s = 1" and "next_page_id s = 1"
    and "pool_view s = [0 \<mapsto> replicate PAGE_SIZE 0]" and "replacer s = replacer empty_pool"
    and "page_table s = []" and "free_frames s = [0]"
proof -
  have "unat (next_page_id empty_pool) + 1 < 2 ^ 32" by (simp add: empty_pool_simps)
  from new_page_inv [OF empty_pool_idle(1) this] that show ?thesis
    by (auto simp: empty_pool_simps empty_pool_idle) (simp add: empty_pool_def bpm_new_def)
qed

lemma two_page_pool:
  obtains s where "pool_idle s" and "num_frames s = 1" and "page_table s = []" and "free_frames s = [0]"
    and "pool_view s = [0 \<mapsto> replicate PAGE_SIZE 0, 1 \<mapsto> replicate PAGE_SIZE 0]" and "replacer s = replacer empty_pool"
proof -
  obtain s where s: "pool_idle s" "num_frames s = 1" "next_page_id s = 1" "pool_view s = [0 \<mapsto> replicate PAGE_SIZE 0]"
    "replacer s = replacer empty_pool" "page_table s = []" "free_frames s = [0]" using one_page_pool by metis
  have "unat (next_page_id s) + 1 < 2 ^ 32" by (simp add: s(3))
  from new_page_inv [OF s(1) this] that s show ?thesis by auto
qed

text \<open>C27: \<open>new_page\<close> hands out an id never handed out before, and the page exists at once: it reads
  as zeros, every other page is as it was, and no frame is spent on it.\<close>

theorem new_page_fresh_zeros:
  assumes "pool_inv G L s" and "unat (next_page_id s) + 1 < 2 ^ 32"
  shows "\<exists>p s'. new_page s = Inr (p, s') \<and> pool_view s p = None \<and> pool_inv G L s'
    \<and> pool_view s' = (pool_view s)(p \<mapsto> replicate PAGE_SIZE 0) \<and> (\<forall>q. pool_view s' q \<noteq> None \<longrightarrow> q < next_page_id s')
    \<and> free_frames s' = free_frames s"
proof -
  from new_page_inv [OF assms] obtain s' where s': "new_page s = Inr (next_page_id s, s')" "pool_inv G L s'"
    "pool_view s' = (pool_view s)(next_page_id s \<mapsto> replicate PAGE_SIZE 0)" "pool_view s (next_page_id s) = None"
    "free_frames s' = free_frames s" by blast
  have "q < next_page_id s'" if "pool_view s' q \<noteq> None" for q
    using pool_view_dom [OF s'(2)] that by (auto simp: dom_def)
  with s' show ?thesis by blast
qed

theorem new_page_fresh_zeros_witness:
  "\<exists>p s'. new_page empty_pool = Inr (p, s') \<and> pool_view s' p = Some (replicate PAGE_SIZE 0)"
proof -
  have "unat (next_page_id empty_pool) + 1 < 2 ^ 32" by (simp add: empty_pool_simps)
  from new_page_fresh_zeros [OF empty_pool_idle(1) this] show ?thesis by fastforce
qed

lemma pool_run_panic:
  assumes "pool_ready s" and "list_all (cmd_ok (dom (pool_view s))) cs" and "run_cmds pool_read pool_write cs s = Inl e"
  shows "e = ArithOverflow"
  using assms
proof (induction cs arbitrary: s)
  case Nil
  then show ?case by simp
next
  case (Cons c cs)
  show ?case
  proof (cases c)
    case (PRead p)
    with Cons.prems(2) obtain b where b: "pool_view s p = Some b" by auto
    show ?thesis
    proof (cases "pool_read p s")
      case (Inl e')
      with Cons.prems(3) PRead show ?thesis using pool_read_panic [OF Cons.prems(1) b] by simp
    next
      case (Inr xs)
      then obtain x s1 where rd: "pool_read p s = Inr (x, s1)" by (cases xs) simp
      with Cons.prems(3) PRead have "run_cmds pool_read pool_write cs s1 = Inl e" by (auto simp: seq_Inl_iff)
      with Cons.IH [of s1] pool_read_law [OF Cons.prems(1) b rd] Cons.prems(2) show ?thesis by simp
    qed
  next
    case (PWrite p b)
    with Cons.prems(2) have p: "p \<in> dom (pool_view s)" "length b = PAGE_SIZE" by auto
    show ?thesis
    proof (cases "pool_write p b s")
      case (Inl e')
      with Cons.prems(3) PWrite show ?thesis using pool_write_panic [OF Cons.prems(1) p] by simp
    next
      case (Inr s1)
      with Cons.prems(3) PWrite have run: "run_cmds pool_read pool_write cs s1 = Inl e" by simp
      note law = pool_write_law [OF Cons.prems(1) p Inr]
      have "dom (pool_view s1) = dom (pool_view s)" using law p(1) by auto
      with Cons.prems(2) have "list_all (cmd_ok (dom (pool_view s1))) cs" by simp
      with Cons.IH [of s1] law run show ?thesis by blast
    qed
  qed
qed

text \<open>C1: Through the pool, with any number of frames and so with any number of evictions, a client
  that takes one guard at a time sees an array of pages. A script of reads and writes of known pages
  that returns gives what the array gives and leaves the array's contents; the only way not to return
  is the replacer's arithmetic overflow.\<close>

theorem pool_is_page_array:
  assumes "pool_idle s" and "0 < num_frames s" and "list_all (cmd_ok (dom (pool_view s))) cs"
  shows "case run_cmds pool_read pool_write cs s of
      Inr (out, s') \<Rightarrow> spec_cmds cs (pool_view s) = (out, pool_view s') \<and> pool_idle s'
    | Inl e \<Rightarrow> e = ArithOverflow"
proof (cases "run_cmds pool_read pool_write cs s")
  case (Inl e)
  with pool_run_panic [OF _ assms(3) Inl] assms(1,2) show ?thesis by (simp add: pool_ready_def)
next
  case (Inr os)
  then obtain out s' where run: "run_cmds pool_read pool_write cs s = Inr (out, s')" by (cases os) simp
  with pool.run_cmds_spec [OF _ assms(3) run] assms(1,2) show ?thesis by (simp add: pool_ready_def)
qed

theorem pool_is_page_array_witness:
  "\<exists>s. num_frames s = 1 \<and> (case run_cmds pool_read pool_write [PWrite 0 (replicate PAGE_SIZE 1), PRead 1, PRead 0] s of
      Inr (out, s') \<Rightarrow> out = [replicate PAGE_SIZE 0, replicate PAGE_SIZE 1] | Inl e \<Rightarrow> e = ArithOverflow)"
proof -
  let ?cs = "[PWrite 0 (replicate PAGE_SIZE 1), PRead 1, PRead 0]"
  obtain s where s: "pool_idle s" "num_frames s = 1"
    "pool_view s = [0 \<mapsto> replicate PAGE_SIZE 0, 1 \<mapsto> replicate PAGE_SIZE 0]" using two_page_pool by metis
  have "case run_cmds pool_read pool_write ?cs s of
      Inr (out, s') \<Rightarrow> spec_cmds ?cs (pool_view s) = (out, pool_view s') \<and> pool_idle s' | Inl e \<Rightarrow> e = ArithOverflow"
    by (rule pool_is_page_array) (simp_all add: s)
  then have "case run_cmds pool_read pool_write ?cs s of
      Inr (out, s') \<Rightarrow> out = [replicate PAGE_SIZE 0, replicate PAGE_SIZE 1] | Inl e \<Rightarrow> e = ArithOverflow"
    by (auto simp: s(3) split: sum.splits)
  with s(2) show ?thesis by blast
qed

text \<open>C26: While no more pages exist than the pool has frames, scripts never fail.\<close>

theorem pool_total_without_eviction:
  assumes "pool_idle s" and "unat (next_page_id s) \<le> num_frames s" and "mfu_ghost (replacer s) = []"
    and "list_all (cmd_ok (dom (pool_view s))) cs" and "unat (curr_size (replacer s)) + length cs < 2 ^ 32"
  shows "\<exists>s'. run_cmds pool_read pool_write cs s = Inr (fst (spec_cmds cs (pool_view s)), s')
    \<and> pool_view s' = snd (spec_cmds cs (pool_view s)) \<and> pool_idle s'"
proof (cases "num_frames s = 0")
  case True
  then have "dom (pool_view s) = {}" using pool_view_dom [OF assms(1)] assms(2) by (simp add: unat_eq_0)
  then have "cs = []" using assms(4) by (cases cs) (auto elim: cmd_ok.elims)
  with assms(1) show ?thesis by simp
next
  case False
  with assms(1) have r: "pool_ready s" by (simp add: pool_ready_def)
  from pool_run_resident [OF r _ assms(4,5)] assms(2,3) obtain out s' where
    run: "run_cmds pool_read pool_write cs s = Inr (out, s')" by (auto simp: resident_def)
  from pool.run_cmds_spec [OF r assms(4) run] show ?thesis using run by (auto simp: pool_ready_def)
qed

theorem pool_total_without_eviction_witness:
  "\<exists>s s'. new_page empty_pool = Inr (0, s)
    \<and> run_cmds pool_read pool_write [PWrite 0 (replicate PAGE_SIZE 1), PRead 0] s = Inr ([replicate PAGE_SIZE 1], s')"
proof -
  obtain s where s: "new_page empty_pool = Inr (0, s)" "pool_idle s" "num_frames s = 1" "next_page_id s = 1"
    "pool_view s = [0 \<mapsto> replicate PAGE_SIZE 0]" "replacer s = replacer empty_pool" using one_page_pool by metis
  have "\<exists>s'. run_cmds pool_read pool_write [PWrite 0 (replicate PAGE_SIZE 1), PRead 0] s
      = Inr (fst (spec_cmds [PWrite 0 (replicate PAGE_SIZE 1), PRead 0] (pool_view s)), s')
    \<and> pool_view s' = snd (spec_cmds [PWrite 0 (replicate PAGE_SIZE 1), PRead 0] (pool_view s)) \<and> pool_idle s'"
    by (rule pool_total_without_eviction) (simp_all add: s empty_pool_simps)
  with s(1) show ?thesis by auto
qed

text \<open>C10: \<open>flush_all_pages\<close> makes the pool durable: it answers whether there was a page in a frame,
  changes nothing a client sees, and afterwards the disk alone holds every page's current bytes, so a
  new pool over that disk manager's pages would see them all.\<close>

theorem flush_all_durable:
  assumes "pool_idle s" and "unat (curr_size (replacer s)) + length (page_table s) < 2 ^ 32"
  shows "\<exists>s'. flush_all_pages s = Inr (page_table s \<noteq> [], s') \<and> pool_idle s' \<and> pool_view s' = pool_view s
    \<and> disk_view (disk_mgr (scheduler s')) = pool_view s"
proof -
  have sz: "size {#} + 1 < (2 :: nat) ^ 64" by simp
  from flush_each_total [OF assms(1) subset_refl sz assms(2)] obtain s' where
    run: "flush_each (page_table s) s = Inr s'" by blast
  note F = flush_each_inv [OF assms(1) subset_refl sz run]
  have "sched_view (scheduler s') p = pool_view s p" for p
  proof (cases "map_of (page_table s) p")
    case None
    then have "sched_view (scheduler s) p = pool_view s p" by (simp add: pool_view_def)
    with F show ?thesis by blast
  next
    case (Some f)
    then have "p \<in> fst ` set (page_table s)" by (force dest: map_of_SomeD)
    with F show ?thesis by blast
  qed
  then have "disk_view (disk_mgr (scheduler s')) = pool_view s" by (auto simp: sched_view_def)
  moreover have "pool_idle s'" "pool_view s' = pool_view s" using F by blast+
  moreover have "flush_all_pages s = Inr (page_table s \<noteq> [], s')" 
    using run by (cases "page_table s = []") (simp_all add: flush_all_pages_def)
  ultimately show ?thesis by simp
qed

theorem flush_all_durable_witness:
  "\<exists>s r s'. pool_view s = [0 \<mapsto> replicate PAGE_SIZE 1] \<and> flush_all_pages s = Inr (r, s')
    \<and> disk_view (disk_mgr (scheduler s')) 0 = Some (replicate PAGE_SIZE 1)"
proof -
  obtain s where s: "pool_idle s" "num_frames s = 1" "next_page_id s = 1"
    "pool_view s = [0 \<mapsto> replicate PAGE_SIZE 0]" "replacer s = replacer empty_pool" using one_page_pool by metis
  have r: "pool_ready s" "resident s" using s by (simp_all add: pool_ready_def resident_def empty_pool_simps)
  have p: "0 \<in> dom (pool_view s)" "length (replicate PAGE_SIZE (1 :: u8)) = PAGE_SIZE" by (simp_all add: s)
  have "unat (curr_size (replacer s)) + 1 < 2 ^ 32" by (simp add: s empty_pool_simps)
  from pool_write_resident [OF r p this] obtain s1 where w: "pool_write 0 (replicate PAGE_SIZE 1) s = Inr s1" by blast
  note law = pool_write_law [OF r(1) p w]
  have "length (page_table s1) + length (free_frames s1) = 1" using table_length [of "{#}" "{}" s1] law s(2)
    by (simp add: pool_ready_def block_frame_def)
  moreover have "unat (curr_size (replacer s1)) \<le> 1" using law by (simp add: s empty_pool_simps block_frame_def)
  ultimately have "unat (curr_size (replacer s1)) + length (page_table s1) < 2 ^ 32" by simp
  from flush_all_durable [OF _ this] law obtain s2 where
    "flush_all_pages s1 = Inr (page_table s1 \<noteq> [], s2)" "disk_view (disk_mgr (scheduler s2)) = pool_view s1"
    by (auto simp: pool_ready_def)
  moreover have "pool_view s1 = [0 \<mapsto> replicate PAGE_SIZE 1]" using law by (simp add: s)
  ultimately show ?thesis by (intro exI conjI) (assumption, assumption, simp)
qed

text \<open>C25: Taking, using and dropping one guard while the guards of \<open>G\<close> are alive, on a request that does not evict a
  pinned frame (the page has a frame, or one is free, or the policy's victim is not pinned: \<open>can_fetch\<close>;
  \<open>pinned_frame_reused\<close> shows what happens otherwise). The new guard adds one pin to its frame and shows the page's bytes, the
  pages of the other guards stay in their frames, writing through it changes that page only, and dropping
  it takes the pin back.\<close>

theorem write_guard_lifecycle:
  assumes "pool_inv G {} s" and "size G + 1 < 2 ^ 64" and "pool_view s p = Some b" and "can_fetch G p s"
    and "check_write_page p s = Inr (g, s1)" and "length bs = PAGE_SIZE"
  shows "unat (pin_count (frames s1 ! g_frame g)) = count G (g_frame g) + 1 \<and> guard_bytes g s1 = b \<and> keeps_pinned G s s1
    \<and> (\<exists>s2. with_data_mut g (copy_in bs) s1 = Inr ((), s2) \<and> pool_view s2 = (pool_view s)(p \<mapsto> bs)
         \<and> (\<forall>s3. write_guard_drop g s2 = Inr s3 \<longrightarrow> pool_inv G {} s3 \<and> pool_view s3 = (pool_view s)(p \<mapsto> bs)))"
proof -
  from check_write_inv [OF assms(1,3,2,4,5)] obtain f where
    C: "pool_inv (add_mset (unat f) G) {} s1" "pool_view s1 = pool_view s"
      "g = \<lparr>g_page_id = p, g_frame = unat f, g_valid = True\<rparr>" "map_of (page_table s1) p = Some f" "keeps_pinned G s s1" by metis
  note entry = pool_inv_entry [OF C(1,4)]
  have b1: "pool_view s1 p = Some b" using C(2) assms(3) by simp
  have k: "copy_in bs b = Inr ((), bs)" using assms(6) pool_view_length [OF assms(1,3)] by (simp add: copy_in_def)
  from with_data_mut_guard [where k = "copy_in bs" and g = g, OF C(1,4) _ _ b1 k assms(6)] C(3)
  obtain s2 where W: "with_data_mut g (copy_in bs) s1 = Inr ((), s2)" "pool_inv (add_mset (g_frame g) G) {} s2"
    "pool_view s2 = (pool_view s)(p \<mapsto> bs)" using C(2) by auto
  have "pool_inv G {} s3 \<and> pool_view s3 = (pool_view s)(p \<mapsto> bs)" if "write_guard_drop g s2 = Inr s3" for s3
    using guard_drop_inv(1,2) [OF W(2) _ _ _ that] C(3) W(3) by simp
  moreover have "unat (pin_count (frames s1 ! unat f)) = count G (unat f) + 1"
    using C(1) entry(1) by (simp add: pool_inv_def guards_ok_def)
  moreover have "guard_bytes g s1 = b" using guard_view [OF C(1,4)] b1 C(3) by (simp add: guard_bytes_def)
  ultimately show ?thesis using W C by auto
qed

text \<open>A pool with one frame, after two calls of \<open>new_page\<close> and a read of page 0.\<close>

definition busy_pool :: bpm where
  "busy_pool = \<lparr>frames = [frame_new 0],
     replacer = (arc_new 1)\<lparr>mru := [(0, 0)], evictable_pages := {0}, curr_size := 1\<rparr>,
     scheduler = scheduler_new (disk_of [(0, 0), (1, PAGE_SIZE)] []), num_frames = 1, next_page_id = 2,
     free_frames = [], page_table = [(0, 0)]\<rparr>"

lemma busy_pool_idle: "pool_idle busy_pool"
  and busy_pool_view: "pool_view busy_pool 0 = Some (replicate PAGE_SIZE 0)" "pool_view busy_pool 1 = Some (replicate PAGE_SIZE 0)"
proof -
  have "disk_ok (disk_of [(0, 0), (1, PAGE_SIZE)] [])"
    by (rule disk_of_ok) (auto simp: DB_IO_SIZE_def lessThan_Suc numeral_2_eq_2)
  from sched_new_ok [OF this] have sch: "sched_ok (scheduler busy_pool)"
    "sched_view (scheduler busy_pool) = disk_view (disk_of [(0, 0), (1, PAGE_SIZE)] [])" by (simp_all add: busy_pool_def)
  have lt: "(q :: u32) < 2 \<longleftrightarrow> q = 0 \<or> q = 1" for q
    by (simp add: word_less_nat_alt word_unat_eq_iff less_2_cases_iff)
  have z: "disk_view (disk_of [(0, 0), (1, PAGE_SIZE)] []) 0 = Some (replicate PAGE_SIZE 0)"
    "disk_view (disk_of [(0, 0), (1, PAGE_SIZE)] []) 1 = Some (replicate PAGE_SIZE 0)"
  proof -
    have "min PAGE_SIZE (DB_IO_SIZE * PAGE_SIZE) = PAGE_SIZE" by (simp add: DB_IO_SIZE_def)
    then show "disk_view (disk_of [(0, 0), (1, PAGE_SIZE)] []) 0 = Some (replicate PAGE_SIZE 0)"
      "disk_view (disk_of [(0, 0), (1, PAGE_SIZE)] []) 1 = Some (replicate PAGE_SIZE 0)"
      by (simp_all add: disk_view_def disk_of_def get_def min.commute)
  qed
  have "dom (disk_view (disk_of [(0, 0), (1, PAGE_SIZE)] [])) = {q. q < 2}" by (simp add: dom_disk_view lt) auto
  with sch z have "disk_side_ok busy_pool" unfolding disk_side_ok_def sch(2) by (simp add: busy_pool_def frame_new_def)
  moreover have "frames_ok busy_pool" "table_ok busy_pool" "guards_ok {#} {} busy_pool"
    by (simp_all add: frames_ok_def table_ok_def guards_ok_def busy_pool_def frame_new_def lessThan_Suc)
  moreover have "replacer_ok busy_pool" by (simp add: replacer_ok_def busy_pool_def arc_inv_def arc_new_def tracked_def)
  ultimately show "pool_idle busy_pool" by (simp add: pool_inv_def)
  show "pool_view busy_pool 0 = Some (replicate PAGE_SIZE 0)" "pool_view busy_pool 1 = Some (replicate PAGE_SIZE 0)"
    using z sch(2) by (simp_all add: pool_view_def) (simp_all add: busy_pool_def frame_new_def)
qed

theorem write_guard_lifecycle_witness:
  "\<exists>g0 s0 g s1 s2. check_write_page 0 busy_pool = Inr (g0, s0) \<and> check_write_page 0 s0 = Inr (g, s1)
    \<and> pin_count (frames s1 ! g_frame g) = 2 \<and> keeps_pinned {#g_frame g0#} s0 s1
    \<and> with_data_mut g (copy_in (replicate PAGE_SIZE 1)) s1 = Inr ((), s2) \<and> pool_view s2 0 = Some (replicate PAGE_SIZE 1)"
proof -
  have e: "map_of (page_table busy_pool) 0 = Some 0" by (simp add: busy_pool_def)
  have sz: "size ({#} :: nat multiset) + 1 < 2 ^ 64" "size {#0 :: nat#} + 1 < 2 ^ 64" by simp_all
  have i: "unat (0 :: frame_id) < length (frames busy_pool)" by (simp add: busy_pool_def)
  from guard_new_total [OF busy_pool_idle e] obtain g0 s0 where new: "write_guard_new 0 (unat (0 :: frame_id)) busy_pool = Inr (g0, s0)" by blast
  then have ck0: "check_write_page 0 busy_pool = Inr (g0, s0)" using e i by (simp add: check_write_page_def)
  note N = guard_new_inv [OF busy_pool_idle e sz(1) new]
  have inv: "pool_inv {#0#} {} s0" and e0: "map_of (page_table s0) 0 = Some 0" using N(1,3) e by (simp_all add: same_pool_def)
  from guard_new_total [OF inv e0] obtain g s1 where "write_guard_new 0 (unat (0 :: frame_id)) s0 = Inr (g, s1)" by blast
  then have ck: "check_write_page 0 s0 = Inr (g, s1)" "g_frame g = 0"
    using guard_new_inv(4) [OF inv e0 sz(2)] e0 pool_inv_entry(2) [OF inv e0] by (simp_all add: check_write_page_def)
  have v: "pool_view s0 0 = Some (replicate PAGE_SIZE 0)" using N(2) busy_pool_view(1) by simp
  have cf: "can_fetch {#0#} 0 s0" by (simp add: can_fetch_def e0)
  have "length (replicate PAGE_SIZE (1 :: u8)) = PAGE_SIZE" by simp
  from write_guard_lifecycle [OF inv sz(2) v cf ck(1) this] obtain s2 where
    "unat (pin_count (frames s1 ! g_frame g)) = 2" "keeps_pinned {#0#} s0 s1"
    "with_data_mut g (copy_in (replicate PAGE_SIZE 1)) s1 = Inr ((), s2)" "pool_view s2 = (pool_view s0)(0 \<mapsto> replicate PAGE_SIZE 1)"
    using ck(2) by auto
  then show ?thesis using ck0 ck(1) N(4) by (intro exI conjI) (assumption | simp add: word_unat_eq_iff)+
qed

text \<open>C29: A pinned frame can be taken away. In a pool with one frame a client holds a guard on page
  \<open>q\<close>; asking for another page is granted with the very same frame, because the access that made the
  guard did not take the frame off the policy's candidates. The first guard now shows the other
  page's bytes, and of the two pins only one is left.\<close>

theorem pinned_frame_reused:
  assumes "pool_idle s" and "num_frames s = 1" and "mfu_ghost (replacer s) = []"
    and "map_of (page_table s) q = Some f" and "p \<noteq> q" and "pool_view s p = Some b"
  shows "\<exists>g s1 g' s2. check_write_page q s = Inr (g, s1) \<and> check_write_page p s1 = Inr (g', s2)
    \<and> g_page_id g = q \<and> g_frame g' = g_frame g \<and> guard_bytes g s2 = b
    \<and> pin_count (frames s2 ! g_frame g) = 1 \<and> map_of (page_table s2) q = None"
proof -
  have sz: "size {#} + 1 < (2 :: nat) ^ 64" by simp
  note entry = pool_inv_entry [OF assms(1,4)]
  from guard_new_total [OF assms(1,4)] obtain g s1 where new: "write_guard_new q (unat f) s = Inr (g, s1)" by blast
  then have ck: "check_write_page q s = Inr (g, s1)" using assms(4) entry(2) by (simp add: check_write_page_def)
  note N = guard_new_inv [OF assms(1,4) sz new]
  have len: "length (page_table s) + length (free_frames s) = 1" using table_length [OF assms(1)] assms(2) by simp
  have "page_table s \<noteq> []" using assms(4) by auto
  with len have pt: "page_table s = [(q, f)]" and free: "free_frames s = []" using assms(4)
    by (cases "page_table s"; auto split: if_splits)+
  have e1: "map_of (page_table s1) q = Some f" using N(3) assms(4) by (simp add: same_pool_def)
  have pt1: "page_table s1 = [(q, f)]" "free_frames s1 = []" using N(3) pt free by (simp_all add: same_pool_def)
  have ev: "f \<in> evictable_pages (replacer s)" using assms(1) pt by (simp add: pool_inv_def guards_ok_def)
  obtain v where vic: "favoured_victim (replacer s1) = Some v" by (rule victim_exists [OF N(1)]) (use ev N(6) in auto)
  have "unat (fst v) \<notin> {}" by simp
  from evict_frame_run [OF N(1) vic this] obtain q' f' r sch where
    run: "evict (replacer s1) = Inr (Some f', r)" "map_of (page_table s1) q' = Some f'" "arc_inv r"
      "evict_frame s1 = Inr (s1\<lparr>replacer := r, free_frames := free_frames s1 @ [f'],
      page_table := AList.delete q' (page_table s1), scheduler := sch,
      frames := (frames s1)[unat f' := (frames s1 ! unat f')\<lparr>fh_data := replicate PAGE_SIZE 0, pin_count := 0, is_dirty := False\<rparr>]\<rparr>)"
    and sch: "sched_ok sch" "sched_view sch = (sched_view (scheduler s1))(q' \<mapsto> fh_data (frames s1 ! unat f'))"
    by metis
  have same: "q' = q" "f' = f" using run(2) pt1 by (auto split: if_splits)
  note run = run [unfolded same pt1]
  have mfu: "mfu_ghost (replacer s1) = []" using guard_new_mfu_ghost [OF new] assms(3) by simp
  have gh: "p \<notin> set (mfu_ghost r)"
  proof -
    have "tracked (replacer s1) = {(f, q)}" using N(1) pt1 by (simp add: pool_inv_def replacer_ok_def)
    then have U: "set (mru (replacer s1)) \<union> set (mfu (replacer s1)) = {(f, q)}" by (simp only: tracked_def)
    have "x = q" if "(f, x) \<in> set (mru (replacer s1)) \<or> (f, x) \<in> set (mfu (replacer s1))" for x
    proof -
      have "(f, x) \<in> {(f, q)}" unfolding U [symmetric] using that by (simp only: Un_iff)
      then show ?thesis by simp
    qed
    then show ?thesis using evict_which [OF run(1)] evict_from_ghost [of "replacer s1" f r] mfu assms(5) by fastforce
  qed
  have "map_of (page_table s1) p = None" using pt1 assms(5) by simp
  then have "sched_view (scheduler s1) p = Some b" 
  proof -
    have "pool_view s1 p = Some b" using assms(6) by (simp only: N(2))
    then show ?thesis using \<open>map_of (page_table s1) p = None\<close> by (simp only: pool_view_def option.case)
  qed
  then have v1: "sched_view sch p = Some b" using assms(5) by (simp add: sch(2) same)
  from sched_read_ok [OF sch(1) this] obtain sch' where
    io: "disk_io ReqRead p (replicate PAGE_SIZE 0) sch = Inr (Some b, sch')" by blast
  obtain r' where acc: "record_access f p r = Inr r'"
    using record_access_panics [OF run(3), of f p] gh by (cases "record_access f p r") auto
  note entry1 = pool_inv_entry [OF N(1) e1]
  have lk: "fh_lock (frames s1 ! unat f) = Unlocked" using N(1) entry1(1) by (simp add: pool_inv_def guards_ok_def)
  have len: "length b = PAGE_SIZE" using pool_view_length [OF assms(1,6)] .
  let ?fr = "(frames s1 ! unat f)\<lparr>is_dirty := False, fh_data := b, pin_count := 0\<rparr>"
  obtain s2 where s2: "check_write_page p s1 = Inr (\<lparr>g_page_id = p, g_frame = unat f, g_valid = True\<rparr>, s2)"
    "frames s2 = (frames s1)[unat f := pin ?fr]" "page_table s2 = [(p, f)]"
    using pt1 assms(5) run(4) io acc lk entry1(2,6,7) len
    by (simp add: check_write_page_def pop_free_frame_def load_page_def write_guard_new_def pin_def upd_frame_def AList.delete_eq)
  then show ?thesis using ck N(4) entry1(2) assms(5) by (simp add: guard_bytes_def pin_def)
qed

theorem pinned_frame_reused_witness:
  "\<exists>g s1 g' s2. check_write_page 0 busy_pool = Inr (g, s1) \<and> check_write_page 1 s1 = Inr (g', s2)
    \<and> g_page_id g = 0 \<and> g_frame g' = g_frame g \<and> map_of (page_table s2) 0 = None"
proof -
  have "num_frames busy_pool = 1" "mfu_ghost (replacer busy_pool) = []" "map_of (page_table busy_pool) 0 = Some 0"
    by (simp_all add: busy_pool_def arc_new_def)
  from pinned_frame_reused [OF busy_pool_idle this _ busy_pool_view(2)] show ?thesis by auto
qed

text \<open>Deleting a page that nobody has pinned: \<open>remove\<close> returns at once, since the frame is a candidate.\<close>

lemma delete_unpinned:
  assumes "pool_inv G {} s" and "map_of (page_table s) p = Some f" and "unat f \<notin># G"
  obtains sch where "bpm_delete_page p s = Inr (s\<lparr>page_table := AList.delete p (page_table s),
      frames := (frames s)[unat f := (frames s ! unat f)\<lparr>fh_data := replicate PAGE_SIZE 0, pin_count := 0, is_dirty := False\<rparr>],
      free_frames := free_frames s @ [f], scheduler := sch\<rparr>)"
    and "sched_ok sch" and "sched_view sch = (sched_view (scheduler s))(p := None)" and "f \<in> evictable_pages (replacer s)"
proof -
  note entry = pool_inv_entry [OF assms(1,2)]
  have "f \<in> snd ` set (page_table s)" using map_of_SomeD [OF assms(2)] by force
  then have ev: "f \<in> evictable_pages (replacer s)" using assms(1,3) unfolding pool_inv_def guards_ok_def by blast
  have "unat (pin_count (frames s ! unat f)) = 0" using assms(1) entry(1) assms(3)
    by (simp add: pool_inv_def guards_ok_def not_in_iff)
  then have pin0: "pin_count (frames s ! unat f) = 0" by (simp add: unat_eq_0)
  have lk: "fh_lock (frames s ! unat f) = Unlocked" using assms(1) entry(1) by (simp add: pool_inv_def guards_ok_def)
  from sched_delete_ok [OF sched_parts(1) [OF assms(1)], of p "replicate PAGE_SIZE 0"] obtain sch where
    io: "disk_io ReqDelete p (replicate PAGE_SIZE 0) (scheduler s) = Inr (Some (replicate PAGE_SIZE 0), sch)"
    and sch: "sched_ok sch" "sched_view sch = (sched_view (scheduler s))(p := None)" by blast
  show ?thesis
    by (rule that [OF _ sch ev]) (use assms(2) entry(2,7) pin0 lk io ev in \<open>simp add: bpm_delete_page_def Let_def arc_remove_def\<close>)
qed

text \<open>C28: \<open>delete_page\<close> does nothing while the page is pinned. Otherwise the page is gone from the
  pool and from the disk and its frame is free again, with no other page touched; but the replacer
  still has the entry of the deleted page and still counts its frame as a candidate.\<close>

theorem delete_page_outcome:
  assumes "pool_inv G {} s" and "map_of (page_table s) p = Some f"
  shows "if unat f \<in># G then bpm_delete_page p s = Inr s
    else \<exists>s'. bpm_delete_page p s = Inr s' \<and> pool_view s' = (pool_view s)(p := None)
      \<and> free_frames s' = free_frames s @ [f] \<and> map_of (page_table s') p = None
      \<and> (f, p) \<in> tracked (replacer s') \<and> f \<in> evictable_pages (replacer s')"
proof (cases "unat f \<in># G")
  case True
  note entry = pool_inv_entry [OF assms]
  have "0 < unat (pin_count (frames s ! unat f))" using assms(1) entry(1) True by (simp add: pool_inv_def guards_ok_def)
  then have "pin_count (frames s ! unat f) > 0" by (simp add: word_less_nat_alt)
  with True assms(2) entry(2) show ?thesis by (simp add: bpm_delete_page_def)
next
  case False
  note entry = pool_inv_entry [OF assms]
  obtain sch where run: "bpm_delete_page p s = Inr (s\<lparr>page_table := AList.delete p (page_table s),
      frames := (frames s)[unat f := (frames s ! unat f)\<lparr>fh_data := replicate PAGE_SIZE 0, pin_count := 0, is_dirty := False\<rparr>],
      free_frames := free_frames s @ [f], scheduler := sch\<rparr>)" (is "_ = Inr ?s'")
    and sch: "sched_view sch = (sched_view (scheduler s))(p := None)" and ev: "f \<in> evictable_pages (replacer s)"
    by (rule delete_unpinned [OF assms False])
  have "pool_view ?s' q = ((pool_view s)(p := None)) q" for q
  proof (cases "q = p")
    case True
    then show ?thesis by (simp add: pool_view_def sch)
  next
    case ne: False
    have "unat h \<noteq> unat f" if "map_of (page_table s) q = Some h" for h
      using pool_inv_table_inj [OF assms(1) that] assms(2) ne unsigned_word_eqI [of h f] by auto
    with ne show ?thesis by (auto simp: pool_view_def sch split: option.split)
  qed
  then have "pool_view ?s' = (pool_view s)(p := None)" by blast
  with run ev entry(3) False show ?thesis by simp
qed

theorem delete_page_outcome_witness:
  "\<exists>s'. bpm_delete_page 0 busy_pool = Inr s' \<and> free_frames s' = [0] \<and> (0, 0) \<in> tracked (replacer s')"
proof -
  have "map_of (page_table busy_pool) 0 = Some 0" "free_frames busy_pool = []" by (simp_all add: busy_pool_def)
  with delete_page_outcome [OF busy_pool_idle this(1)] show ?thesis by auto
qed

end
