(* ===== verification/NodeCodec.thy ===== *)
theory NodeCodec
  imports Prelude
begin

text \<open>
  \<open>b_plus_tree.rs\<close>, the nodes: keys, record ids, leaf and internal nodes, and their layout in a page
  (a 16-byte header, then entries of a fixed width). The two \<open>encode\<close> methods and the two \<open>decode\<close>
  methods run the same loop over entries, so the loop is written once, over the code of one entry;
  what one entry must satisfy is the locale \<open>entry_codec\<close>, interpreted for both kinds of entry.
  \<open>Vec::with_capacity\<close> only reserves memory and is left out.
\<close>

section \<open>Keys and nodes\<close>

text \<open>An \<open>i64\<close>: 64 bits, ordered as a signed number.\<close>

datatype i64 = I64 u64

fun i64_bits :: "i64 \<Rightarrow> u64" where
  "i64_bits (I64 w) = w"

definition i64_val :: "i64 \<Rightarrow> int" where
  "i64_val k = sint (i64_bits k)"

lemma i64_val_inj: "i64_val a = i64_val b \<longleftrightarrow> a = b"
  by (cases a; cases b) (auto simp: i64_val_def intro: signed_word_eqI)

instantiation i64 :: linorder
begin

definition less_eq_i64 :: "i64 \<Rightarrow> i64 \<Rightarrow> bool" where
  "less_eq_i64 a b \<longleftrightarrow> i64_val a \<le> i64_val b"

definition less_i64 :: "i64 \<Rightarrow> i64 \<Rightarrow> bool" where
  "less_i64 a b \<longleftrightarrow> i64_val a < i64_val b"

instance
  by standard (auto simp: less_eq_i64_def less_i64_def i64_val_inj)

end

definition i64_of :: "int \<Rightarrow> i64" where
  "i64_of n = I64 (word_of_int n)"

text \<open>\<open>i64::MIN\<close>, the key of an internal node's first entry.\<close>

definition INVALID_KEY :: i64 where
  "INVALID_KEY = i64_of (- (2 ^ 63))"

lemma i64_val_INVALID_KEY: "i64_val INVALID_KEY = - (2 ^ 63)"
  by (simp add: INVALID_KEY_def i64_of_def i64_val_def)

lemma INVALID_KEY_le [simp]: "INVALID_KEY \<le> k"
  using sint_greater_eq [of "i64_bits k"] by (simp add: less_eq_i64_def i64_val_INVALID_KEY) (simp add: i64_val_def)

definition i64_to_le :: "i64 \<Rightarrow> u8 list" where
  "i64_to_le k = u64_to_le (i64_bits k)"

definition i64_from_le :: "u8 list \<Rightarrow> i64" where
  "i64_from_le bs = I64 (u64_from_le bs)"

lemma i64_from_to_le [simp]: "i64_from_le (i64_to_le k) = k"
  by (cases k) (simp add: i64_from_le_def i64_to_le_def)

lemma length_i64_to_le [simp]: "length (i64_to_le k) = 8"
  by (simp add: i64_to_le_def)

definition DEFAULT_LEAF_NODE_MAX_SIZE :: u32 where
  "DEFAULT_LEAF_NODE_MAX_SIZE = 511"

definition DEFAULT_INTERNAL_NODE_MAX_SIZE :: u32 where
  "DEFAULT_INTERNAL_NODE_MAX_SIZE = 681"

definition HEADER_SIZE :: nat where
  "HEADER_SIZE = 16"

definition LEAF_NODE :: u8 where
  "LEAF_NODE = 1"

definition INTERNAL_NODE :: u8 where
  "INTERNAL_NODE = 0"

record record_id =
  rid_page_id :: page_id
  rid_slot_num :: u32

type_synonym leaf_kv = "i64 \<times> record_id"
type_synonym internal_kv = "i64 \<times> page_id"

record leaf_node =
  ln_next_page_id :: page_id
  ln_entries :: "leaf_kv list"

record internal_node =
  in_entries :: "internal_kv list"

section \<open>The loops over entries\<close>

fun encode_entries :: "('e \<Rightarrow> nat \<Rightarrow> u8 list \<Rightarrow> u8 list res) \<Rightarrow> nat \<Rightarrow> 'e list \<Rightarrow> nat \<Rightarrow> u8 list \<Rightarrow> u8 list res" where
  "encode_entries put_entry w [] off bs = Inr bs"
| "encode_entries put_entry w (e # es) off bs =
     seq (put_entry e off bs) (encode_entries put_entry w es (off + w))"

fun decode_entries :: "(nat \<Rightarrow> u8 list \<Rightarrow> 'e res) \<Rightarrow> nat \<Rightarrow> nat \<Rightarrow> nat \<Rightarrow> u8 list \<Rightarrow> 'e list res" where
  "decode_entries get_entry w 0 off bs = Inr []"
| "decode_entries get_entry w (Suc n) off bs =
     seq (get_entry off bs) (\<lambda>e. seq (decode_entries get_entry w n (off + w) bs) (\<lambda>es. Inr (e # es)))"

text \<open>What an entry's code promises: it writes and reads \<open>width\<close> bytes at the offset and nothing else,
  fails exactly out of bounds, and reads back what it wrote.\<close>

locale entry_codec =
  fixes width :: nat
    and put_entry :: "'e \<Rightarrow> nat \<Rightarrow> u8 list \<Rightarrow> u8 list res"
    and get_entry :: "nat \<Rightarrow> u8 list \<Rightarrow> 'e res"
  assumes put_law: "off + width \<le> length bs \<Longrightarrow> \<exists>w. put_entry e off bs = Inr (put off w bs) \<and> length w = width
      \<and> get_entry off (put off w bs) = Inr e"
    and put_bounds: "length bs < off + width \<Longrightarrow> put_entry e off bs = Inl IndexError"
    and get_law: "off + width \<le> length bs \<Longrightarrow> \<exists>e. get_entry off bs = Inr e"
    and get_bounds: "length bs < off + width \<Longrightarrow> get_entry off bs = Inl IndexError"
    and get_local: "off + width \<le> length bs \<Longrightarrow> length bs' = length bs \<Longrightarrow> get off width bs' = get off width bs
      \<Longrightarrow> get_entry off bs' = get_entry off bs"
begin

lemma decode_local:
  assumes "off + n * width \<le> length bs" and "length bs' = length bs"
    and "\<And>i. i < n \<Longrightarrow> get (off + i * width) width bs' = get (off + i * width) width bs"
  shows "decode_entries get_entry width n off bs' = decode_entries get_entry width n off bs"
  using assms
proof (induction n arbitrary: off)
  case 0
  then show ?case by simp
next
  case (Suc n)
  have "get_entry off bs' = get_entry off bs"
    using Suc.prems(1,2) Suc.prems(3) [of 0] by (intro get_local) simp_all
  moreover have "decode_entries get_entry width n (off + width) bs' = decode_entries get_entry width n (off + width) bs"
  proof (rule Suc.IH)
    fix i assume "i < n"
    with Suc.prems(3) [of "Suc i"] show "get (off + width + i * width) width bs' = get (off + width + i * width) width bs"
      by (simp add: add.assoc)
  qed (use Suc.prems in simp_all)
  ultimately show ?case by simp
qed

lemma encode_law:
  assumes "off + length es * width \<le> length bs"
  shows "\<exists>w. encode_entries put_entry width es off bs = Inr (put off w bs) \<and> length w = length es * width
    \<and> decode_entries get_entry width (length es) off (put off w bs) = Inr es"
  using assms
proof (induction es arbitrary: off bs)
  case Nil
  then show ?case by (simp add: put_def)
next
  case (Cons e es)
  from Cons.prems have fit: "off + width \<le> length bs" by simp
  from put_law [OF fit] obtain w1 where
    w1: "put_entry e off bs = Inr (put off w1 bs)" "length w1 = width" "get_entry off (put off w1 bs) = Inr e" by blast
  have "off + width + length es * width \<le> length (put off w1 bs)" using Cons.prems w1(2) by simp
  from Cons.IH [OF this] obtain w2 where
    w2: "encode_entries put_entry width es (off + width) (put off w1 bs) = Inr (put (off + width) w2 (put off w1 bs))"
      "length w2 = length es * width"
      "decode_entries get_entry width (length es) (off + width) (put (off + width) w2 (put off w1 bs)) = Inr es" by blast
  have join: "put (off + width) w2 (put off w1 bs) = put off (w1 @ w2) bs"
    using Cons.prems w1(2) w2(2) by (intro put_put_adjacent) simp_all
  have "get_entry off (put (off + width) w2 (put off w1 bs)) = get_entry off (put off w1 bs)"
    using fit Cons.prems w1(2) w2(2) by (intro get_local) (simp_all add: slice_simps)
  with w1 w2 join show ?case by (intro exI [of _ "w1 @ w2"]) simp
qed

lemma encode_bounds:
  assumes "off \<le> length bs" and "length bs < off + length es * width"
  shows "encode_entries put_entry width es off bs = Inl IndexError"
  using assms
proof (induction es arbitrary: off bs)
  case Nil
  then show ?case by simp
next
  case (Cons e es)
  show ?case
  proof (cases "off + width \<le> length bs")
    case True
    from put_law [OF this] obtain w where w: "put_entry e off bs = Inr (put off w bs)" "length w = width" by blast
    with True Cons.IH [of "off + width" "put off w bs"] Cons.prems show ?thesis by simp
  next
    case False
    with put_bounds [of bs off e] show ?thesis by simp
  qed
qed

lemma decode_total: "off + n * width \<le> length bs \<Longrightarrow> \<exists>es. decode_entries get_entry width n off bs = Inr es \<and> length es = n"
proof (induction n arbitrary: off)
  case 0
  then show ?case by simp
next
  case (Suc n)
  then have "off + width \<le> length bs" "off + width + n * width \<le> length bs" by simp_all
  with get_law [of off bs] Suc.IH [of "off + width"] show ?case by fastforce
qed

lemma decode_bounds:
  "off \<le> length bs \<Longrightarrow> length bs < off + n * width \<Longrightarrow> decode_entries get_entry width n off bs = Inl IndexError"
proof (induction n arbitrary: off)
  case 0
  then show ?case by simp
next
  case (Suc n)
  show ?case
  proof (cases "off + width \<le> length bs")
    case True
    with Suc.IH [of "off + width"] Suc.prems get_law [of off bs] show ?thesis by force
  next
    case False
    with get_bounds [of bs off] show ?thesis by simp
  qed
qed

end

section \<open>Leaf entries and leaf nodes\<close>

definition put_leaf_entry :: "leaf_kv \<Rightarrow> nat \<Rightarrow> u8 list \<Rightarrow> u8 list res" where
  "put_leaf_entry e off bs =
     seq (copy_into off (i64_to_le (fst e)) bs) (\<lambda>bs1.
       seq (copy_into (off + 8) (u32_to_le (rid_page_id (snd e))) bs1)
         (copy_into (off + 12) (u32_to_le (rid_slot_num (snd e)))))"

definition get_leaf_entry :: "nat \<Rightarrow> u8 list \<Rightarrow> leaf_kv res" where
  "get_leaf_entry off bs =
     seq (slice off 8 bs) (\<lambda>k.
       seq (slice (off + 8) 4 bs) (\<lambda>p.
         seq (slice (off + 12) 4 bs) (\<lambda>n.
           Inr (i64_from_le k, \<lparr>rid_page_id = u32_from_le p, rid_slot_num = u32_from_le n\<rparr>))))"

definition leaf_decode :: "u8 list \<Rightarrow> leaf_node res" where
  "leaf_decode bytes =
     seq (slice 4 4 bytes) (\<lambda>current_size.
       seq (slice 12 4 bytes) (\<lambda>next_page_id.
         seq (decode_entries get_leaf_entry 16 (unat (u32_from_le current_size)) HEADER_SIZE bytes) (\<lambda>entries.
           Inr \<lparr>ln_next_page_id = u32_from_le next_page_id, ln_entries = entries\<rparr>)))"

definition leaf_encode :: "leaf_node \<Rightarrow> u8 list \<Rightarrow> u8 list res" where
  "leaf_encode n bytes =
     seq (copy_into 0 [1] bytes) (\<lambda>b1.
       seq (copy_into 4 (u32_to_le (of_nat (length (ln_entries n)))) b1) (\<lambda>b2.
         seq (copy_into 8 (u32_to_le DEFAULT_LEAF_NODE_MAX_SIZE) b2) (\<lambda>b3.
           seq (copy_into 12 (u32_to_le (ln_next_page_id n)) b3)
             (encode_entries put_leaf_entry 16 (ln_entries n) HEADER_SIZE))))"

section \<open>Internal entries and internal nodes\<close>

definition put_internal_entry :: "internal_kv \<Rightarrow> nat \<Rightarrow> u8 list \<Rightarrow> u8 list res" where
  "put_internal_entry e off bs =
     seq (copy_into off (i64_to_le (fst e)) bs) (copy_into (off + 8) (u32_to_le (snd e)))"

definition get_internal_entry :: "nat \<Rightarrow> u8 list \<Rightarrow> internal_kv res" where
  "get_internal_entry off bs =
     seq (slice off 8 bs) (\<lambda>k. seq (slice (off + 8) 4 bs) (\<lambda>p. Inr (i64_from_le k, u32_from_le p)))"

definition internal_decode :: "u8 list \<Rightarrow> internal_node res" where
  "internal_decode bytes =
     seq (slice 4 4 bytes) (\<lambda>current_size.
       seq (decode_entries get_internal_entry 12 (unat (u32_from_le current_size)) HEADER_SIZE bytes) (\<lambda>entries.
         Inr \<lparr>in_entries = entries\<rparr>))"

definition internal_encode :: "internal_node \<Rightarrow> u8 list \<Rightarrow> u8 list res" where
  "internal_encode n bytes =
     seq (copy_into 0 [0] bytes) (\<lambda>b1.
       seq (copy_into 4 (u32_to_le (of_nat (length (in_entries n)))) b1) (\<lambda>b2.
         seq (copy_into 8 (u32_to_le DEFAULT_INTERNAL_NODE_MAX_SIZE) b2)
           (encode_entries put_internal_entry 12 (in_entries n) HEADER_SIZE)))"

section \<open>Both entries are entry codecs\<close>

lemma put_leaf_entry_ok:
  assumes "off + 16 \<le> length bs"
  shows "put_leaf_entry (k, r) off bs
    = Inr (put off (i64_to_le k @ u32_to_le (rid_page_id r) @ u32_to_le (rid_slot_num r)) bs)"
  using assms by (simp add: put_leaf_entry_def copy_into_ok put_put_adjacent)

lemma get_leaf_entry_ok:
  assumes "off + 16 \<le> length bs"
  shows "get_leaf_entry off bs = (let e = get off 16 bs in Inr (i64_from_le (get 0 8 e),
    \<lparr>rid_page_id = u32_from_le (get 8 4 e), rid_slot_num = u32_from_le (get 12 4 e)\<rparr>))"
  using assms by (simp add: get_leaf_entry_def slice_ok get_get)

lemma put_internal_entry_ok:
  assumes "off + 12 \<le> length bs"
  shows "put_internal_entry (k, p) off bs = Inr (put off (i64_to_le k @ u32_to_le p) bs)"
  using assms by (simp add: put_internal_entry_def copy_into_ok put_put_adjacent)

lemma get_internal_entry_ok:
  assumes "off + 12 \<le> length bs"
  shows "get_internal_entry off bs = (let e = get off 12 bs in Inr (i64_from_le (get 0 8 e), u32_from_le (get 8 4 e)))"
  using assms by (simp add: get_internal_entry_def slice_ok get_get)

lemma get_pieces: "length a = n \<Longrightarrow> get 0 n (a @ b) = a" "length b = n \<Longrightarrow> get (length a) n (a @ b) = b"
  by (simp_all add: get_def)

interpretation leaf_codec: entry_codec 16 put_leaf_entry get_leaf_entry
proof unfold_locales
  fix off and bs :: "u8 list" and e :: leaf_kv
  assume fit: "off + 16 \<le> length bs"
  obtain k r where e: "e = (k, r)" by fastforce
  let ?w = "i64_to_le k @ u32_to_le (rid_page_id r) @ u32_to_le (rid_slot_num r)"
  have "get 0 8 ?w = i64_to_le k" "get 8 4 ?w = u32_to_le (rid_page_id r)" "get 12 4 ?w = u32_to_le (rid_slot_num r)"
    by (simp_all add: get_def)
  moreover have "get off 16 (put off ?w bs) = ?w" using fit by (intro get_put_same) simp_all
  ultimately have "get_leaf_entry off (put off ?w bs) = Inr e"
    using fit by (simp add: get_leaf_entry_ok e)
  with put_leaf_entry_ok [OF fit, of k r] e show "\<exists>w. put_leaf_entry e off bs = Inr (put off w bs) \<and> length w = 16
      \<and> get_leaf_entry off (put off w bs) = Inr e" by (intro exI [of _ ?w]) simp
  show "\<exists>e. get_leaf_entry off bs = Inr e" using fit by (simp add: get_leaf_entry_ok Let_def)
next
  fix off and bs :: "u8 list" and e :: leaf_kv
  assume "length bs < off + 16"
  then show "put_leaf_entry e off bs = Inl IndexError" "get_leaf_entry off bs = Inl IndexError"
    by (auto simp: put_leaf_entry_def get_leaf_entry_def copy_into_def slice_def)
next
  fix off and bs bs' :: "u8 list"
  assume "off + 16 \<le> length bs" "length bs' = length bs" "get off 16 bs' = get off 16 bs"
  then show "get_leaf_entry off bs' = get_leaf_entry off bs" by (simp add: get_leaf_entry_ok)
qed

interpretation internal_codec: entry_codec 12 put_internal_entry get_internal_entry
proof unfold_locales
  fix off and bs :: "u8 list" and e :: internal_kv
  assume fit: "off + 12 \<le> length bs"
  obtain k p where e: "e = (k, p)" by fastforce
  let ?w = "i64_to_le k @ u32_to_le p"
  have "get 0 8 ?w = i64_to_le k" "get 8 4 ?w = u32_to_le p" by (simp_all add: get_def)
  moreover have "get off 12 (put off ?w bs) = ?w" using fit by (intro get_put_same) simp_all
  ultimately have "get_internal_entry off (put off ?w bs) = Inr e"
    using fit by (simp add: get_internal_entry_ok e)
  with put_internal_entry_ok [OF fit, of k p] e show "\<exists>w. put_internal_entry e off bs = Inr (put off w bs) \<and> length w = 12
      \<and> get_internal_entry off (put off w bs) = Inr e" by (intro exI [of _ ?w]) simp
  show "\<exists>e. get_internal_entry off bs = Inr e" using fit by (simp add: get_internal_entry_ok Let_def)
next
  fix off and bs :: "u8 list" and e :: internal_kv
  assume "length bs < off + 12"
  then show "put_internal_entry e off bs = Inl IndexError" "get_internal_entry off bs = Inl IndexError"
    by (auto simp: put_internal_entry_def get_internal_entry_def copy_into_def slice_def)
next
  fix off and bs bs' :: "u8 list"
  assume "off + 12 \<le> length bs" "length bs' = length bs" "get off 12 bs' = get off 12 bs"
  then show "get_internal_entry off bs' = get_internal_entry off bs" by (simp add: get_internal_entry_ok)
qed

section \<open>Nodes in pages\<close>

text \<open>A node whose entries fit is encoded, and decodes to itself; one that does not fit is an index
  panic.\<close>

lemma leaf_encode_ok:
  assumes fit: "HEADER_SIZE + length (ln_entries n) * 16 \<le> length bs" and small: "length (ln_entries n) < 2 ^ 32"
  shows "\<exists>bs'. leaf_encode n bs = Inr bs' \<and> length bs' = length bs \<and> leaf_decode bs' = Inr n \<and> bs' ! 0 = LEAF_NODE"
proof -
  have len: "16 \<le> length bs" using fit by (simp add: HEADER_SIZE_def)
  define cnt where "cnt = u32_to_le (of_nat (length (ln_entries n)))"
  define b4 where "b4 = put 12 (u32_to_le (ln_next_page_id n)) (put 8 (u32_to_le DEFAULT_LEAF_NODE_MAX_SIZE) (put 4 cnt (put 0 [1] bs)))"
  have l4: "length b4 = length bs" using len by (simp add: b4_def cnt_def)
  have "HEADER_SIZE + length (ln_entries n) * 16 \<le> length b4" using fit l4 by simp
  from leaf_codec.encode_law [OF this] obtain w where
    w: "encode_entries put_leaf_entry 16 (ln_entries n) HEADER_SIZE b4 = Inr (put HEADER_SIZE w b4)"
      "length w = length (ln_entries n) * 16"
      "decode_entries get_leaf_entry 16 (length (ln_entries n)) HEADER_SIZE (put HEADER_SIZE w b4) = Inr (ln_entries n)" by blast
  let ?bs = "put HEADER_SIZE w b4"
  have enc: "leaf_encode n bs = Inr ?bs"
    using len w(1) unfolding leaf_encode_def b4_def cnt_def by (simp add: copy_into_ok)
  have len': "length ?bs = length bs" using fit l4 w(2) by simp
  have outside: "get o' m ?bs = get o' m b4" if "o' + m \<le> HEADER_SIZE" for o' m
    using that fit l4 w(2) by (intro get_put_other) simp_all
  have "get 4 4 ?bs = cnt" "get 12 4 ?bs = u32_to_le (ln_next_page_id n)"
    using outside len by (simp_all add: HEADER_SIZE_def b4_def cnt_def slice_simps)
  moreover have "unat (u32_from_le cnt) = length (ln_entries n)" using small by (simp add: cnt_def unat_of_nat_u32)
  ultimately have dec: "leaf_decode ?bs = Inr n" using len len' w(3) by (simp add: leaf_decode_def slice_ok)
  have "0 < length bs" using len by linarith
  then have "?bs ! 0 = LEAF_NODE"
    using fit l4 w(2) len by (simp add: nth_put HEADER_SIZE_def b4_def cnt_def LEAF_NODE_def)
  with enc len' dec show ?thesis by blast
qed

lemma internal_encode_ok:
  assumes fit: "HEADER_SIZE + length (in_entries n) * 12 \<le> length bs" and small: "length (in_entries n) < 2 ^ 32"
  shows "\<exists>bs'. internal_encode n bs = Inr bs' \<and> length bs' = length bs \<and> internal_decode bs' = Inr n \<and> bs' ! 0 = INTERNAL_NODE"
proof -
  have len: "16 \<le> length bs" using fit by (simp add: HEADER_SIZE_def)
  define cnt where "cnt = u32_to_le (of_nat (length (in_entries n)))"
  define b3 where "b3 = put 8 (u32_to_le DEFAULT_INTERNAL_NODE_MAX_SIZE) (put 4 cnt (put 0 [0] bs))"
  have l3: "length b3 = length bs" using len by (simp add: b3_def cnt_def)
  have "HEADER_SIZE + length (in_entries n) * 12 \<le> length b3" using fit l3 by simp
  from internal_codec.encode_law [OF this] obtain w where
    w: "encode_entries put_internal_entry 12 (in_entries n) HEADER_SIZE b3 = Inr (put HEADER_SIZE w b3)"
      "length w = length (in_entries n) * 12"
      "decode_entries get_internal_entry 12 (length (in_entries n)) HEADER_SIZE (put HEADER_SIZE w b3) = Inr (in_entries n)" by blast
  let ?bs = "put HEADER_SIZE w b3"
  have enc: "internal_encode n bs = Inr ?bs"
    using len w(1) unfolding internal_encode_def b3_def cnt_def by (simp add: copy_into_ok)
  have len': "length ?bs = length bs" using fit l3 w(2) by simp
  have "get 4 4 ?bs = get 4 4 b3" using fit l3 w(2) by (intro get_put_other) (simp_all add: HEADER_SIZE_def)
  then have "get 4 4 ?bs = cnt" using len by (simp add: b3_def cnt_def slice_simps)
  moreover have "unat (u32_from_le cnt) = length (in_entries n)" using small by (simp add: cnt_def unat_of_nat_u32)
  ultimately have dec: "internal_decode ?bs = Inr n" using len len' w(3) by (simp add: internal_decode_def slice_ok)
  have "0 < length bs" using len by linarith
  then have "?bs ! 0 = INTERNAL_NODE"
    using fit l3 w(2) len by (simp add: nth_put HEADER_SIZE_def b3_def cnt_def INTERNAL_NODE_def)
  with enc len' dec show ?thesis by blast
qed

text \<open>A leaf of more entries than fit the page is a panic.\<close>

lemma leaf_encode_overflow:
  assumes "length bs = PAGE_SIZE" and "511 < length (ln_entries n)"
  shows "leaf_encode n bs = Inl IndexError"
proof -
  let ?b = "put 12 (u32_to_le (ln_next_page_id n)) (put 8 (u32_to_le DEFAULT_LEAF_NODE_MAX_SIZE)
    (put 4 (u32_to_le (of_nat (length (ln_entries n)))) (put 0 [1] bs)))"
  have len: "16 \<le> length bs" using assms(1) by (simp add: PAGE_SIZE_def)
  have "encode_entries put_leaf_entry 16 (ln_entries n) HEADER_SIZE ?b = Inl IndexError"
    using assms len by (intro leaf_codec.encode_bounds) (simp_all add: HEADER_SIZE_def PAGE_SIZE_def)
  with len show ?thesis by (simp add: leaf_encode_def copy_into_ok)
qed

section \<open>Properties\<close>

text \<open>C13: Leaf codec. On a page, a leaf of at most 511 entries (the default maximum, and exactly what
  fits behind the header) is encoded without touching the page's length, is marked as a leaf, and
  decodes to itself; one more entry is an index panic.\<close>

theorem leaf_roundtrip:
  assumes "length bs = PAGE_SIZE" and "length (ln_entries n) < 2 ^ 32"
  shows "if length (ln_entries n) \<le> unat DEFAULT_LEAF_NODE_MAX_SIZE
    then \<exists>bs'. leaf_encode n bs = Inr bs' \<and> length bs' = PAGE_SIZE \<and> index bs' 0 = Inr LEAF_NODE \<and> leaf_decode bs' = Inr n
    else leaf_encode n bs = Inl IndexError"
proof (cases "length (ln_entries n) \<le> 511")
  case True
  then have "HEADER_SIZE + length (ln_entries n) * 16 \<le> length bs" using assms(1) by (simp add: HEADER_SIZE_def PAGE_SIZE_def)
  from leaf_encode_ok [OF this assms(2)] obtain bs' where bs': "leaf_encode n bs = Inr bs'" "length bs' = length bs"
    "leaf_decode bs' = Inr n" "bs' ! 0 = LEAF_NODE" by blast
  have "index bs' 0 = Inr LEAF_NODE" using bs'(2,4) assms(1) by (simp add: index_def PAGE_SIZE_def)
  with bs' assms(1) have "\<exists>bs'. leaf_encode n bs = Inr bs' \<and> length bs' = PAGE_SIZE \<and> index bs' 0 = Inr LEAF_NODE \<and> leaf_decode bs' = Inr n"
    by (intro exI [of _ bs']) simp
  with True show ?thesis by (simp add: DEFAULT_LEAF_NODE_MAX_SIZE_def)
next
  case False
  then have "leaf_encode n bs = Inl IndexError" using leaf_encode_overflow [OF assms(1)] by simp
  with False show ?thesis by (simp add: DEFAULT_LEAF_NODE_MAX_SIZE_def)
qed

theorem leaf_roundtrip_witness:
  "\<exists>bs'. leaf_encode \<lparr>ln_next_page_id = 3, ln_entries = [(INVALID_KEY, \<lparr>rid_page_id = 4, rid_slot_num = 5\<rparr>)]\<rparr> (replicate PAGE_SIZE 7) = Inr bs'
    \<and> leaf_decode bs' = Inr \<lparr>ln_next_page_id = 3, ln_entries = [(INVALID_KEY, \<lparr>rid_page_id = 4, rid_slot_num = 5\<rparr>)]\<rparr>"
  using leaf_roundtrip [of "replicate PAGE_SIZE 7" "\<lparr>ln_next_page_id = 3, ln_entries = [(INVALID_KEY, \<lparr>rid_page_id = 4, rid_slot_num = 5\<rparr>)]\<rparr>"]
  by (auto simp: DEFAULT_LEAF_NODE_MAX_SIZE_def)

text \<open>C14: Internal codec. The same for internal nodes, with 681 entries as the capacity of a page; the
  twelve bytes left over at the end make the two capacities exact.\<close>

theorem internal_roundtrip:
  assumes "length bs = PAGE_SIZE" and "length (in_entries n) < 2 ^ 32"
  shows "if length (in_entries n) \<le> unat DEFAULT_INTERNAL_NODE_MAX_SIZE
    then \<exists>bs'. internal_encode n bs = Inr bs' \<and> length bs' = PAGE_SIZE \<and> index bs' 0 = Inr INTERNAL_NODE \<and> internal_decode bs' = Inr n
    else internal_encode n bs = Inl IndexError"
proof (cases "length (in_entries n) \<le> 681")
  case True
  then have "HEADER_SIZE + length (in_entries n) * 12 \<le> length bs" using assms(1) by (simp add: HEADER_SIZE_def PAGE_SIZE_def)
  from internal_encode_ok [OF this assms(2)] obtain bs' where bs': "internal_encode n bs = Inr bs'" "length bs' = length bs"
    "internal_decode bs' = Inr n" "bs' ! 0 = INTERNAL_NODE" by blast
  have "index bs' 0 = Inr INTERNAL_NODE" using bs'(2,4) assms(1) by (simp add: index_def PAGE_SIZE_def)
  with bs' assms(1) have "\<exists>bs'. internal_encode n bs = Inr bs' \<and> length bs' = PAGE_SIZE \<and> index bs' 0 = Inr INTERNAL_NODE \<and> internal_decode bs' = Inr n"
    by (intro exI [of _ bs']) simp
  with True show ?thesis by (simp add: DEFAULT_INTERNAL_NODE_MAX_SIZE_def)
next
  case False
  let ?b = "put 8 (u32_to_le DEFAULT_INTERNAL_NODE_MAX_SIZE) (put 4 (u32_to_le (of_nat (length (in_entries n)))) (put 0 [0] bs))"
  have len: "16 \<le> length bs" using assms(1) by (simp add: PAGE_SIZE_def)
  have "encode_entries put_internal_entry 12 (in_entries n) HEADER_SIZE ?b = Inl IndexError"
    using False assms(1) len by (intro internal_codec.encode_bounds) (simp_all add: HEADER_SIZE_def PAGE_SIZE_def)
  with len have "internal_encode n bs = Inl IndexError" by (simp add: internal_encode_def copy_into_ok)
  with False show ?thesis by (simp add: DEFAULT_INTERNAL_NODE_MAX_SIZE_def)
qed

theorem internal_roundtrip_witness:
  "\<exists>bs'. internal_encode \<lparr>in_entries = [(INVALID_KEY, 1), (INVALID_KEY, 2)]\<rparr> (replicate PAGE_SIZE 7) = Inr bs'
    \<and> internal_decode bs' = Inr \<lparr>in_entries = [(INVALID_KEY, 1), (INVALID_KEY, 2)]\<rparr>"
  using internal_roundtrip [of "replicate PAGE_SIZE 7" "\<lparr>in_entries = [(INVALID_KEY, 1), (INVALID_KEY, 2)]\<rparr>"]
  by (auto simp: DEFAULT_INTERNAL_NODE_MAX_SIZE_def)
end
