(* ===== verification/NodeSearch.thy ===== *)
theory NodeSearch
  imports NodeCodec
begin

text \<open>
  \<open>b_plus_tree.rs\<close>, the two binary searches inside a node: \<open>LeafNode::find_kv\<close> and
  \<open>InternalNode::find_child_index\<close>. Both keep a window \<open>low .. high\<close>; every index is checked, and
  the final \<open>low - 1\<close> of the second one panics when every key is greater than the one searched.
\<close>

function find_kv_loop :: "leaf_kv list \<Rightarrow> i64 \<Rightarrow> nat \<Rightarrow> nat \<Rightarrow> leaf_kv option res" where
  "find_kv_loop es key low high =
     (if low < high then
        let mid = low + (high - low) div 2
        in seq (index es mid) (\<lambda>e.
             let (low', high') = (if fst e \<le> key then (mid + 1, high) else (low, mid))
             in if fst e = key then Inr (Some e) else find_kv_loop es key low' high')
      else Inr None)"
  by pat_completeness auto
termination
  by (relation "measure (\<lambda>(es, key, low, high). high - low)") (auto split: if_splits)

declare find_kv_loop.simps [simp del]

definition find_kv :: "leaf_node \<Rightarrow> i64 \<Rightarrow> leaf_kv option res" where
  "find_kv n key = find_kv_loop (ln_entries n) key 0 (length (ln_entries n))"

function find_child_loop :: "internal_kv list \<Rightarrow> i64 \<Rightarrow> nat \<Rightarrow> nat \<Rightarrow> nat res" where
  "find_child_loop es key low high =
     (if low < high then
        let mid = low + (high - low) div 2
        in seq (index es mid) (\<lambda>e.
             if fst e \<le> key then find_child_loop es key (mid + 1) high else find_child_loop es key low mid)
      else Inr low)"
  by pat_completeness auto
termination
  by (relation "measure (\<lambda>(es, key, low, high). high - low)") auto

declare find_child_loop.simps [simp del]

definition find_child_index :: "internal_node \<Rightarrow> i64 \<Rightarrow> nat res" where
  "find_child_index n key =
     seq (find_child_loop (in_entries n) key 0 (length (in_entries n))) (\<lambda>low.
       if low = 0 then Inl ArithOverflow else Inr (low - 1))"

section \<open>What the searches find\<close>

text \<open>The window always encloses the first position whose key is greater: everything before \<open>low\<close> is
  at most the key, everything from \<open>high\<close> on is greater.\<close>

definition encloses :: "('k :: linorder \<times> 'v) list \<Rightarrow> 'k \<Rightarrow> nat \<Rightarrow> nat \<Rightarrow> bool" where
  "encloses es key low high \<longleftrightarrow> low \<le> high \<and> high \<le> length es
     \<and> (\<forall>i < low. fst (es ! i) \<le> key) \<and> (\<forall>i. high \<le> i \<longrightarrow> i < length es \<longrightarrow> key < fst (es ! i))"

lemma encloses_all: "encloses es key 0 (length es)"
  by (simp add: encloses_def)

lemma sorted_nth_le: "sorted (map fst es) \<Longrightarrow> i \<le> j \<Longrightarrow> j < length es \<Longrightarrow> fst (es ! i) \<le> fst (es ! j)"
  by (metis (no_types, lifting) length_map nth_map order.strict_trans1 sorted_nth_mono)

lemma encloses_low:
  assumes "sorted (map fst es)" and "encloses es key low high" and "mid < high" and "fst (es ! mid) \<le> key"
  shows "encloses es key (mid + 1) high"
proof -
  have "mid < length es" using assms(2,3) by (simp add: encloses_def)
  have "fst (es ! i) \<le> key" if "i < mid + 1" for i
    using sorted_nth_le [OF assms(1), of i mid] that \<open>mid < length es\<close> assms(4) by (simp add: order_trans)
  with assms(2,3) show ?thesis by (simp add: encloses_def)
qed

lemma encloses_high:
  assumes "sorted (map fst es)" and "encloses es key low high" and "low \<le> mid" and "mid < high" and "\<not> fst (es ! mid) \<le> key"
  shows "encloses es key low mid"
proof -
  have "key < fst (es ! i)" if "mid \<le> i" "i < length es" for i
    using sorted_nth_le [OF assms(1) that] assms(5) by (simp add: not_le order.strict_trans2)
  with assms(2-4) show ?thesis by (simp add: encloses_def)
qed

lemma mid_bounds: "(low :: nat) < high \<Longrightarrow> low \<le> low + (high - low) div 2 \<and> low + (high - low) div 2 < high"
  by linarith

lemma find_child_loop_sorted:
  "sorted (map fst es) \<Longrightarrow> encloses es key low high \<Longrightarrow> \<exists>i. find_child_loop es key low high = Inr i \<and> encloses es key i i"
proof (induction es key low high rule: find_child_loop.induct)
  case (1 es key low high)
  show ?case
  proof (cases "low < high")
    case False
    with 1(4) show ?thesis by (subst find_child_loop.simps) (auto simp: encloses_def)
  next
    case True
    define mid where "mid = low + (high - low) div 2"
    note mid = mid_bounds [OF True, folded mid_def]
    have e: "index es mid = Inr (es ! mid)" using mid 1(4) by (simp add: encloses_def)
    note step = find_child_loop.simps [of es key low high, folded mid_def, unfolded Let_def]
    show ?thesis
    proof (cases "fst (es ! mid) \<le> key")
      case le: True
      from 1(1) [OF True mid_def e le 1(3) encloses_low [OF 1(3,4) _ le]] mid True e le show ?thesis by (simp add: step)
    next
      case nle: False
      from 1(2) [OF True mid_def e nle 1(3) encloses_high [OF 1(3,4) _ _ nle]] mid True e nle show ?thesis by (simp add: step)
    qed
  qed
qed

text \<open>On sorted entries the child is the last entry whose key is at most the key searched; there is none
  exactly when the search panics.\<close>

lemma find_child_index_sorted:
  assumes sorted: "sorted (map fst (in_entries n))"
  shows "if in_entries n = [] \<or> key < fst (hd (in_entries n)) then find_child_index n key = Inl ArithOverflow
    else \<exists>i. find_child_index n key = Inr i \<and> i < length (in_entries n) \<and> fst (in_entries n ! i) \<le> key
      \<and> (\<forall>j. i < j \<longrightarrow> j < length (in_entries n) \<longrightarrow> key < fst (in_entries n ! j))"
proof -
  let ?es = "in_entries n"
  from find_child_loop_sorted [OF sorted encloses_all] obtain i where
    i: "find_child_loop ?es key 0 (length ?es) = Inr i" "encloses ?es key i i" by blast
  have zero: "i = 0 \<longleftrightarrow> ?es = [] \<or> key < fst (hd ?es)"
  proof (cases ?es)
    case (Cons e es)
    then show ?thesis using i(2) unfolding encloses_def
      by (cases i) (auto simp: hd_conv_nth not_less)
  qed (use i(2) in \<open>simp add: encloses_def\<close>)
  show ?thesis
  proof (cases "i = 0")
    case True
    with zero i(1) show ?thesis by (simp add: find_child_index_def)
  next
    case False
    with i(2) have "i - 1 < length ?es" "fst (?es ! (i - 1)) \<le> key"
      "\<forall>j. i - 1 < j \<longrightarrow> j < length ?es \<longrightarrow> key < fst (?es ! j)" by (auto simp: encloses_def)
    with zero False i(1) show ?thesis by (simp add: find_child_index_def)
  qed
qed

lemma find_kv_loop_sorted:
  "sorted (map fst es) \<Longrightarrow> encloses es key low high \<Longrightarrow> (\<forall>i < low. fst (es ! i) \<noteq> key) \<Longrightarrow>
     \<exists>r. find_kv_loop es key low high = Inr r
       \<and> (case r of None \<Rightarrow> key \<notin> fst ` set es | Some e \<Rightarrow> e \<in> set es \<and> fst e = key)"
proof (induction es key low high rule: find_kv_loop.induct)
  case (1 es key low high)
  note prems = 1(2-4)
  show ?case
  proof (cases "low < high")
    case False
    have "fst (es ! i) \<noteq> key" if "i < length es" for i
    proof (cases "i < low")
      case True
      with prems(3) show ?thesis by blast
    next
      case ge: False
      with False prems(2) that have "key < fst (es ! i)" by (simp add: encloses_def)
      then show ?thesis by simp
    qed
    then have "key \<notin> fst ` set es" by (metis imageE in_set_conv_nth)
    with False show ?thesis by (subst find_kv_loop.simps) simp
  next
    case True
    define mid where "mid = low + (high - low) div 2"
    note mid = mid_bounds [OF True, folded mid_def]
    have lt: "mid < length es" using mid prems(2) by (simp add: encloses_def)
    then have e: "index es mid = Inr (es ! mid)" by simp
    note step = find_kv_loop.simps [of es key low high, folded mid_def, unfolded Let_def]
    note IH = 1(1) [OF True mid_def e, OF refl]
    show ?thesis
    proof (cases "fst (es ! mid) = key")
      case found: True
      with True e lt show ?thesis by (simp add: step)
    next
      case other: False
      show ?thesis
      proof (cases "fst (es ! mid) \<le> key")
        case le: True
        have ne: "\<forall>i < mid + 1. fst (es ! i) \<noteq> key"
        proof (intro allI impI)
          fix i assume "i < mid + 1"
          then have "fst (es ! i) \<le> fst (es ! mid)" using sorted_nth_le [OF prems(1), of i mid] lt by simp
          with le other show "fst (es ! i) \<noteq> key" by auto
        qed
        have "encloses es key (mid + 1) high" using encloses_low [OF prems(1,2) _ le] mid by blast
        with IH [of "mid + 1" high] ne prems(1) True e le other show ?thesis by (simp add: step)
      next
        case nle: False
        have "encloses es key low mid" using encloses_high [OF prems(1,2) _ _ nle] mid by blast
        with IH [of low mid] prems(1,3) True e nle other show ?thesis by (simp add: step)
      qed
    qed
  qed
qed

text \<open>On sorted entries the search for a key finds an entry with this key if there is one; when the keys
  are distinct it is the map lookup.\<close>

lemma find_kv_sorted:
  assumes "sorted (map fst (ln_entries n))"
  shows "\<exists>r. find_kv n key = Inr r
    \<and> (case r of None \<Rightarrow> key \<notin> fst ` set (ln_entries n) | Some e \<Rightarrow> e \<in> set (ln_entries n) \<and> fst e = key)"
  unfolding find_kv_def by (rule find_kv_loop_sorted [OF assms encloses_all]) simp

lemma find_kv_lookup:
  assumes "sorted (map fst (ln_entries n))" and "distinct (map fst (ln_entries n))"
  shows "find_kv n key = Inr (map_option (Pair key) (map_of (ln_entries n) key))"
proof -
  from find_kv_sorted [OF assms(1), of key] obtain r where
    r: "find_kv n key = Inr r" "case r of None \<Rightarrow> key \<notin> fst ` set (ln_entries n) | Some e \<Rightarrow> e \<in> set (ln_entries n) \<and> fst e = key"
    by blast
  show ?thesis
  proof (cases r)
    case None
    with r show ?thesis by (simp add: map_of_eq_None_iff [THEN iffD2])
  next
    case (Some e)
    with r assms(2) have "map_of (ln_entries n) key = Some (snd e)" by (auto simp: map_of_eq_Some_iff)
    with r Some show ?thesis by (cases e) auto
  qed
qed

section \<open>Properties\<close>

lemma encloses_take_while:
  assumes "encloses es key i i"
  shows "length (takeWhile (\<lambda>e. fst e \<le> key) es) = i"
proof -
  have "takeWhile (\<lambda>e. fst e \<le> key) (take i es @ drop i es) = take i es @ takeWhile (\<lambda>e. fst e \<le> key) (drop i es)"
    using assms by (intro takeWhile_append2) (auto simp: encloses_def in_set_conv_nth)
  moreover have "takeWhile (\<lambda>e. fst e \<le> key) (drop i es) = []"
  proof (cases "drop i es")
    case (Cons e es')
    then have "i < length es" by (metis drop_all leI list.distinct(1))
    with assms Cons have "key < fst e" by (auto simp: encloses_def Cons_nth_drop_Suc [symmetric])
    with Cons show ?thesis by (simp add: not_le)
  qed simp
  ultimately have "takeWhile (\<lambda>e. fst e \<le> key) es = take i es" by simp
  with assms show ?thesis by (simp add: encloses_def)
qed

text \<open>C15: Child search. On a node sorted by key the binary search for a child returns what a linear scan
  returns, the last entry whose key is at most the one searched, and it panics exactly when the
  scan finds none.\<close>

theorem find_child_is_linear_scan:
  assumes "sorted (map fst (in_entries n))"
  shows "find_child_index n key =
    (let k = length (takeWhile (\<lambda>e. fst e \<le> key) (in_entries n)) in if k = 0 then Inl ArithOverflow else Inr (k - 1))"
proof -
  from find_child_loop_sorted [OF assms encloses_all] obtain i where
    "find_child_loop (in_entries n) key 0 (length (in_entries n)) = Inr i" "encloses (in_entries n) key i i" by blast
  with encloses_take_while [of "in_entries n" key i] show ?thesis by (simp add: find_child_index_def)
qed

theorem find_child_is_linear_scan_witness:
  "find_child_index \<lparr>in_entries = [(I64 0, 1), (I64 5, 2), (I64 9, 3)]\<rparr> (I64 7) = Inr 1"
  using find_child_is_linear_scan [of "\<lparr>in_entries = [(I64 0, 1), (I64 5, 2), (I64 9, 3)]\<rparr>" "I64 7"]
  by (simp add: less_eq_i64_def i64_val_def)

text \<open>C16: Leaf search. On a leaf sorted by distinct keys the binary search for an entry never panics and
  returns what a linear scan returns.\<close>

theorem find_kv_is_linear_scan:
  assumes "sorted_wrt (<) (map fst (ln_entries n))"
  shows "find_kv n key = Inr (List.find (\<lambda>e. fst e = key) (ln_entries n))"
proof -
  have "sorted (map fst (ln_entries n))" "distinct (map fst (ln_entries n))" using assms by (simp_all add: strict_sorted_iff)
  note lookup = find_kv_lookup [OF this]
  have "map_option (Pair key) (map_of es key) = List.find (\<lambda>e. fst e = key) es" for es :: "leaf_kv list"
    by (induction es) auto
  with lookup show ?thesis by simp
qed

theorem find_kv_is_linear_scan_witness:
  "find_kv \<lparr>ln_next_page_id = 0, ln_entries = [(I64 1, \<lparr>rid_page_id = 1, rid_slot_num = 1\<rparr>), (I64 5, \<lparr>rid_page_id = 2, rid_slot_num = 2\<rparr>)]\<rparr> (I64 5)
     = Inr (Some (I64 5, \<lparr>rid_page_id = 2, rid_slot_num = 2\<rparr>))"
  using find_kv_is_linear_scan [of "\<lparr>ln_next_page_id = 0, ln_entries = [(I64 1, \<lparr>rid_page_id = 1, rid_slot_num = 1\<rparr>), (I64 5, \<lparr>rid_page_id = 2, rid_slot_num = 2\<rparr>)]\<rparr>" "I64 5"]
  by (simp add: less_i64_def i64_val_def)
end
