(* ===== verification/BTree.thy ===== *)
theory BTree
  imports PoolClient NodeSearch
begin

text \<open>
  \<open>b_plus_tree.rs\<close>, the tree over the buffer pool. A guard lives until the end of its Rust scope; the
  model drops it there. A block that takes a guard, borrows its bytes and ends is \<open>with_read_page\<close> or
  \<open>with_write_page\<close>; where the code calls the pool while a borrow is alive, the borrow and its
  release are written out. \<open>sort_unstable_by_key\<close> may order equal keys either way; the model keeps
  them in order of insertion, and the properties are about distinct keys. The stack \<open>path_stack\<close> is a list
  whose head is the top.
\<close>

record btree =
  bt_header_page_id :: page_id
  bt_root_page_id :: page_id
  bt_pool :: bpm
  bt_leaf_max :: u32
  bt_internal_max :: u32

text \<open>\<open>BTree::new\<close> on the outcome of opening \<open>main.db\<close>: a pool of ten frames and a header page.\<close>

definition btree_new :: "os_file option \<Rightarrow> btree res" where
  "btree_new opened =
     seq (dm_new opened) (\<lambda>d.
       seq (new_page (bpm_new 10 d)) (\<lambda>(header, pool).
         Inr \<lparr>bt_header_page_id = header, bt_root_page_id = INVALID_PAGE_ID, bt_pool = pool,
              bt_leaf_max = DEFAULT_LEAF_NODE_MAX_SIZE, bt_internal_max = DEFAULT_INTERNAL_NODE_MAX_SIZE\<rparr>))"

definition set_leaf_max_size :: "u32 \<Rightarrow> btree \<Rightarrow> btree" where
  "set_leaf_max_size n t = t\<lparr>bt_leaf_max := n\<rparr>"

definition set_internal_max_size :: "u32 \<Rightarrow> btree \<Rightarrow> btree" where
  "set_internal_max_size n t = t\<lparr>bt_internal_max := n\<rparr>"

definition get_root_page_id :: "u8 list \<Rightarrow> page_id res" where
  "get_root_page_id bytes = seq (slice 0 4 bytes) (\<lambda>b. Inr (u32_from_le b))"

definition set_root_page_id :: "page_id \<Rightarrow> u8 list \<Rightarrow> u8 list res" where
  "set_root_page_id root bytes = copy_into 0 (u32_to_le root) bytes"

text \<open>New bytes and no result.\<close>

definition overwrite :: "(u8 list \<Rightarrow> u8 list res) \<Rightarrow> u8 list \<Rightarrow> (unit \<times> u8 list) res" where
  "overwrite h bs = seq (h bs) (\<lambda>bs'. Inr ((), bs'))"

section \<open>Lookup and scan\<close>

datatype find_step = AtLeaf leaf_node | Down page_id | Neither

text \<open>What one turn of the loop of \<open>find_leaf\<close> makes of the bytes of a page.\<close>

definition find_step_of :: "i64 \<Rightarrow> u8 list \<Rightarrow> find_step res" where
  "find_step_of key bytes =
     seq (index bytes 0) (\<lambda>node_type.
       if node_type = LEAF_NODE then seq (leaf_decode bytes) (\<lambda>n. Inr (AtLeaf n))
       else if node_type = INTERNAL_NODE then
         seq (internal_decode bytes) (\<lambda>internal.
           seq (find_child_index internal key) (\<lambda>slot.
             seq (index (in_entries internal) slot) (\<lambda>e. Inr (Down (snd e)))))
       else Inr Neither)"

text \<open>The loop may run for ever on a page that is its own descendant: then the value is \<open>None\<close>.\<close>

partial_function (option) find_leaf_loop :: "i64 \<Rightarrow> page_id \<Rightarrow> bpm \<Rightarrow> ((leaf_node \<times> page_id) option \<times> bpm) res option" where
  "find_leaf_loop key p s = (case with_read_page p (find_step_of key) s of
       Inl e \<Rightarrow> Some (Inl e)
     | Inr r \<Rightarrow> (case fst r of
           AtLeaf n \<Rightarrow> Some (Inr (Some (n, p), snd r))
         | Down c \<Rightarrow> find_leaf_loop key c (snd r)
         | Neither \<Rightarrow> Some (Inr (None, snd r))))"

declare find_leaf_loop.simps [code]

definition find_leaf :: "i64 \<Rightarrow> btree \<Rightarrow> ((leaf_node \<times> page_id) option \<times> btree) res option" where
  "find_leaf key t = (case with_read_page (bt_header_page_id t) get_root_page_id (bt_pool t) of
       Inl e \<Rightarrow> Some (Inl e)
     | Inr (root, s) \<Rightarrow> map_option (\<lambda>r. seq r (\<lambda>(leaf, s'). Inr (leaf, t\<lparr>bt_pool := s'\<rparr>))) (find_leaf_loop key root s))"

definition btree_find :: "i64 \<Rightarrow> btree \<Rightarrow> (leaf_kv option \<times> btree) res option" where
  "btree_find key t = map_option (\<lambda>r. seq r (\<lambda>(leaf, t'). case leaf of
       Some (n, _) \<Rightarrow> seq (find_kv n key) (\<lambda>kv. Inr (kv, t'))
     | None \<Rightarrow> Inr (None, t'))) (find_leaf key t)"

text \<open>A scan is the page it stands on; \<open>next\<close> yields a leaf and moves on.\<close>

definition btree_scan :: "i64 \<Rightarrow> btree \<Rightarrow> (page_id \<times> btree) res option" where
  "btree_scan key t = map_option (\<lambda>r. seq r (\<lambda>(leaf, t'). seq (unwrap leaf) (\<lambda>(_, p). Inr (p, t')))) (find_leaf key t)"

definition scan_next :: "page_id \<Rightarrow> btree \<Rightarrow> (leaf_node option \<times> page_id \<times> btree) res" where
  "scan_next p t =
     (if p = INVALID_PAGE_ID then Inr (None, p, t)
      else seq (with_read_page p leaf_decode (bt_pool t)) (\<lambda>(leaf, s).
             Inr (Some leaf, ln_next_page_id leaf, t\<lparr>bt_pool := s\<rparr>)))"

section \<open>Insertion\<close>

record path_frame =
  pf_slot :: nat
  pf_guard :: page_guard

text \<open>\<open>path_stack.clear()\<close> and the end of the vector's scope: the guards go from the bottom up.\<close>

fun drop_frames :: "path_frame list \<Rightarrow> bpm \<Rightarrow> bpm res" where
  "drop_frames [] s = Inr s"
| "drop_frames (fr # frs) s = seq (drop_frames frs s) (write_guard_drop (pf_guard fr))"

text \<open>One turn of the loop that walks down. The child is first read, then write-guarded; when it has room
  for one more entry the guards above it are dropped, while its bytes are borrowed.\<close>

datatype descent = Arrived "path_frame list" | Further "path_frame list" internal_node nat

definition child_step_of :: "i64 \<Rightarrow> internal_node \<Rightarrow> nat \<Rightarrow> u8 list \<Rightarrow> (u8 \<times> internal_node \<times> nat) res" where
  "child_step_of key internal slot bytes =
     seq (index bytes 0) (\<lambda>node_type.
       if node_type = INTERNAL_NODE then
         seq (internal_decode bytes) (\<lambda>child.
           seq (find_child_index child key) (\<lambda>slot'. Inr (node_type, child, slot')))
       else Inr (node_type, internal, slot))"

definition guard_child :: "page_id \<Rightarrow> (u8 list \<Rightarrow> nat res) \<Rightarrow> nat \<Rightarrow> path_frame list \<Rightarrow> bpm
    \<Rightarrow> (page_guard \<times> path_frame list \<times> bpm) res" where
  "guard_child p count_entries limit stack s =
     seq (check_write_page p s) (\<lambda>(g, s1).
       seq (guard_borrow_mut g s1) (\<lambda>s2.
         seq (count_entries (guard_bytes g s2)) (\<lambda>n.
           seq (if n < limit then seq (drop_frames stack s2) (\<lambda>s3. Inr ([], s3)) else Inr (stack, s2)) (\<lambda>(stack', s3).
             Inr (g, stack', guard_release_mut g s3)))))"

definition descend_step :: "i64 \<Rightarrow> nat \<Rightarrow> nat \<Rightarrow> path_frame list \<Rightarrow> internal_node \<Rightarrow> nat \<Rightarrow> bpm \<Rightarrow> (descent \<times> bpm) res" where
  "descend_step key leaf_max internal_max stack internal slot s =
     seq (index (in_entries internal) slot) (\<lambda>e.
       let child_page_id = snd e
       in seq (with_read_page child_page_id (child_step_of key internal slot) s) (\<lambda>((node_type, internal', slot'), s1).
            if node_type = LEAF_NODE then
              seq (guard_child child_page_id (\<lambda>bs. seq (leaf_decode bs) (\<lambda>n. Inr (length (ln_entries n)))) leaf_max stack s1)
                (\<lambda>(g, stack', s2). Inr (Arrived (\<lparr>pf_slot = unat INVALID_PAGE_ID, pf_guard = g\<rparr> # stack'), s2))
            else
              seq (guard_child child_page_id (\<lambda>bs. seq (internal_decode bs) (\<lambda>n. Inr (length (in_entries n)))) internal_max stack s1)
                (\<lambda>(g, stack', s2). Inr (Further (\<lparr>pf_slot = slot', pf_guard = g\<rparr> # stack') internal' slot', s2))))"

partial_function (option) descend_loop ::
    "i64 \<Rightarrow> nat \<Rightarrow> nat \<Rightarrow> path_frame list \<Rightarrow> internal_node \<Rightarrow> nat \<Rightarrow> bpm \<Rightarrow> (path_frame list \<times> bpm) res option" where
  "descend_loop key leaf_max internal_max stack internal slot s =
     (case descend_step key leaf_max internal_max stack internal slot s of
        Inl e \<Rightarrow> Some (Inl e)
      | Inr r \<Rightarrow> (case fst r of
            Arrived stack' \<Rightarrow> Some (Inr (stack', snd r))
          | Further stack' internal' slot' \<Rightarrow> descend_loop key leaf_max internal_max stack' internal' slot' (snd r)))"

declare descend_loop.simps [code]

text \<open>The walk from the root: guard it, look at its type through a mutable borrow, and go down if it is
  internal.\<close>

definition node_type_of :: "u8 list \<Rightarrow> (u8 \<times> u8 list) res" where
  "node_type_of bytes = seq (index bytes 0) (\<lambda>node_type. Inr (node_type, bytes))"

definition walk_down :: "i64 \<Rightarrow> nat \<Rightarrow> nat \<Rightarrow> page_id \<Rightarrow> bpm \<Rightarrow> (path_frame list \<times> bpm) res option" where
  "walk_down key leaf_max internal_max root s =
     (case seq (check_write_page root s) (\<lambda>(g, s1). seq (with_data_mut g node_type_of s1) (\<lambda>(node_type, s2). Inr (g, node_type, s2))) of
        Inl e \<Rightarrow> Some (Inl e)
      | Inr (g, node_type, s2) \<Rightarrow>
          if node_type = LEAF_NODE then Some (Inr ([\<lparr>pf_slot = 2 ^ 64 - 1, pf_guard = g\<rparr>], s2))
          else if node_type = INTERNAL_NODE then
            (case seq (with_data g internal_decode s2) (\<lambda>(internal, s3).
                    seq (find_child_index internal key) (\<lambda>slot. Inr (internal, slot, s3))) of
               Inl e \<Rightarrow> Some (Inl e)
             | Inr (internal, slot, s3) \<Rightarrow>
                 descend_loop key leaf_max internal_max [\<lparr>pf_slot = slot, pf_guard = g\<rparr>] internal slot s3)
          else Some (seq (write_guard_drop g s2) (\<lambda>s3. Inr ([], s3))))"

text \<open>The entries of a leaf with one more.\<close>

definition add_entry :: "leaf_kv \<Rightarrow> leaf_kv list \<Rightarrow> leaf_kv list" where
  "add_entry e es = sort_key fst (es @ [e])"

text \<open>The block that tries to insert into the leaf: the id of the leaf if it must be split, else
  \<open>INVALID_PAGE_ID\<close>.\<close>

definition leaf_insert_of :: "leaf_kv \<Rightarrow> nat \<Rightarrow> page_id \<Rightarrow> u8 list \<Rightarrow> (page_id \<times> u8 list) res" where
  "leaf_insert_of e leaf_max leaf_page_id bytes =
     seq (leaf_decode bytes) (\<lambda>n.
       let n' = n\<lparr>ln_entries := add_entry e (ln_entries n)\<rparr>
       in if length (ln_entries n') > leaf_max then Inr (leaf_page_id, bytes)
          else seq (leaf_encode n' bytes) (\<lambda>bytes'. Inr (INVALID_PAGE_ID, bytes')))"

definition insert_into_leaf :: "leaf_kv \<Rightarrow> nat \<Rightarrow> path_frame list \<Rightarrow> bpm \<Rightarrow> (page_id \<times> path_frame list \<times> bpm) res" where
  "insert_into_leaf e leaf_max stack s = (case stack of
       [] \<Rightarrow> Inl UnwrapNone
     | fr # stack' \<Rightarrow>
         let g = pf_guard fr
         in seq (with_data_mut g (leaf_insert_of e leaf_max (g_page_id g)) s) (\<lambda>(split, s1).
              seq (write_guard_drop g s1) (\<lambda>s2. Inr (split, stack', s2))))"

text \<open>Splitting the leaf: the left part keeps its page and links to the right part. The right page is
  guarded while the left one's bytes are borrowed.\<close>

definition split_leaf :: "leaf_kv \<Rightarrow> page_id \<Rightarrow> page_id \<Rightarrow> bpm \<Rightarrow> (leaf_kv \<times> bpm) res" where
  "split_leaf e left_id right_id s =
     seq (check_write_page left_id s) (\<lambda>(gl, s1).
       seq (guard_borrow_mut gl s1) (\<lambda>s2.
         seq (leaf_decode (guard_bytes gl s2)) (\<lambda>left_leaf.
           let entries = add_entry e (ln_entries left_leaf); middle_index = length entries div 2
           in seq (index entries middle_index) (\<lambda>middle_entry.
                seq (check_write_page right_id s2) (\<lambda>(gr, s3).
                  seq (guard_borrow_mut gr s3) (\<lambda>s4.
                    seq (leaf_encode \<lparr>ln_next_page_id = ln_next_page_id left_leaf, ln_entries = drop middle_index entries\<rparr>
                           (guard_bytes gr s4)) (\<lambda>right_bytes.
                      let s5 = guard_set_bytes gr right_bytes s4
                      in seq (leaf_encode \<lparr>ln_next_page_id = right_id, ln_entries = take middle_index entries\<rparr>
                                (guard_bytes gl s5)) (\<lambda>left_bytes.
                           let s6 = guard_set_bytes gl left_bytes s5
                           in seq (write_guard_drop gr (guard_release_mut gr s6)) (\<lambda>s7.
                                seq (write_guard_drop gl (guard_release_mut gl s7)) (\<lambda>s8.
                                  Inr (middle_entry, s8)))))))))))"

text \<open>\<open>position\<close> and \<open>Vec::insert\<close>.\<close>

fun position :: "('a \<Rightarrow> bool) \<Rightarrow> 'a list \<Rightarrow> nat option" where
  "position P [] = None"
| "position P (x # xs) = (if P x then Some 0 else map_option Suc (position P xs))"

definition vec_insert :: "nat \<Rightarrow> 'a \<Rightarrow> 'a list \<Rightarrow> 'a list res" where
  "vec_insert i x xs = (if i \<le> length xs then Inr (take i xs @ x # drop i xs) else Inl IndexError)"

text \<open>The entries of an internal node with the new separator and child after the child that was split.\<close>

definition add_child :: "page_id \<Rightarrow> internal_kv \<Rightarrow> internal_kv list \<Rightarrow> internal_kv list res" where
  "add_child left_id e es =
     seq (unwrap (position (\<lambda>x. snd x = left_id) es)) (\<lambda>i. vec_insert (i + 1) e es)"

text \<open>The loop up the stack. It returns the guards not used, the root, and the pool.\<close>

fun propagate :: "page_id \<Rightarrow> nat \<Rightarrow> page_id \<Rightarrow> path_frame list \<Rightarrow> internal_kv \<Rightarrow> page_id \<Rightarrow> bpm
    \<Rightarrow> (path_frame list \<times> page_id \<times> bpm) res" where
  "propagate header internal_max root [] e left_id s =
     seq (new_page s) (\<lambda>(new_root, s1).
       seq (with_write_page new_root (overwrite (internal_encode \<lparr>in_entries = [(INVALID_KEY, left_id), e]\<rparr>)) s1) (\<lambda>(_, s2).
         seq (with_write_page header (overwrite (set_root_page_id new_root)) s2) (\<lambda>(_, s3).
           Inr ([], new_root, s3))))"
| "propagate header internal_max root (fr # stack) e left_id s =
     (let g = pf_guard fr
      in seq (guard_borrow_mut g s) (\<lambda>s1.
           seq (internal_decode (guard_bytes g s1)) (\<lambda>internal_node.
             seq (add_child left_id e (in_entries internal_node)) (\<lambda>entries.
               if length entries \<le> internal_max then
                 seq (internal_encode \<lparr>in_entries = entries\<rparr> (guard_bytes g s1)) (\<lambda>bytes.
                   seq (write_guard_drop g (guard_release_mut g (guard_set_bytes g bytes s1))) (\<lambda>s2.
                     Inr (stack, root, s2)))
               else
                 let mid = length entries div 2
                 in seq (index entries mid) (\<lambda>(up_key, up_pid).
                      seq (new_page s1) (\<lambda>(right_id, s2).
                        seq (index (drop mid entries) 0) (\<lambda>first_right.
                          let right_entries = (drop mid entries)[0 := (INVALID_KEY, snd first_right)]
                          in seq (with_write_page right_id (overwrite (internal_encode \<lparr>in_entries = right_entries\<rparr>)) s2) (\<lambda>(_, s3).
                               seq (internal_encode \<lparr>in_entries = take mid entries\<rparr> (guard_bytes g s3)) (\<lambda>bytes.
                                 seq (write_guard_drop g (guard_release_mut g (guard_set_bytes g bytes s3))) (\<lambda>s4.
                                   propagate header internal_max root stack (up_key, right_id) (g_page_id g) s4))))))))))"

text \<open>The first insertion of all.\<close>

definition insert_first :: "leaf_kv \<Rightarrow> btree \<Rightarrow> btree res" where
  "insert_first e t =
     seq (new_page (bt_pool t)) (\<lambda>(root, s1).
       seq (with_write_page (bt_header_page_id t) (overwrite (set_root_page_id root)) s1) (\<lambda>(_, s2).
         seq (with_write_page root
                (overwrite (leaf_encode \<lparr>ln_next_page_id = INVALID_PAGE_ID, ln_entries = [e]\<rparr>)) s2) (\<lambda>(_, s3).
           Inr (t\<lparr>bt_root_page_id := root, bt_pool := s3\<rparr>))))"

text \<open>What follows the walk: the leaf, the split, the way up, and the guards that are left.\<close>

definition insert_at :: "leaf_kv \<Rightarrow> path_frame list \<Rightarrow> bpm \<Rightarrow> btree \<Rightarrow> btree res" where
  "insert_at e stack s t =
     seq (insert_into_leaf e (unat (bt_leaf_max t)) stack s) (\<lambda>(split, stack1, s1).
       if split \<noteq> INVALID_PAGE_ID then
         seq (new_page s1) (\<lambda>(right_id, s2).
           seq (split_leaf e split right_id s2) (\<lambda>(middle_entry, s3).
             seq (propagate (bt_header_page_id t) (unat (bt_internal_max t)) (bt_root_page_id t) stack1
                    (fst middle_entry, right_id) split s3) (\<lambda>(stack2, root, s4).
               seq (drop_frames stack2 s4) (\<lambda>s5. Inr (t\<lparr>bt_root_page_id := root, bt_pool := s5\<rparr>)))))
       else seq (drop_frames stack1 s1) (\<lambda>s2. Inr (t\<lparr>bt_pool := s2\<rparr>)))"

definition btree_insert :: "i64 \<Rightarrow> page_id \<Rightarrow> u32 \<Rightarrow> btree \<Rightarrow> btree res option" where
  "btree_insert key p slot_num t =
     (let e = (key, \<lparr>rid_page_id = p, rid_slot_num = slot_num\<rparr>)
      in if bt_root_page_id t = INVALID_PAGE_ID then Some (insert_first e t)
         else map_option (\<lambda>r. seq r (\<lambda>(stack, s). insert_at e stack s t))
                (walk_down key (unat (bt_leaf_max t)) (unat (bt_internal_max t)) (bt_root_page_id t) (bt_pool t)))"

end
