(* ===== verification/BTreeLookup.thy ===== *)
theory BTreeLookup
  imports BTree
begin

text \<open>
  What a tree of pages means, and that lookup and scan compute it. A \<open>shape\<close> is the tree as a value; a
  shape is stored in a page view when every one of its pages decodes to its node, and ordered when
  the keys are. Lookup and scan take one guard at a time, so the results hold for a pool of any size.
\<close>

section \<open>Trees as values\<close>

datatype shape = LeafAt page_id leaf_node | NodeAt page_id "(i64 \<times> shape) list"

fun root_of :: "shape \<Rightarrow> page_id" where
  "root_of (LeafAt p n) = p"
| "root_of (NodeAt p kcs) = p"

fun leaves :: "shape \<Rightarrow> (page_id \<times> leaf_node) list" where
  "leaves (LeafAt p n) = [(p, n)]"
| "leaves (NodeAt p kcs) = concat (map (\<lambda>kc. leaves (snd kc)) kcs)"

definition contents :: "shape \<Rightarrow> leaf_kv list" where
  "contents T = concat (map (\<lambda>l. ln_entries (snd l)) (leaves T))"

fun height :: "shape \<Rightarrow> nat" where
  "height (LeafAt p n) = 1"
| "height (NodeAt p kcs) = Suc (foldr max (map (\<lambda>kc. height (snd kc)) kcs) 0)"

definition child_ids :: "(i64 \<times> shape) list \<Rightarrow> internal_kv list" where
  "child_ids kcs = map (\<lambda>kc. (fst kc, root_of (snd kc))) kcs"

text \<open>An upper bound is a key or nothing.\<close>

fun below :: "i64 \<Rightarrow> i64 option \<Rightarrow> bool" where
  "below k None = True"
| "below k (Some h) = (k < h)"

text \<open>All keys of a tree are at least \<open>lo\<close> and below \<open>hi\<close>; a child's keys start at its separator and end
  before the next one; the first separator is \<open>INVALID_KEY\<close> and stands for \<open>lo\<close>.\<close>

fun ordered :: "i64 \<Rightarrow> i64 option \<Rightarrow> shape \<Rightarrow> bool"
  and ordered_children :: "i64 \<Rightarrow> i64 option \<Rightarrow> (i64 \<times> shape) list \<Rightarrow> bool" where
  "ordered lo hi (LeafAt p n) \<longleftrightarrow> sorted_wrt (<) (map fst (ln_entries n))
     \<and> (\<forall>k \<in> fst ` set (ln_entries n). lo \<le> k \<and> below k hi)"
| "ordered lo hi (NodeAt p kcs) \<longleftrightarrow> kcs \<noteq> [] \<and> fst (hd kcs) = INVALID_KEY \<and> ordered_children lo hi kcs"
| "ordered_children lo hi [] \<longleftrightarrow> True"
| "ordered_children lo hi [kc] \<longleftrightarrow> ordered lo hi (snd kc)"
| "ordered_children lo hi (kc # kc' # kcs) \<longleftrightarrow> lo < fst kc' \<and> below (fst kc') hi \<and> ordered lo (Some (fst kc')) (snd kc)
     \<and> ordered_children (fst kc') hi (kc' # kcs)"

text \<open>The pages of a view that hold a leaf or an internal node, and a stored tree.\<close>

definition leaf_page :: "page_view \<Rightarrow> page_id \<Rightarrow> leaf_node \<Rightarrow> bool" where
  "leaf_page v p n \<longleftrightarrow> (\<exists>bs. v p = Some bs \<and> index bs 0 = Inr LEAF_NODE \<and> leaf_decode bs = Inr n)"

definition internal_page :: "page_view \<Rightarrow> page_id \<Rightarrow> internal_kv list \<Rightarrow> bool" where
  "internal_page v p es \<longleftrightarrow> (\<exists>bs. v p = Some bs \<and> index bs 0 = Inr INTERNAL_NODE \<and> internal_decode bs = Inr \<lparr>in_entries = es\<rparr>)"

fun stored :: "page_view \<Rightarrow> shape \<Rightarrow> bool" where
  "stored v (LeafAt p n) = leaf_page v p n"
| "stored v (NodeAt p kcs) = (internal_page v p (child_ids kcs) \<and> (\<forall>kc \<in> set kcs. stored v (snd kc)))"

lemma contents_simps [simp]:
  "contents (LeafAt p n) = ln_entries n"
  "contents (NodeAt p kcs) = concat (map (\<lambda>kc. contents (snd kc)) kcs)"
  by (simp_all add: contents_def) (induction kcs; simp)

lemma below_trans: "k \<le> k' \<Longrightarrow> below k' hi \<Longrightarrow> below k hi"
  by (cases hi) auto

lemma below_less: "k < k' \<Longrightarrow> below k' hi \<Longrightarrow> below k hi"
  by (cases hi) auto

text \<open>Keys lie within the bounds, and the contents are sorted by key.\<close>

lemma ordered_bounds:
  "ordered lo hi T \<Longrightarrow> k \<in> fst ` set (contents T) \<Longrightarrow> lo \<le> k \<and> below k hi"
  "ordered_children lo hi kcs \<Longrightarrow> k \<in> fst ` set (concat (map (\<lambda>kc. contents (snd kc)) kcs)) \<Longrightarrow> lo \<le> k \<and> below k hi"
proof (induction lo hi T and lo hi kcs rule: ordered_ordered_children.induct)
  case (5 lo hi kc kc' kcs)
  show ?case
  proof (cases "k \<in> fst ` set (contents (snd kc))")
    case True
    with 5(1,3) have "lo \<le> k" "k < fst kc'" by auto
    with 5(3) show ?thesis by (auto intro: below_less)
  next
    case False
    with 5(4) have "k \<in> fst ` set (concat (map (\<lambda>kc. contents (snd kc)) (kc' # kcs)))" by auto
    with 5(2,3) have "fst kc' \<le> k \<and> below k hi" by simp
    with 5(3) show ?thesis by auto
  qed
qed auto

lemma ordered_sorted:
  "ordered lo hi T \<Longrightarrow> sorted_wrt (<) (map fst (contents T))"
  "ordered_children lo hi kcs \<Longrightarrow> sorted_wrt (<) (map fst (concat (map (\<lambda>kc. contents (snd kc)) kcs)))"
proof (induction lo hi T and lo hi kcs rule: ordered_ordered_children.induct)
  case (5 lo hi kc kc' kcs)
  define B where "B = concat (map (\<lambda>kc. contents (snd kc)) (kc' # kcs))"
  have bounds: "x < fst kc'" if "x \<in> fst ` set (contents (snd kc))" for x
    using ordered_bounds(1) [of lo "Some (fst kc')" "snd kc" x] 5(3) that by simp
  have "fst kc' \<le> y" if "y \<in> fst ` set B" for y
    using ordered_bounds(2) [of "fst kc'" hi "kc' # kcs" y] 5(3) that unfolding B_def by simp
  with bounds have "x < y" if "x \<in> fst ` set (contents (snd kc))" "y \<in> fst ` set B" for x y
    using that order.strict_trans2 by blast
  then have "\<forall>x \<in> set (map fst (contents (snd kc))). \<forall>y \<in> set (map fst B). x < y" by simp
  moreover have "sorted_wrt (<) (map fst (contents (snd kc)))" "sorted_wrt (<) (map fst B)"
    using 5 by (simp_all add: B_def)
  moreover have "map fst (concat (map (\<lambda>kc. contents (snd kc)) (kc # kc' # kcs))) = map fst (contents (snd kc)) @ map fst B"
    by (simp add: B_def)
  ultimately show ?case by (simp only: sorted_wrt_append simp_thms)
qed auto

lemma sorted_less_distinct:
  fixes xs :: "'a :: linorder list"
  shows "sorted_wrt (<) xs \<Longrightarrow> sorted xs \<and> distinct xs"
  by (simp add: strict_sorted_iff)

text \<open>The separators, and the bounds of the child at an index.\<close>

lemma ordered_children_keys:
  "ordered_children lo hi (kc # kcs) \<Longrightarrow> sorted_wrt (<) (lo # map fst kcs) \<and> (\<forall>k \<in> set (map fst kcs). below k hi)"
proof (induction kcs arbitrary: lo kc)
  case (Cons kc' kcs)
  then have "lo < fst kc'" "below (fst kc') hi" "ordered_children (fst kc') hi (kc' # kcs)" by simp_all
  with Cons.IH [of "fst kc'" kc'] show ?case by (auto dest: order.strict_trans)
qed simp

lemma child_bounds:
  "ordered_children lo hi kcs \<Longrightarrow> i < length kcs \<Longrightarrow>
     ordered (if i = 0 then lo else fst (kcs ! i)) (if Suc i < length kcs then Some (fst (kcs ! Suc i)) else hi) (snd (kcs ! i))"
proof (induction kcs arbitrary: lo i)
  case (Cons kc kcs)
  show ?case
  proof (cases kcs)
    case Nil
    with Cons.prems show ?thesis by simp
  next
    case (Cons kc' kcs')
    note eq = this
    show ?thesis
    proof (cases i)
      case 0
      with eq Cons.prems show ?thesis by simp
    next
      case (Suc j)
      have "ordered_children (fst kc') hi kcs" using Cons.prems(1) eq by simp
      from Cons.IH [OF this, of j] Cons.prems(2) Suc eq show ?thesis by (cases j) auto
    qed
  qed
qed simp

lemma sorted_child_ids:
  assumes "ordered lo hi (NodeAt p kcs)"
  shows "sorted_wrt (<) (map fst kcs)" and "map fst (child_ids kcs) = map fst kcs"
proof -
  obtain kc kcs' where kcs: "kcs = kc # kcs'" "fst kc = INVALID_KEY" using assms by (cases kcs) auto
  have "INVALID_KEY \<le> lo" by simp
  moreover have "sorted_wrt (<) (lo # map fst kcs')" using ordered_children_keys [of lo hi kc kcs'] assms kcs by simp
  ultimately show "sorted_wrt (<) (map fst kcs)" using kcs by (auto intro: order.strict_trans1)
  show "map fst (child_ids kcs) = map fst kcs" by (simp add: child_ids_def)
qed

text \<open>The child the binary search picks: the key lies in its bounds, and the leaves of the other children
  are on the right sides.\<close>

lemma child_of_key:
  assumes ord: "ordered lo hi (NodeAt p kcs)" and lo: "lo \<le> key" and hi: "below key hi"
  obtains i lo' hi' where "find_child_index \<lparr>in_entries = child_ids kcs\<rparr> key = Inr i" and "i < length kcs"
    and "ordered lo' hi' (snd (kcs ! i))" and "lo' \<le> key" and "below key hi'"
    and "\<And>j k. j < i \<Longrightarrow> k \<in> fst ` set (contents (snd (kcs ! j))) \<Longrightarrow> k < key"
    and "\<And>j k. i < j \<Longrightarrow> j < length kcs \<Longrightarrow> k \<in> fst ` set (contents (snd (kcs ! j))) \<Longrightarrow> key < k"
proof -
  note srt = sorted_child_ids [OF ord]
  have ne: "kcs \<noteq> []" "fst (hd kcs) = INVALID_KEY" and oc: "ordered_children lo hi kcs" using ord by simp_all
  have len: "length (child_ids kcs) = length kcs" by (simp add: child_ids_def)
  have key_of: "fst (child_ids kcs ! j) = fst (kcs ! j)" if "j < length kcs" for j using that by (simp add: child_ids_def)
  have "\<not> (child_ids kcs = [] \<or> key < fst (hd (child_ids kcs)))"
    using ne by (cases kcs) (auto simp: child_ids_def not_less)
  with find_child_index_sorted [of "\<lparr>in_entries = child_ids kcs\<rparr>" key] sorted_less_distinct [OF srt(1)] srt(2) len key_of
  obtain i where i: "find_child_index \<lparr>in_entries = child_ids kcs\<rparr> key = Inr i" "i < length kcs" "fst (kcs ! i) \<le> key"
    "\<And>j. i < j \<Longrightarrow> j < length kcs \<Longrightarrow> key < fst (kcs ! j)" by auto
  let ?lo = "if i = 0 then lo else fst (kcs ! i)" and ?hi = "if Suc i < length kcs then Some (fst (kcs ! Suc i)) else hi"
  have "?lo \<le> key" "below key ?hi" using i lo hi by auto
  moreover have "k < key" if j: "j < i" and k: "k \<in> fst ` set (contents (snd (kcs ! j)))" for j k
  proof -
    have "below k (if Suc j < length kcs then Some (fst (kcs ! Suc j)) else hi)"
      using ordered_bounds(1) [OF child_bounds [OF oc, of j] k] j i(2) by simp
    then have "k < fst (kcs ! Suc j)" using j i(2) by simp
    also have "fst (kcs ! Suc j) \<le> fst (kcs ! i)"
      using sorted_nth_le [of kcs "Suc j" i] sorted_less_distinct [OF srt(1)] j i(2) by simp
    finally show ?thesis using i(3) by simp
  qed
  moreover have "key < k" if j: "i < j" "j < length kcs" and k: "k \<in> fst ` set (contents (snd (kcs ! j)))" for j k
  proof -
    have "fst (kcs ! j) \<le> k"
      using ordered_bounds(1) [OF child_bounds [OF oc j(2)] k] j(1) by simp
    with i(4) [OF j] show ?thesis by simp
  qed
  ultimately show ?thesis using that [OF i(1,2) child_bounds [OF oc i(2)]] by blast
qed

section \<open>Lookup\<close>

lemma node_types_differ [simp]: "LEAF_NODE \<noteq> INTERNAL_NODE" "INTERNAL_NODE \<noteq> LEAF_NODE"
  by (simp_all add: LEAF_NODE_def INTERNAL_NODE_def)

text \<open>One read block, all outcomes.\<close>

definition room :: "nat \<Rightarrow> bpm \<Rightarrow> bool" where
  "room n s \<longleftrightarrow> resident s \<and> unat (curr_size (replacer s)) + n < 2 ^ 32"

lemma room_step: "room n s \<Longrightarrow> block_frame s s' \<Longrightarrow> resident s' \<Longrightarrow> 0 < n \<Longrightarrow> room (n - 1) s'"
  by (auto simp: room_def block_frame_def)

lemma room_mono: "room n s \<Longrightarrow> m \<le> n \<Longrightarrow> room m s"
  by (simp add: room_def)

lemma with_read_page_outcome:
  assumes "pool_ready s" and "pool_view s p = Some b" and "k b = Inr x"
  shows "case with_read_page p k s of
      Inl e \<Rightarrow> e = ArithOverflow \<and> \<not> room 1 s
    | Inr (y, s') \<Rightarrow> y = x \<and> pool_ready s' \<and> pool_view s' = pool_view s \<and> block_frame s s' \<and> (room 1 s \<longrightarrow> resident s')"
proof -
  have total: "\<exists>s'. with_read_page p k s = Inr (x, s') \<and> resident s'" if "room 1 s"
  proof -
    have "resident s" "unat (curr_size (replacer s)) + 1 < 2 ^ 32" using that by (simp_all add: room_def)
    from with_read_page_resident [where k = k, OF assms(1) this(1) assms(2,3) this(2)] show ?thesis by metis
  qed
  show ?thesis
  proof (cases "with_read_page p k s")
    case (Inl e)
    with with_read_page_panic [OF assms(1,2) Inl] assms(3) total show ?thesis by auto
  next
    case (Inr ys)
    then obtain y s' where run: "with_read_page p k s = Inr (y, s')" by (cases ys) simp
    with with_read_page_law [OF assms(1,2) run] assms(3) total show ?thesis by auto
  qed
qed

text \<open>The leaf a key belongs to: the leaves before it have smaller keys only, those after it greater ones.\<close>

definition keys_below :: "i64 \<Rightarrow> (page_id \<times> leaf_node) list \<Rightarrow> bool" where
  "keys_below key ls \<longleftrightarrow> (\<forall>l \<in> set ls. \<forall>k \<in> fst ` set (ln_entries (snd l)). k < key)"

definition keys_above :: "i64 \<Rightarrow> (page_id \<times> leaf_node) list \<Rightarrow> bool" where
  "keys_above key ls \<longleftrightarrow> (\<forall>l \<in> set ls. \<forall>k \<in> fst ` set (ln_entries (snd l)). key < k)"

lemma keys_below_simps [simp]:
  "keys_below key []" "keys_below key (xs @ ys) \<longleftrightarrow> keys_below key xs \<and> keys_below key ys"
  by (simp_all add: keys_below_def ball_Un)

lemma keys_above_simps [simp]:
  "keys_above key []" "keys_above key (xs @ ys) \<longleftrightarrow> keys_above key xs \<and> keys_above key ys"
  by (simp_all add: keys_above_def ball_Un)

definition leaf_for :: "i64 \<Rightarrow> (page_id \<times> leaf_node) list \<Rightarrow> page_id \<Rightarrow> leaf_node \<Rightarrow> bool" where
  "leaf_for key ls p n \<longleftrightarrow> sorted_wrt (<) (map fst (ln_entries n))
     \<and> (\<exists>pre post. ls = pre @ (p, n) # post \<and> keys_below key pre \<and> keys_above key post)"

lemma leaf_for_child:
  assumes "leaf_for key (leaves (snd (kcs ! i))) p n" and "i < length kcs"
    and "\<And>j k. j < i \<Longrightarrow> k \<in> fst ` set (contents (snd (kcs ! j))) \<Longrightarrow> k < key"
    and "\<And>j k. i < j \<Longrightarrow> j < length kcs \<Longrightarrow> k \<in> fst ` set (contents (snd (kcs ! j))) \<Longrightarrow> key < k"
  shows "leaf_for key (leaves (NodeAt q kcs)) p n"
proof -
  obtain pre post where ls: "leaves (snd (kcs ! i)) = pre @ (p, n) # post"
    and pp: "keys_below key pre" "keys_above key post" using assms(1) unfolding leaf_for_def by metis
  let ?A = "concat (map (\<lambda>kc. leaves (snd kc)) (take i kcs))" and ?B = "concat (map (\<lambda>kc. leaves (snd kc)) (drop (Suc i) kcs))"
  have keys_in: "k \<in> fst ` set (contents (snd (kcs ! j)))" if "l \<in> set (leaves (snd (kcs ! j)))" "k \<in> fst ` set (ln_entries (snd l))" for j k l
    using that by (auto simp: contents_def)
  have eq: "leaves (NodeAt q kcs) = (?A @ pre) @ (p, n) # (post @ ?B)"
    using ls by (subst (1) id_take_nth_drop [OF assms(2)]) simp
  have "k < key" if l: "l \<in> set ?A" and k: "k \<in> fst ` set (ln_entries (snd l))" for l k
  proof -
    from l obtain kc where "kc \<in> set (take i kcs)" and lk: "l \<in> set (leaves (snd kc))" by auto
    then obtain j where j: "j < i" "kcs ! j = kc" using assms(2) by (auto simp: in_set_conv_nth)
    with keys_in [of l j k] lk k have "k \<in> fst ` set (contents (snd (kcs ! j)))" by simp
    with assms(3) [OF j(1)] show ?thesis by blast
  qed
  then have A: "keys_below key ?A" unfolding keys_below_def by blast
  have "key < k" if l: "l \<in> set ?B" and k: "k \<in> fst ` set (ln_entries (snd l))" for l k
  proof -
    from l obtain kc where "kc \<in> set (drop (Suc i) kcs)" and lk: "l \<in> set (leaves (snd kc))" by auto
    then obtain j where j: "j < length kcs - Suc i" "kcs ! (Suc i + j) = kc" by (auto simp: in_set_conv_nth)
    with keys_in [of l "Suc i + j" k] lk k have "k \<in> fst ` set (contents (snd (kcs ! (Suc i + j))))" by simp
    with assms(4) [of "Suc i + j"] j(1) show ?thesis by simp
  qed
  then have B: "keys_above key ?B" unfolding keys_above_def by blast
  have "keys_below key (?A @ pre)" "keys_above key (post @ ?B)" using pp A B by simp_all
  with eq assms(1) show ?thesis unfolding leaf_for_def by metis
qed

lemma height_child: "i < length kcs \<Longrightarrow> height (snd (kcs ! i)) < height (NodeAt p kcs)"
proof -
  assume i: "i < length kcs"
  have "x \<le> foldr max xs 0" if "x \<in> set xs" for x :: nat and xs using that by (induction xs) auto
  with i show ?thesis by (simp add: less_Suc_eq_le)
qed

lemma find_leaf_loop_ok:
  "ordered lo hi T \<Longrightarrow> lo \<le> key \<Longrightarrow> below key hi \<Longrightarrow> pool_ready s \<Longrightarrow> stored (pool_view s) T \<Longrightarrow>
   case find_leaf_loop key (root_of T) s of
     None \<Rightarrow> False
   | Some (Inl e) \<Rightarrow> e = ArithOverflow \<and> \<not> room (height T) s
   | Some (Inr (r, s')) \<Rightarrow> (\<exists>p n. r = Some (n, p) \<and> leaf_for key (leaves T) p n) \<and> pool_ready s' \<and> pool_view s' = pool_view s
       \<and> (room (height T) s \<longrightarrow> resident s' \<and> unat (curr_size (replacer s')) \<le> unat (curr_size (replacer s)) + height T)"
proof (induction T arbitrary: lo hi s)
  case (LeafAt p n)
  then obtain bs where bs: "pool_view s p = Some bs" "index bs 0 = Inr LEAF_NODE" "leaf_decode bs = Inr n"
    by (auto simp: leaf_page_def)
  then have "find_step_of key bs = Inr (AtLeaf n)" by (simp add: find_step_of_def)
  note out = with_read_page_outcome [where k = "find_step_of key", OF LeafAt.prems(4) bs(1) this]
  have "leaf_for key (leaves (LeafAt p n)) p n" using LeafAt.prems(1)
    unfolding leaf_for_def by (intro conjI exI [of _ "[]"]) simp_all
  then show ?case using out by (subst find_leaf_loop.simps) (auto simp: block_frame_def split: sum.splits)
next
  case (NodeAt p kcs)
  from NodeAt.prems(5) obtain bs where bs: "pool_view s p = Some bs" "index bs 0 = Inr INTERNAL_NODE"
    "internal_decode bs = Inr \<lparr>in_entries = child_ids kcs\<rparr>" by (auto simp: internal_page_def)
  from child_of_key [OF NodeAt.prems(1-3)] obtain i lo' hi' where
    i: "find_child_index \<lparr>in_entries = child_ids kcs\<rparr> key = Inr i" "i < length kcs"
      "ordered lo' hi' (snd (kcs ! i))" "lo' \<le> key" "below key hi'"
    and sides: "\<And>j k. j < i \<Longrightarrow> k \<in> fst ` set (contents (snd (kcs ! j))) \<Longrightarrow> k < key"
      "\<And>j k. i < j \<Longrightarrow> j < length kcs \<Longrightarrow> k \<in> fst ` set (contents (snd (kcs ! j))) \<Longrightarrow> key < k" by metis
  let ?c = "snd (kcs ! i)"
  have "index (child_ids kcs) i = Inr (fst (kcs ! i), root_of ?c)" using i(2) by (simp add: child_ids_def index_def)
  then have "find_step_of key bs = Inr (Down (root_of ?c))" using bs i(1) by (simp add: find_step_of_def)
  note out = with_read_page_outcome [where k = "find_step_of key", OF NodeAt.prems(4) bs(1) this]
  have mem: "kcs ! i \<in> set kcs" using i(2) by simp
  have ht: "height ?c < height (NodeAt p kcs)" using i(2) by (rule height_child)
  show ?case
  proof (cases "with_read_page p (find_step_of key) s")
    case (Inl e)
    with out ht show ?thesis by (subst find_leaf_loop.simps) (auto simp: room_def simp del: height.simps)
  next
    case (Inr ys)
    then obtain s1 where run: "with_read_page p (find_step_of key) s = Inr (Down (root_of ?c), s1)"
      and s1: "pool_ready s1" "pool_view s1 = pool_view s" "block_frame s s1" "room 1 s \<longrightarrow> resident s1"
      using out by (cases ys) auto
    have st: "stored (pool_view s1) ?c" using NodeAt.prems(5) mem s1(2) by simp
    have step: "find_leaf_loop key (root_of (NodeAt p kcs)) s = find_leaf_loop key (root_of ?c) s1"
      using run by (subst find_leaf_loop.simps) simp
    have IH: "case find_leaf_loop key (root_of ?c) s1 of
        None \<Rightarrow> False
      | Some (Inl e) \<Rightarrow> e = ArithOverflow \<and> \<not> room (height ?c) s1
      | Some (Inr (r, s')) \<Rightarrow> (\<exists>p n. r = Some (n, p) \<and> leaf_for key (leaves ?c) p n) \<and> pool_ready s' \<and> pool_view s' = pool_view s1
          \<and> (room (height ?c) s1 \<longrightarrow> resident s' \<and> unat (curr_size (replacer s')) \<le> unat (curr_size (replacer s1)) + height ?c)"
      by (rule NodeAt.IH [OF mem _ i(3-5) s1(1) st]) (cases "kcs ! i", simp)
    have rm: "room (height ?c) s1" if "room (height (NodeAt p kcs)) s"
      using that s1(3,4) ht by (auto simp: room_def block_frame_def)
    have leaf: "leaf_for key (leaves (NodeAt p kcs)) q n" if "leaf_for key (leaves ?c) q n" for q n
      using leaf_for_child [OF that i(2) sides] .
    have le: "unat (curr_size (replacer s1)) + height ?c \<le> unat (curr_size (replacer s)) + height (NodeAt p kcs)"
      using s1(3) ht by (simp add: block_frame_def del: height.simps)
    show ?thesis
    proof (cases "find_leaf_loop key (root_of ?c) s1")
      case None
      with IH show ?thesis by simp
    next
      case (Some res)
      note res = this
      show ?thesis
      proof (cases res)
        case (Inl e)
        with res IH step rm show ?thesis by (auto simp del: height.simps root_of.simps)
      next
        case (Inr rs)
        then obtain r s' where rs: "res = Inr (r, s')" by (cases rs) simp
        with res IH have R: "\<exists>p n. r = Some (n, p) \<and> leaf_for key (leaves ?c) p n" "pool_ready s'" "pool_view s' = pool_view s1"
          "room (height ?c) s1 \<Longrightarrow> resident s' \<and> unat (curr_size (replacer s')) \<le> unat (curr_size (replacer s1)) + height ?c" by auto
        from R(1) leaf have "\<exists>p' n. r = Some (n, p') \<and> leaf_for key (leaves (NodeAt p kcs)) p' n" by blast
        moreover have "resident s' \<and> unat (curr_size (replacer s')) \<le> unat (curr_size (replacer s)) + height (NodeAt p kcs)"
          if "room (height (NodeAt p kcs)) s" using R(4) rm [OF that] le by linarith
        ultimately show ?thesis using res rs R(2,3) s1(2) step by (simp del: height.simps leaves.simps root_of.simps)
      qed
    qed
  qed
qed

section \<open>A tree in a pool\<close>

text \<open>The tree object holds the shape: the pool is at rest, the header page names the root, and the pages
  are those of an ordered tree.\<close>

definition represents :: "btree \<Rightarrow> shape \<Rightarrow> bool" where
  "represents t T \<longleftrightarrow> pool_ready (bt_pool t) \<and> bt_root_page_id t = root_of T
     \<and> (\<exists>bs. pool_view (bt_pool t) (bt_header_page_id t) = Some bs \<and> get_root_page_id bs = Inr (root_of T))
     \<and> ordered INVALID_KEY None T \<and> stored (pool_view (bt_pool t)) T"

lemma represents_pool:
  assumes "represents t T" and "pool_ready s" and "pool_view s = pool_view (bt_pool t)"
  shows "represents (t\<lparr>bt_pool := s\<rparr>) T"
  using assms by (simp add: represents_def)

lemma leaf_for_contents:
  assumes "leaf_for key (leaves T) p n"
  shows "map_of (contents T) key = map_of (ln_entries n) key"
proof -
  from assms obtain pre post where ls: "leaves T = pre @ (p, n) # post"
    and pp: "keys_below key pre" "keys_above key post" unfolding leaf_for_def by metis
  let ?c = "\<lambda>ls. concat (map (\<lambda>l. ln_entries (snd l)) ls)"
  have "key \<notin> fst ` set (?c pre)" "key \<notin> fst ` set (?c post)"
    using pp by (fastforce simp: keys_below_def keys_above_def)+
  then have "map_of (?c pre) key = None" "map_of (?c post) key = None" by (simp_all add: map_of_eq_None_iff)
  then show ?thesis by (simp add: contents_def ls map_add_def split: option.split)
qed

lemma leaf_for_find:
  assumes "leaf_for key (leaves T) p n"
  shows "find_kv n key = Inr (map_option (Pair key) (map_of (contents T) key))"
proof -
  have "sorted_wrt (<) (map fst (ln_entries n))" using assms by (simp add: leaf_for_def)
  then have "find_kv n key = Inr (map_option (Pair key) (map_of (ln_entries n) key))"
    using find_kv_lookup [of n key] sorted_less_distinct [of "map fst (ln_entries n)"] by simp
  then show ?thesis by (simp add: leaf_for_contents [OF assms])
qed

text \<open>\<open>find_leaf\<close>: the header page first, then the loop.\<close>

lemma find_leaf_ok:
  assumes rep: "represents t T"
  shows "case find_leaf key t of
     None \<Rightarrow> False
   | Some (Inl e) \<Rightarrow> e = ArithOverflow \<and> \<not> room (Suc (height T)) (bt_pool t)
   | Some (Inr (r, t')) \<Rightarrow> (\<exists>p n. r = Some (n, p) \<and> leaf_for key (leaves T) p n) \<and> t' = t\<lparr>bt_pool := bt_pool t'\<rparr>
       \<and> pool_ready (bt_pool t') \<and> pool_view (bt_pool t') = pool_view (bt_pool t)
       \<and> (room (Suc (height T)) (bt_pool t) \<longrightarrow> resident (bt_pool t')
         \<and> unat (curr_size (replacer (bt_pool t'))) \<le> unat (curr_size (replacer (bt_pool t))) + Suc (height T))"
proof -
  let ?s = "bt_pool t"
  from rep obtain bs where R: "pool_ready ?s" "pool_view ?s (bt_header_page_id t) = Some bs" "get_root_page_id bs = Inr (root_of T)"
    "ordered INVALID_KEY None T" "stored (pool_view ?s) T" by (auto simp: represents_def)
  note out = with_read_page_outcome [where k = get_root_page_id, OF R(1-3)]
  show ?thesis
  proof (cases "with_read_page (bt_header_page_id t) get_root_page_id ?s")
    case (Inl e)
    with out show ?thesis by (auto simp: find_leaf_def room_def)
  next
    case (Inr ys)
    then obtain s1 where run: "with_read_page (bt_header_page_id t) get_root_page_id ?s = Inr (root_of T, s1)"
      and s1: "pool_ready s1" "pool_view s1 = pool_view ?s" "block_frame ?s s1" "room 1 ?s \<longrightarrow> resident s1"
      using out by (cases ys) auto
    have rm: "room (height T) s1" if "room (Suc (height T)) ?s" using that s1(3,4) by (auto simp: room_def block_frame_def)
    have "stored (pool_view s1) T" "below key None" "INVALID_KEY \<le> key" using R(5) s1(2) by simp_all
    from find_leaf_loop_ok [OF R(4) this(3,2) s1(1) this(1)] run rm s1(2,3) show ?thesis
      by (auto simp: find_leaf_def block_frame_def split: option.splits sum.splits)
  qed
qed

text \<open>The leaves of a tree are linked from left to right.\<close>

fun linked :: "(page_id \<times> leaf_node) list \<Rightarrow> bool" where
  "linked [] = True"
| "linked [l] \<longleftrightarrow> ln_next_page_id (snd l) = INVALID_PAGE_ID"
| "linked (l # l' # ls) \<longleftrightarrow> ln_next_page_id (snd l) = fst l' \<and> linked (l' # ls)"

lemma linked_tail: "linked (l # ls) \<Longrightarrow> linked ls"
  by (cases ls) simp_all

lemma linked_suffix: "linked (xs @ ys) \<Longrightarrow> linked ys"
  by (induction xs) (auto dest: linked_tail)

lemma stored_leaves: "stored v T \<Longrightarrow> (p, n) \<in> set (leaves T) \<Longrightarrow> leaf_page v p n"
  by (induction T) auto

text \<open>A \<open>for\<close> loop over a scan: ask for the next leaf until there is none.\<close>

partial_function (option) scan_collect :: "page_id \<Rightarrow> btree \<Rightarrow> (leaf_node list \<times> btree) res option" where
  "scan_collect p t = (case scan_next p t of
       Inl e \<Rightarrow> Some (Inl e)
     | Inr r \<Rightarrow> (case fst r of
           None \<Rightarrow> Some (Inr ([], snd (snd r)))
         | Some n \<Rightarrow> Option.bind (scan_collect (fst (snd r)) (snd (snd r))) (\<lambda>q. Some (seq q (\<lambda>(ns, t'). Inr (n # ns, t'))))))"

declare scan_collect.simps [code]

definition scan_from :: "i64 \<Rightarrow> btree \<Rightarrow> (leaf_node list \<times> btree) res option" where
  "scan_from key t = (case btree_scan key t of
       None \<Rightarrow> None
     | Some (Inl e) \<Rightarrow> Some (Inl e)
     | Some (Inr (p, t')) \<Rightarrow> scan_collect p t')"

lemma ready_page_valid: "pool_ready s \<Longrightarrow> pool_view s p = Some b \<Longrightarrow> p \<noteq> INVALID_PAGE_ID"
proof -
  assume "pool_ready s" "pool_view s p = Some b"
  then have "p < next_page_id s" using pool_view_dom [of "{#}" "{}" s] by (auto simp: pool_ready_def dom_def)
  then show ?thesis by (auto simp: INVALID_PAGE_ID_def)
qed

lemma scan_collect_ok:
  "linked ls \<Longrightarrow> (\<forall>(q, m) \<in> set ls. leaf_page (pool_view (bt_pool t)) q m) \<Longrightarrow> pool_ready (bt_pool t)
   \<Longrightarrow> p = (case ls of [] \<Rightarrow> INVALID_PAGE_ID | l # _ \<Rightarrow> fst l) \<Longrightarrow>
   case scan_collect p t of
     None \<Rightarrow> False
   | Some (Inl e) \<Rightarrow> e = ArithOverflow \<and> \<not> room (length ls) (bt_pool t)
   | Some (Inr (ns, t')) \<Rightarrow> ns = map snd ls \<and> t' = t\<lparr>bt_pool := bt_pool t'\<rparr> \<and> pool_ready (bt_pool t')
       \<and> pool_view (bt_pool t') = pool_view (bt_pool t)"
proof (induction ls arbitrary: p t rule: linked.induct)
  case 1
  then show ?case by (subst scan_collect.simps) (simp add: scan_next_def)
next
  case (2 l)
  obtain q m where l: "l = (q, m)" by (cases l)
  with 2 obtain bs where bs: "pool_view (bt_pool t) q = Some bs" "leaf_decode bs = Inr m" by (auto simp: leaf_page_def)
  have q: "q \<noteq> INVALID_PAGE_ID" using ready_page_valid [OF 2(3) bs(1)] .
  have fin: "scan_collect INVALID_PAGE_ID t' = Some (Inr ([], t'))" for t'
    by (subst scan_collect.simps) (simp add: scan_next_def)
  have m: "ln_next_page_id m = INVALID_PAGE_ID" using 2(1) l by simp
  show ?case
    using with_read_page_outcome [where k = leaf_decode, OF 2(3) bs] 2(4) l q m
    by (subst scan_collect.simps) (auto simp: scan_next_def fin split: sum.splits)
next
  case (3 l l' ls)
  obtain q m where l: "l = (q, m)" by (cases l)
  with 3(3) obtain bs where bs: "pool_view (bt_pool t) q = Some bs" "leaf_decode bs = Inr m" by (auto simp: leaf_page_def)
  have q: "p = q" "q \<noteq> INVALID_PAGE_ID" using ready_page_valid [OF 3(4) bs(1)] 3(5) l by simp_all
  note out = with_read_page_outcome [where k = leaf_decode, OF 3(4) bs]
  show ?case
  proof (cases "with_read_page q leaf_decode (bt_pool t)")
    case (Inl e)
    with out q show ?thesis by (subst scan_collect.simps) (auto simp: scan_next_def room_def)
  next
    case (Inr ys)
    then obtain s1 where run: "with_read_page q leaf_decode (bt_pool t) = Inr (m, s1)"
      and s1: "pool_ready s1" "pool_view s1 = pool_view (bt_pool t)" "block_frame (bt_pool t) s1" "room 1 (bt_pool t) \<longrightarrow> resident s1"
      using out by (cases ys) auto
    let ?t = "t\<lparr>bt_pool := s1\<rparr>"
    have step: "scan_collect p t = Option.bind (scan_collect (fst l') ?t) (\<lambda>q. Some (seq q (\<lambda>(ns, t'). Inr (m # ns, t'))))"
      using run q 3(2) l by (subst scan_collect.simps) (simp add: scan_next_def)
    have "room (length (l' # ls)) s1" if "room (length (l # l' # ls)) (bt_pool t)"
      using that s1(3,4) by (auto simp: room_def block_frame_def)
    moreover have "case scan_collect (fst l') ?t of
       None \<Rightarrow> False
     | Some (Inl e) \<Rightarrow> e = ArithOverflow \<and> \<not> room (length (l' # ls)) (bt_pool ?t)
     | Some (Inr (ns, t')) \<Rightarrow> ns = map snd (l' # ls) \<and> t' = ?t\<lparr>bt_pool := bt_pool t'\<rparr> \<and> pool_ready (bt_pool t')
         \<and> pool_view (bt_pool t') = pool_view (bt_pool ?t)"
      using 3(2,3) s1(1,2) by (intro 3(1)) simp_all
    ultimately show ?thesis using s1(2) l unfolding step by (auto split: option.splits sum.splits)
  qed
qed

end
