(* ===== verification/BTreeNew.thy ===== *)
theory BTreeNew
  imports BTreeLookup
begin

text \<open>
  How a tree comes to be: \<open>BTree::new\<close>, the pages the tree writes, and the first insertion. Then the
  properties of lookup and scan, with a tree built this way as their witness.
\<close>

section \<open>Write blocks and the pages the tree writes\<close>

lemma with_write_page_outcome:
  assumes "pool_ready s" and "pool_view s p = Some b" and "k b = Inr (x, bs)" and "length bs = PAGE_SIZE"
  shows "case with_write_page p k s of
      Inl e \<Rightarrow> e = ArithOverflow \<and> \<not> room 1 s
    | Inr (y, s') \<Rightarrow> y = x \<and> pool_ready s' \<and> pool_view s' = (pool_view s)(p \<mapsto> bs) \<and> block_frame s s' \<and> (room 1 s \<longrightarrow> resident s')"
proof -
  have total: "\<exists>s'. with_write_page p k s = Inr (x, s') \<and> resident s'" if "room 1 s"
  proof -
    have "resident s" "unat (curr_size (replacer s)) + 1 < 2 ^ 32" using that by (simp_all add: room_def)
    from with_write_page_resident [where k = k, OF assms(1) this(1) assms(2,3,4) this(2)] show ?thesis by metis
  qed
  show ?thesis
  proof (cases "with_write_page p k s")
    case (Inl e)
    with with_write_page_panic [OF assms(1-4) Inl] total show ?thesis by auto
  next
    case (Inr ys)
    then obtain y s' where run: "with_write_page p k s = Inr (y, s')" by (cases ys) simp
    with with_write_page_law [OF assms(1-4) run] total show ?thesis by auto
  qed
qed

text \<open>The pages the tree writes.\<close>

lemma set_root_ok:
  assumes "length bs = PAGE_SIZE"
  obtains bs' where "overwrite (set_root_page_id r) bs = Inr ((), bs')" and "length bs' = PAGE_SIZE" and "get_root_page_id bs' = Inr r"
proof -
  let ?bs = "put 0 (u32_to_le r) bs"
  have "overwrite (set_root_page_id r) bs = Inr ((), ?bs)" "length ?bs = PAGE_SIZE"
    using assms by (simp_all add: overwrite_def set_root_page_id_def copy_into_ok PAGE_SIZE_def)
  moreover have "get_root_page_id ?bs = Inr r"
    using assms get_put_same [of 0 "u32_to_le r" bs] by (simp add: get_root_page_id_def slice_ok PAGE_SIZE_def)
  ultimately show ?thesis using that by blast
qed

lemma leaf_write_ok:
  assumes "length bs = PAGE_SIZE" and "length (ln_entries n) \<le> 511"
  obtains bs' where "leaf_encode n bs = Inr bs'" and "length bs' = PAGE_SIZE" and "\<And>v. v p = Some bs' \<Longrightarrow> leaf_page v p n"
proof -
  have "HEADER_SIZE + length (ln_entries n) * 16 \<le> length bs" "length (ln_entries n) < 2 ^ 32"
    using assms by (simp_all add: HEADER_SIZE_def PAGE_SIZE_def)
  from leaf_encode_ok [OF this] assms(1) obtain bs' where
    E: "leaf_encode n bs = Inr bs'" "length bs' = PAGE_SIZE" "leaf_decode bs' = Inr n" "bs' ! 0 = LEAF_NODE" by auto
  then have "leaf_page v p n" if "v p = Some bs'" for v using that by (auto simp: leaf_page_def index_def PAGE_SIZE_def)
  with E that show ?thesis by blast
qed

lemma internal_write_ok:
  assumes "length bs = PAGE_SIZE" and "length es \<le> 681"
  obtains bs' where "internal_encode \<lparr>in_entries = es\<rparr> bs = Inr bs'" and "length bs' = PAGE_SIZE"
    and "\<And>v. v p = Some bs' \<Longrightarrow> internal_page v p es"
proof -
  have "HEADER_SIZE + length (in_entries \<lparr>in_entries = es\<rparr>) * 12 \<le> length bs" "length (in_entries \<lparr>in_entries = es\<rparr>) < 2 ^ 32"
    using assms by (simp_all add: HEADER_SIZE_def PAGE_SIZE_def)
  from internal_encode_ok [OF this] assms(1) obtain bs' where
    E: "internal_encode \<lparr>in_entries = es\<rparr> bs = Inr bs'" "length bs' = PAGE_SIZE"
      "internal_decode bs' = Inr \<lparr>in_entries = es\<rparr>" "bs' ! 0 = INTERNAL_NODE" by auto
  then have "internal_page v p es" if "v p = Some bs'" for v using that by (auto simp: internal_page_def index_def PAGE_SIZE_def)
  with E that show ?thesis by blast
qed

text \<open>A tree without a root: the header page exists, and nothing else is known.\<close>

definition empty_tree :: "btree \<Rightarrow> bool" where
  "empty_tree t \<longleftrightarrow> pool_ready (bt_pool t) \<and> bt_root_page_id t = INVALID_PAGE_ID
     \<and> (\<exists>b. pool_view (bt_pool t) (bt_header_page_id t) = Some b)"

lemma btree_new_ok:
  assumes "faults f = []"
  obtains t where "btree_new (Some f) = Inr t" and "empty_tree t" and "resident (bt_pool t)"
    and "pool_view (bt_pool t) = [0 \<mapsto> replicate PAGE_SIZE 0]" and "bt_header_page_id t = 0"
    and "num_frames (bt_pool t) = 10" and "next_page_id (bt_pool t) = 1" and "curr_size (replacer (bt_pool t)) = 0"
    and "bt_leaf_max t = DEFAULT_LEAF_NODE_MAX_SIZE" and "bt_internal_max t = DEFAULT_INTERNAL_NODE_MAX_SIZE"
proof -
  from dm_new_ok [OF assms] obtain d where d: "dm_new (Some f) = Inr d" "disk_ok d" "disk_view d = Map.empty" by blast
  have idle: "pool_idle (bpm_new 10 d)" "pool_view (bpm_new 10 d) = Map.empty" using bpm_new_idle [OF d(2,3), of 10] by simp_all
  have n: "next_page_id (bpm_new 10 d) = 0" "num_frames (bpm_new 10 d) = 10" "replacer (bpm_new 10 d) = arc_new 10"
    by (simp_all add: bpm_new_def)
  have "unat (next_page_id (bpm_new 10 d)) + 1 < 2 ^ 32" by (simp add: n)
  from new_page_inv [OF idle(1) this] obtain s where s: "new_page (bpm_new 10 d) = Inr (0, s)" "pool_idle s"
    "pool_view s = [0 \<mapsto> replicate PAGE_SIZE 0]" "next_page_id s = 1" "num_frames s = 10" "replacer s = arc_new 10"
    using idle(2) n by auto
  let ?t = "\<lparr>bt_header_page_id = 0, bt_root_page_id = INVALID_PAGE_ID, bt_pool = s,
              bt_leaf_max = DEFAULT_LEAF_NODE_MAX_SIZE, bt_internal_max = DEFAULT_INTERNAL_NODE_MAX_SIZE\<rparr>"
  have "btree_new (Some f) = Inr ?t" using d(1) s(1) by (simp add: btree_new_def)
  moreover have "empty_tree ?t" using s by (simp add: empty_tree_def pool_ready_def)
  moreover have "resident s" using s by (simp add: resident_def arc_new_def)
  moreover have "curr_size (replacer s) = 0" using s(6) by (simp add: arc_new_def)
  ultimately show ?thesis using that [of ?t] s by simp
qed

lemma find_step_zeros: "find_step_of key (replicate PAGE_SIZE 0) = Inl ArithOverflow"
proof -
  have "internal_decode (replicate PAGE_SIZE 0) = Inr \<lparr>in_entries = []\<rparr>"
    by (simp add: internal_decode_def slice_ok get_def PAGE_SIZE_def)
  moreover have "find_child_index \<lparr>in_entries = []\<rparr> key = Inl ArithOverflow"
    using find_child_index_sorted [of "\<lparr>in_entries = []\<rparr>" key] by simp
  moreover have "index (replicate PAGE_SIZE (0 :: u8)) 0 = Inr INTERNAL_NODE"
    by (simp add: index_def PAGE_SIZE_def INTERNAL_NODE_def)
  moreover have "INTERNAL_NODE \<noteq> LEAF_NODE" by simp
  ultimately show ?thesis unfolding find_step_of_def by (simp only: seq.simps if_False if_True simp_thms)
qed

text \<open>The first insertion of all builds a tree of one leaf.\<close>

lemma insert_first_ok:
  assumes emp: "empty_tree t" and next_p: "unat (next_page_id (bt_pool t)) + 1 < 2 ^ 32"
  shows "case btree_insert key p slot_num t of
     None \<Rightarrow> False
   | Some (Inl e) \<Rightarrow> e = ArithOverflow \<and> \<not> (room 2 (bt_pool t) \<and> unat (next_page_id (bt_pool t)) + 1 \<le> num_frames (bt_pool t))
   | Some (Inr t') \<Rightarrow> represents t' (LeafAt (next_page_id (bt_pool t))
         \<lparr>ln_next_page_id = INVALID_PAGE_ID, ln_entries = [(key, \<lparr>rid_page_id = p, rid_slot_num = slot_num\<rparr>)]\<rparr>)
       \<and> bt_header_page_id t' = bt_header_page_id t \<and> bt_leaf_max t' = bt_leaf_max t \<and> bt_internal_max t' = bt_internal_max t
       \<and> next_page_id (bt_pool t') = next_page_id (bt_pool t) + 1 \<and> num_frames (bt_pool t') = num_frames (bt_pool t)
       \<and> unat (curr_size (replacer (bt_pool t'))) \<le> unat (curr_size (replacer (bt_pool t))) + 2
       \<and> (room 2 (bt_pool t) \<and> unat (next_page_id (bt_pool t)) + 1 \<le> num_frames (bt_pool t) \<longrightarrow> resident (bt_pool t'))"
proof -
  let ?s = "bt_pool t" and ?e = "(key, \<lparr>rid_page_id = p, rid_slot_num = slot_num\<rparr>)"
  let ?q = "next_page_id ?s" and ?n = "\<lparr>ln_next_page_id = INVALID_PAGE_ID, ln_entries = [?e]\<rparr>"
  from emp obtain hb where R: "pool_ready ?s" "bt_root_page_id t = INVALID_PAGE_ID" "pool_view ?s (bt_header_page_id t) = Some hb"
    by (auto simp: empty_tree_def)
  have idle: "pool_idle ?s" "0 < num_frames ?s" using R(1) by (simp_all add: pool_ready_def)
  from new_page_inv [OF idle(1) next_p] obtain s1 where N: "new_page ?s = Inr (?q, s1)" "pool_idle s1"
    "pool_view s1 = (pool_view ?s)(?q \<mapsto> replicate PAGE_SIZE 0)" "pool_view ?s ?q = None" "next_page_id s1 = ?q + 1"
    "num_frames s1 = num_frames ?s" "replacer s1 = replacer ?s" by blast
  have r1: "pool_ready s1" using N idle(2) by (simp add: pool_ready_def)
  have hq: "bt_header_page_id t \<noteq> ?q" using R(3) N(4) by auto
  have hv: "pool_view s1 (bt_header_page_id t) = Some hb" using R(3) N(3) hq by simp
  obtain hb' where hb': "overwrite (set_root_page_id ?q) hb = Inr ((), hb')" "length hb' = PAGE_SIZE" "get_root_page_id hb' = Inr ?q"
    by (rule set_root_ok [OF pool_view_length [OF idle(1) R(3)]])
  obtain lb where lb: "leaf_encode ?n (replicate PAGE_SIZE 0) = Inr lb" "length lb = PAGE_SIZE" "\<And>v. v ?q = Some lb \<Longrightarrow> leaf_page v ?q ?n"
    by (rule leaf_write_ok [of "replicate PAGE_SIZE 0" ?n ?q]) simp_all
  have ow: "overwrite (leaf_encode ?n) (replicate PAGE_SIZE 0) = Inr ((), lb)" using lb(1) by (simp add: overwrite_def)
  have un: "unat (?q + 1) = unat ?q + 1" using next_p by (simp add: unat_word_ariths)
  have rm: "room 2 s1" if "room 2 ?s" "unat ?q + 1 \<le> num_frames ?s"
    using that N un by (simp add: room_def resident_def)
  have ins: "btree_insert key p slot_num t = Some (insert_first ?e t)" using R(2) by (simp add: btree_insert_def)
  note o1 = with_write_page_outcome [where k = "overwrite (set_root_page_id ?q)", OF r1 hv hb'(1,2)]
  show ?thesis
  proof (cases "with_write_page (bt_header_page_id t) (overwrite (set_root_page_id ?q)) s1")
    case (Inl e)
    with o1 N(1) rm ins show ?thesis by (auto simp: insert_first_def room_def)
  next
    case (Inr ys)
    then obtain s2 where run2: "with_write_page (bt_header_page_id t) (overwrite (set_root_page_id ?q)) s1 = Inr ((), s2)"
      and s2: "pool_ready s2" "pool_view s2 = (pool_view s1)(bt_header_page_id t \<mapsto> hb')" "block_frame s1 s2" "room 1 s1 \<longrightarrow> resident s2"
      using o1 by (cases ys) auto
    have qv: "pool_view s2 ?q = Some (replicate PAGE_SIZE 0)" using s2(2) N(3) hq by simp
    note o2 = with_write_page_outcome [where k = "overwrite (leaf_encode ?n)", OF s2(1) qv ow lb(2)]
    have rm2: "room 1 s2" if "room 2 ?s" "unat ?q + 1 \<le> num_frames ?s"
      using rm [OF that] s2(3,4) by (auto simp: room_def block_frame_def)
    show ?thesis
    proof (cases "with_write_page ?q (overwrite (leaf_encode ?n)) s2")
      case (Inl e)
      with o2 N(1) run2 rm2 ins show ?thesis by (auto simp: insert_first_def)
    next
      case (Inr zs)
      then obtain s3 where run3: "with_write_page ?q (overwrite (leaf_encode ?n)) s2 = Inr ((), s3)"
        and s3: "pool_ready s3" "pool_view s3 = (pool_view s2)(?q \<mapsto> lb)" "block_frame s2 s3" "room 1 s2 \<longrightarrow> resident s3"
        using o2 by (cases zs) auto
      have fr: "next_page_id s3 = ?q + 1" "num_frames s3 = num_frames ?s"
        "unat (curr_size (replacer s3)) \<le> unat (curr_size (replacer ?s)) + 2"
        using s2(3) s3(3) N by (auto simp: block_frame_def)
      have res: "insert_first ?e t = Inr (t\<lparr>bt_root_page_id := ?q, bt_pool := s3\<rparr>)"
        using N(1) run2 run3 by (simp add: insert_first_def)
      have "pool_view s3 (bt_header_page_id t) = Some hb'" using s3(2) s2(2) hq by simp
      moreover have "leaf_page (pool_view s3) ?q ?n" using s3(2) by (intro lb(3)) simp
      moreover have "ordered INVALID_KEY None (LeafAt ?q ?n)" by simp
      ultimately have "represents (t\<lparr>bt_root_page_id := ?q, bt_pool := s3\<rparr>) (LeafAt ?q ?n)"
        using s3(1) hb'(3) by (simp add: represents_def)
      with fr rm2 s3(4) show ?thesis unfolding ins res by simp
    qed
  qed
qed

text \<open>A scan, from the leaf its key belongs to.\<close>

lemma scan_from_ok:
  assumes "represents t T" and "linked (leaves T)"
  shows "case scan_from key t of
     None \<Rightarrow> False
   | Some (Inl e) \<Rightarrow> e = ArithOverflow \<and> \<not> room (Suc (height T) + length (leaves T)) (bt_pool t)
   | Some (Inr (ns, t')) \<Rightarrow> represents t' T
       \<and> (\<exists>pre ls. leaves T = pre @ ls \<and> ns = map snd ls \<and> ls \<noteq> [] \<and> keys_below key pre \<and> keys_above key (tl ls))"
proof -
  let ?s = "bt_pool t"
  note leaf = find_leaf_ok [OF assms(1), of key]
  show ?thesis
  proof (cases "find_leaf key t")
    case None
    with leaf show ?thesis by simp
  next
    case (Some res)
    note res = this
    show ?thesis
    proof (cases res)
      case (Inl e)
      with leaf res show ?thesis by (auto simp: scan_from_def btree_scan_def room_def)
    next
      case (Inr rt)
      then obtain r t1 where rt: "res = Inr (r, t1)" by (cases rt) simp
      with leaf res obtain p n where r: "r = Some (n, p)" "leaf_for key (leaves T) p n" by auto
      from leaf res rt have t1: "t1 = t\<lparr>bt_pool := bt_pool t1\<rparr>" "pool_ready (bt_pool t1)" "pool_view (bt_pool t1) = pool_view ?s"
        "room (Suc (height T)) ?s \<longrightarrow> resident (bt_pool t1)
           \<and> unat (curr_size (replacer (bt_pool t1))) \<le> unat (curr_size (replacer ?s)) + Suc (height T)" by auto
      from r(2) obtain pre post where ls: "leaves T = pre @ (p, n) # post" and pp: "keys_below key pre" "keys_above key post"
        unfolding leaf_for_def by metis
      have st: "stored (pool_view ?s) T" using assms(1) by (simp add: represents_def)
      have "linked ((p, n) # post)" using assms(2) linked_suffix unfolding ls by blast
      moreover have "\<forall>(q, m) \<in> set ((p, n) # post). leaf_page (pool_view (bt_pool t1)) q m"
        using stored_leaves [OF st] t1(3) unfolding ls by auto
      ultimately have sc: "case scan_collect p t1 of
           None \<Rightarrow> False
         | Some (Inl e) \<Rightarrow> e = ArithOverflow \<and> \<not> room (length ((p, n) # post)) (bt_pool t1)
         | Some (Inr (ns, t')) \<Rightarrow> ns = map snd ((p, n) # post) \<and> t' = t1\<lparr>bt_pool := bt_pool t'\<rparr> \<and> pool_ready (bt_pool t')
             \<and> pool_view (bt_pool t') = pool_view (bt_pool t1)"
        using t1(2) by (intro scan_collect_ok) simp_all
      have eq: "scan_from key t = scan_collect p t1"
        using res rt r(1) by (simp add: scan_from_def btree_scan_def unwrap_def)
      have rm: "room (length ((p, n) # post)) (bt_pool t1)" if "room (Suc (height T) + length (leaves T)) ?s"
      proof -
        have "room (Suc (height T)) ?s" using that by (simp add: room_def)
        with t1(4) that show ?thesis by (auto simp: room_def ls)
      qed
      have rep: "represents t' T" if "t' = t1\<lparr>bt_pool := bt_pool t'\<rparr>" "pool_ready (bt_pool t')"
        "pool_view (bt_pool t') = pool_view (bt_pool t1)" for t'
      proof -
        have "t' = t\<lparr>bt_pool := bt_pool t'\<rparr>" using that(1) t1(1) by (metis btree.surjective btree.update_convs(3))
        with represents_pool [OF assms(1) that(2)] that(3) t1(3) show ?thesis by simp
      qed
      have "\<exists>pre' ls. leaves T = pre' @ ls \<and> map snd ((p, n) # post) = map snd ls \<and> ls \<noteq> [] \<and> keys_below key pre' \<and> keys_above key (tl ls)"
        using ls pp by (intro exI [of _ pre] exI [of _ "(p, n) # post"]) simp
      with sc rm rep show ?thesis unfolding eq by (auto split: option.splits sum.splits)
    qed
  qed
qed

section \<open>Properties\<close>

text \<open>C7: Lookup. On a stored ordered tree \<open>find\<close> always returns, whatever the number of frames: the
  entry the tree's contents have for the key, or nothing if they have none, with the tree
  unchanged. The only other outcome is the replacement policy's arithmetic panic, and with a frame
  for every page it does not occur.\<close>

theorem find_is_lookup:
  assumes "represents t T"
  shows "case btree_find key t of
     None \<Rightarrow> False
   | Some (Inl e) \<Rightarrow> e = ArithOverflow \<and> \<not> room (Suc (height T)) (bt_pool t)
   | Some (Inr (r, t')) \<Rightarrow> r = map_option (Pair key) (map_of (contents T) key) \<and> represents t' T"
proof -
  have kv: "find_kv n key = Inr (map_option (Pair key) (map_of (contents T) key))" if "leaf_for key (leaves T) p n" for p n
    by (rule leaf_for_find [OF that])
  have rep: "represents t' T" if "t' = t\<lparr>bt_pool := bt_pool t'\<rparr>" "pool_ready (bt_pool t')" "pool_view (bt_pool t') = pool_view (bt_pool t)" for t'
    using represents_pool [OF assms that(2,3)] that(1) by simp
  from find_leaf_ok [OF assms, of key] show ?thesis
    unfolding btree_find_def by (cases "find_leaf key t") (auto simp: kv rep split: sum.splits)
qed

text \<open>C8: Scan. A scan from a key on a stored ordered tree whose leaves are linked comes to an end and
  yields whole leaves: the leaf the key belongs to and, in order, all that follow it. The leaves left out hold only keys
  below the key, and those after the first one yielded only keys above it, so the scan starts neither too late nor
  too early. The only other outcome is the policy's arithmetic panic, and with a frame for every page it does not occur.\<close>

theorem scan_yields_suffix:
  assumes "represents t T" and "linked (leaves T)"
  shows "case scan_from key t of
     None \<Rightarrow> False
   | Some (Inl e) \<Rightarrow> e = ArithOverflow \<and> \<not> room (Suc (height T) + length (leaves T)) (bt_pool t)
   | Some (Inr (ns, t')) \<Rightarrow> represents t' T
       \<and> (\<exists>pre ls. leaves T = pre @ ls \<and> ns = map snd ls \<and> ls \<noteq> [] \<and> keys_below key pre \<and> keys_above key (tl ls))"
  by (rule scan_from_ok [OF assms])

text \<open>C17: A new tree. \<open>BTree::new\<close> on a file without faults succeeds and gives a tree without a root; a
  lookup in it does not answer "nothing" but panics: the zeroed header page is read as root page 0,
  which is itself, an internal node without entries.\<close>

theorem new_tree_find_panics:
  assumes "faults f = []"
  shows "\<exists>t. btree_new (Some f) = Inr t \<and> empty_tree t \<and> btree_find key t = Some (Inl ArithOverflow)"
proof -
  obtain t where t: "btree_new (Some f) = Inr t" "empty_tree t" "pool_view (bt_pool t) = [0 \<mapsto> replicate PAGE_SIZE 0]"
    "bt_header_page_id t = 0" by (rule btree_new_ok [OF assms])
  then have r: "pool_ready (bt_pool t)" by (simp add: empty_tree_def)
  have hd: "pool_view (bt_pool t) 0 = Some (replicate PAGE_SIZE 0)" by (simp add: t(3))
  have root: "get_root_page_id (replicate PAGE_SIZE 0) = Inr 0"
    by (simp add: get_root_page_id_def slice_ok get_def PAGE_SIZE_def)
  have "find_leaf key t = Some (Inl ArithOverflow)"
  proof (cases "with_read_page 0 get_root_page_id (bt_pool t)")
    case (Inl e)
    with with_read_page_panic [OF r hd Inl] root t(4) show ?thesis by (simp add: find_leaf_def)
  next
    case (Inr ys)
    then obtain y s1 where run: "with_read_page 0 get_root_page_id (bt_pool t) = Inr (y, s1)" by (cases ys) simp
    from with_read_page_law [OF r hd run] root have s1: "y = 0" "pool_ready s1" "pool_view s1 0 = Some (replicate PAGE_SIZE 0)"
      using hd by auto
    have "with_read_page 0 (find_step_of key) s1 = Inl ArithOverflow"
    proof (cases "with_read_page 0 (find_step_of key) s1")
      case (Inl e)
      with with_read_page_panic [OF s1(2,3) Inl] find_step_zeros show ?thesis by auto
    next
      case (Inr zs)
      then obtain z s2 where "with_read_page 0 (find_step_of key) s1 = Inr (z, s2)" by (cases zs) simp
      with with_read_page_law [OF s1(2,3) this] find_step_zeros show ?thesis by auto
    qed
    then have "find_leaf_loop key 0 s1 = Some (Inl ArithOverflow)" by (subst find_leaf_loop.simps) simp
    with run s1(1) t(4) show ?thesis by (simp add: find_leaf_def)
  qed
  with t show ?thesis by (auto simp: btree_find_def)
qed

lemma one_leaf_tree:
  fixes key p slot_num
  defines "n \<equiv> \<lparr>ln_next_page_id = INVALID_PAGE_ID, ln_entries = [(key, \<lparr>rid_page_id = p, rid_slot_num = slot_num\<rparr>)]\<rparr>"
  obtains t where "represents t (LeafAt 1 n)" and "room 100 (bt_pool t)" and "bt_header_page_id t = 0"
    and "bt_leaf_max t = DEFAULT_LEAF_NODE_MAX_SIZE" and "bt_internal_max t = DEFAULT_INTERNAL_NODE_MAX_SIZE"
    and "next_page_id (bt_pool t) = 2" and "num_frames (bt_pool t) = 10" and "unat (curr_size (replacer (bt_pool t))) \<le> 2"
proof -
  have "faults \<lparr>fbytes = [], fpos = 0, faults = []\<rparr> = []" by simp
  from btree_new_ok [OF this] obtain t where t: "empty_tree t" "resident (bt_pool t)" "bt_header_page_id t = 0"
    "num_frames (bt_pool t) = 10" "next_page_id (bt_pool t) = 1" "curr_size (replacer (bt_pool t)) = 0"
    "bt_leaf_max t = DEFAULT_LEAF_NODE_MAX_SIZE" "bt_internal_max t = DEFAULT_INTERNAL_NODE_MAX_SIZE" by metis
  have "unat (next_page_id (bt_pool t)) + 1 < 2 ^ 32" by (simp add: t(5))
  note F = insert_first_ok [OF t(1) this, of key p slot_num, folded n_def]
  have rm: "room 2 (bt_pool t) \<and> unat (next_page_id (bt_pool t)) + 1 \<le> num_frames (bt_pool t)" using t by (simp add: room_def)
  show ?thesis
  proof (cases "btree_insert key p slot_num t")
    case None
    with F show ?thesis by simp
  next
    case (Some r)
    with F rm obtain t' where "r = Inr t'" by (cases r) auto
    with Some F rm t that [of t'] show ?thesis by (simp add: room_def)
  qed
qed

theorem find_is_lookup_witness:
  "\<exists>t t'. btree_find (I64 7) t = Some (Inr (Some (I64 7, \<lparr>rid_page_id = 8, rid_slot_num = 9\<rparr>), t'))"
proof -
  obtain t where t: "represents t (LeafAt 1 \<lparr>ln_next_page_id = INVALID_PAGE_ID, ln_entries = [(I64 7, \<lparr>rid_page_id = 8, rid_slot_num = 9\<rparr>)]\<rparr>)"
    and rm: "room 100 (bt_pool t)" by (rule one_leaf_tree)
  have "room 2 (bt_pool t)" using rm by (rule room_mono) simp
  with find_is_lookup [OF t, of "I64 7"] show ?thesis
    by (auto split: option.splits sum.splits simp: numeral_2_eq_2)
qed

theorem scan_yields_suffix_witness:
  "\<exists>t n t'. scan_from (I64 3) t = Some (Inr (n, t')) \<and> concat (map ln_entries n) = [(I64 7, \<lparr>rid_page_id = 8, rid_slot_num = 9\<rparr>)]"
proof -
  obtain t where t: "represents t (LeafAt 1 \<lparr>ln_next_page_id = INVALID_PAGE_ID, ln_entries = [(I64 7, \<lparr>rid_page_id = 8, rid_slot_num = 9\<rparr>)]\<rparr>)"
    (is "represents t ?T") and rm: "room 100 (bt_pool t)" by (rule one_leaf_tree)
  have rm3: "room (Suc (height ?T) + length (leaves ?T)) (bt_pool t)" using rm by (rule room_mono) simp
  have "linked (leaves ?T)" by simp
  note S = scan_yields_suffix [OF t this, of "I64 3"]
  show ?thesis
  proof (cases "scan_from (I64 3) t")
    case None
    with S show ?thesis by simp
  next
    case (Some r)
    with S rm3 obtain ns t' where r: "r = Inr (ns, t')" by (cases r) auto
    with S Some obtain pre ls where "leaves ?T = pre @ ls" "ns = map snd ls" "ls \<noteq> []" by auto
    then have "concat (map ln_entries ns) = [(I64 7, \<lparr>rid_page_id = 8, rid_slot_num = 9\<rparr>)]" by (cases pre) auto
    with Some r show ?thesis by auto
  qed
qed

theorem new_tree_find_panics_witness:
  "\<exists>t. btree_new (Some \<lparr>fbytes = [], fpos = 0, faults = []\<rparr>) = Inr t \<and> btree_find (I64 1) t = Some (Inl ArithOverflow)"
  using new_tree_find_panics [of "\<lparr>fbytes = [], fpos = 0, faults = []\<rparr>" "I64 1"] by auto

end
