(* ===== verification/BTreeShape.thy ===== *)
theory BTreeShape
  imports BTreeLookup
begin

text \<open>
  Trees as values, taken apart at a node and grown back from it: contexts, their bounds, and the growth of
  a tree when a node is split. What an ordered, balanced tree of bounded nodes with linked leaves and
  distinct pages keeps of this is shown part by part.
\<close>

section \<open>Contexts\<close>

text \<open>A context of a node, from the inside out: the page of the parent, the children to the left, the
  separator of the hole, the children to the right.\<close>

type_synonym ctx = "page_id \<times> (i64 \<times> shape) list \<times> i64 \<times> (i64 \<times> shape) list"

fun plug :: "shape \<Rightarrow> ctx list \<Rightarrow> shape" where
  "plug c [] = c"
| "plug c ((p, ls, k, rs) # zs) = plug (NodeAt p (ls @ (k, c) # rs)) zs"

text \<open>How the bounds of the hole come from those of the node.\<close>

definition frame_ok :: "i64 \<Rightarrow> i64 option \<Rightarrow> (i64 \<times> shape) list \<Rightarrow> i64 \<Rightarrow> (i64 \<times> shape) list \<Rightarrow> i64 \<Rightarrow> i64 option \<Rightarrow> bool" where
  "frame_ok lo0 hi0 ls k rs lo hi \<longleftrightarrow>
     (if ls = [] then k = INVALID_KEY \<and> lo = lo0
      else fst (hd ls) = INVALID_KEY \<and> lo = k \<and> lo0 < k \<and> below k hi0 \<and> ordered_children lo0 (Some k) ls)
     \<and> (case rs of [] \<Rightarrow> hi = hi0
         | r # _ \<Rightarrow> hi = Some (fst r) \<and> lo < fst r \<and> below (fst r) hi0 \<and> ordered_children (fst r) hi0 rs)"

fun hole :: "i64 \<Rightarrow> i64 option \<Rightarrow> ctx list \<Rightarrow> bool" where
  "hole lo hi [] \<longleftrightarrow> lo = INVALID_KEY \<and> hi = None"
| "hole lo hi ((p, ls, k, rs) # zs) \<longleftrightarrow> (\<exists>lo0 hi0. hole lo0 hi0 zs \<and> frame_ok lo0 hi0 ls k rs lo hi)"

lemma ordered_children_append:
  "ordered_children lo hi (ls @ kc # rs) \<longleftrightarrow>
     (ls \<noteq> [] \<longrightarrow> lo < fst kc \<and> below (fst kc) hi \<and> ordered_children lo (Some (fst kc)) ls)
     \<and> ordered_children (if ls = [] then lo else fst kc) hi (kc # rs)"
proof (induction ls arbitrary: lo)
  case (Cons l ls)
  show ?case
  proof (cases ls)
    case Nil
    then show ?thesis by auto
  next
    case (Cons l' ls')
    have "ordered_children lo hi ((l # ls) @ kc # rs) \<longleftrightarrow> lo < fst l' \<and> below (fst l') hi \<and> ordered lo (Some (fst l')) (snd l)
        \<and> ordered_children (fst l') hi (ls @ kc # rs)" using Cons by simp
    also have "\<dots> \<longleftrightarrow> lo < fst l' \<and> below (fst l') hi \<and> ordered lo (Some (fst l')) (snd l) \<and> fst l' < fst kc \<and> below (fst kc) hi
        \<and> ordered_children (fst l') (Some (fst kc)) ls \<and> ordered_children (fst kc) hi (kc # rs)"
      using Cons.IH [of "fst l'"] Cons by simp
    also have "\<dots> \<longleftrightarrow> lo < fst kc \<and> below (fst kc) hi \<and> (lo < fst l' \<and> fst l' < fst kc \<and> ordered lo (Some (fst l')) (snd l)
        \<and> ordered_children (fst l') (Some (fst kc)) ls) \<and> ordered_children (fst kc) hi (kc # rs)"
      using below_less [of "fst l'" "fst kc" hi] by (meson order.strict_trans)
    also have "\<dots> \<longleftrightarrow> lo < fst kc \<and> below (fst kc) hi \<and> ordered_children lo (Some (fst kc)) (l # ls)
        \<and> ordered_children (fst kc) hi (kc # rs)" using Cons by simp
    finally show ?thesis by simp
  qed
qed simp

lemma ordered_children_Cons:
  "ordered_children lo hi (kc # rs) \<longleftrightarrow> (case rs of [] \<Rightarrow> ordered lo hi (snd kc)
     | r # _ \<Rightarrow> lo < fst r \<and> below (fst r) hi \<and> ordered lo (Some (fst r)) (snd kc) \<and> ordered_children (fst r) hi rs)"
  by (cases rs) simp_all

lemma frame_down:
  assumes "ordered lo0 hi0 (NodeAt p (ls @ (k, c) # rs))"
  obtains lo hi where "frame_ok lo0 hi0 ls k rs lo hi" and "ordered lo hi c"
proof -
  have "ordered_children lo0 hi0 (ls @ (k, c) # rs)" using assms by simp
  note app = this [unfolded ordered_children_append fst_conv]
  have first: "fst (hd (ls @ (k, c) # rs)) = INVALID_KEY" using assms by simp
  have oc: "(ls \<noteq> [] \<longrightarrow> lo0 < k \<and> below k hi0 \<and> ordered_children lo0 (Some k) ls)
       \<and> ordered_children (if ls = [] then lo0 else k) hi0 ((k, c) # rs)"
    by (rule app)
  show ?thesis
  proof (cases rs)
    case Nil
    with first oc that [of "if ls = [] then lo0 else k" hi0] show ?thesis
      by (cases "ls = []") (simp_all add: frame_ok_def)
  next
    case (Cons r rs')
    with first oc that [of "if ls = [] then lo0 else k" "Some (fst r)"] show ?thesis
      by (cases "ls = []") (simp_all add: frame_ok_def)
  qed
qed

lemma frame_up:
  assumes "frame_ok lo0 hi0 ls k rs lo hi" and "ordered lo hi c"
  shows "ordered lo0 hi0 (NodeAt p (ls @ (k, c) # rs))"
  using assms
  by (cases "ls = []"; cases rs) (simp_all add: frame_ok_def ordered_children_append ordered_children_Cons)

lemma frame_lo: "frame_ok lo0 hi0 ls k rs lo hi \<Longrightarrow> lo0 \<le> lo"
  by (auto simp: frame_ok_def split: if_splits)

lemma frame_split:
  assumes fr: "frame_ok lo0 hi0 ls k rs lo hi" and L: "ordered lo (Some sep) L" and R: "ordered sep hi R"
    and sep: "lo < sep" "below sep hi"
  shows "ordered lo0 hi0 (NodeAt p (ls @ (k, L) # (sep, R) # rs))"
proof -
  have hi: "below sep hi0" "case rs of [] \<Rightarrow> hi = hi0 | r # _ \<Rightarrow> sep < fst r \<and> below (fst r) hi0 \<and> hi = Some (fst r) \<and> ordered_children (fst r) hi0 rs"
    using fr sep(2) below_less by (auto simp: frame_ok_def split: list.splits)
  have "ordered_children sep hi0 ((sep, R) # rs)"
    using hi(2) R by (cases rs) (simp_all add: ordered_children_Cons)
  then have "ordered_children lo hi0 ((k, L) # (sep, R) # rs)" using L sep(1) hi(1) by simp
  then show ?thesis using fr by (cases "ls = []") (simp_all add: frame_ok_def ordered_children_append)
qed

lemma node_split:
  assumes ord: "ordered lo hi (NodeAt p kcs)" and m: "0 < m" "m < length kcs"
  defines "sep \<equiv> fst (kcs ! m)"
  shows "ordered lo (Some sep) (NodeAt p (take m kcs))"
    and "ordered sep hi (NodeAt q ((INVALID_KEY, snd (kcs ! m)) # drop (Suc m) kcs))" and "lo < sep" and "below sep hi"
proof -
  have kcs: "kcs = take m kcs @ kcs ! m # drop (Suc m) kcs" using m(2) by (rule id_take_nth_drop)
  have ne: "take m kcs \<noteq> []" using m by auto
  have "ordered_children lo hi (take m kcs @ kcs ! m # drop (Suc m) kcs)" using ord kcs by simp
  with ne have oc: "lo < sep" "below sep hi" "ordered_children lo (Some sep) (take m kcs)"
    "ordered_children sep hi (kcs ! m # drop (Suc m) kcs)" unfolding sep_def by (simp_all add: ordered_children_append)
  show "lo < sep" "below sep hi" by (rule oc)+
  have "fst (hd (take m kcs)) = INVALID_KEY" using ord m(1) by simp
  with ne oc(3) show "ordered lo (Some sep) (NodeAt p (take m kcs))" by simp
  have "ordered_children sep hi ((INVALID_KEY, snd (kcs ! m)) # drop (Suc m) kcs)"
    using oc(4) unfolding ordered_children_Cons snd_conv .
  then show "ordered sep hi (NodeAt q ((INVALID_KEY, snd (kcs ! m)) # drop (Suc m) kcs))" by simp
qed

lemma leaf_split:
  assumes ord: "ordered lo hi (LeafAt p \<lparr>ln_next_page_id = x, ln_entries = es\<rparr>)" and m: "0 < m" "m < length es"
  defines "sep \<equiv> fst (es ! m)"
  shows "ordered lo (Some sep) (LeafAt p \<lparr>ln_next_page_id = y, ln_entries = take m es\<rparr>)"
    and "ordered sep hi (LeafAt q \<lparr>ln_next_page_id = x, ln_entries = drop m es\<rparr>)" and "lo < sep" and "below sep hi"
proof -
  have srt: "sorted_wrt (<) (map fst es)" and bd: "\<forall>k \<in> fst ` set es. lo \<le> k \<and> below k hi" using ord by simp_all
  have lt: "fst (es ! i) < fst (es ! j)" if "i < j" "j < length es" for i j
    using sorted_wrt_nth_less [OF srt, of i j] that by simp
  have mem: "es ! i \<in> set es" if "i < length es" for i using that by simp
  have "fst (es ! 0) < sep" unfolding sep_def using lt [of 0 m] m by simp
  moreover have "lo \<le> fst (es ! 0)" using bd mem [of 0] m by fastforce
  ultimately show "lo < sep" by simp
  show "below sep hi" unfolding sep_def using bd mem [OF m(2)] by blast
  have "k < sep" if "k \<in> fst ` set (take m es)" for k
  proof -
    from that obtain j where "j < m" "k = fst (es ! j)" using m(2) by (auto simp: in_set_conv_nth)
    with lt [of j m] m(2) show ?thesis unfolding sep_def by simp
  qed
  moreover have "fst ` set (take m es) \<subseteq> fst ` set es" by (intro image_mono set_take_subset)
  ultimately have "\<forall>k \<in> fst ` set (take m es). lo \<le> k \<and> below k (Some sep)"
    using bd unfolding below.simps by blast
  moreover have "sorted_wrt (<) (map fst (take m es))" using srt by (simp add: take_map [symmetric] sorted_wrt_take)
  ultimately show "ordered lo (Some sep) (LeafAt p \<lparr>ln_next_page_id = y, ln_entries = take m es\<rparr>)"
    unfolding ordered.simps leaf_node.select_convs by blast
  have "sep \<le> k" if "k \<in> fst ` set (drop m es)" for k
  proof -
    from that obtain j where j: "j < length es - m" "k = fst (es ! (m + j))" by (auto simp: in_set_conv_nth)
    have "fst (es ! m) < fst (es ! (m + j))" if "0 < j" using lt [of m "m + j"] that j(1) by linarith
    then show ?thesis unfolding sep_def j(2) by (cases j) (simp_all add: less_imp_le)
  qed
  moreover have "fst ` set (drop m es) \<subseteq> fst ` set es" by (intro image_mono set_drop_subset)
  ultimately have "\<forall>k \<in> fst ` set (drop m es). sep \<le> k \<and> below k hi" using bd by blast
  moreover have "sorted_wrt (<) (map fst (drop m es))" using srt by (simp add: drop_map [symmetric] sorted_wrt_drop)
  ultimately show "ordered sep hi (LeafAt q \<lparr>ln_next_page_id = x, ln_entries = drop m es\<rparr>)"
    unfolding ordered.simps leaf_node.select_convs by blast
qed

lemma plug_ordered: "hole lo hi zs \<Longrightarrow> ordered lo hi c \<Longrightarrow> ordered INVALID_KEY None (plug c zs)"
proof (induction c zs arbitrary: lo hi rule: plug.induct)
  case (2 c p ls k rs zs)
  from 2(2) obtain lo0 hi0 where z: "hole lo0 hi0 zs" "frame_ok lo0 hi0 ls k rs lo hi" by auto
  with 2(1) [OF z(1) frame_up [OF z(2) 2(3)]] show ?case by simp
qed simp

section \<open>Growing upwards\<close>

text \<open>The node at the hole was split into \<open>L\<close> and \<open>R\<close> at \<open>sep\<close>; \<open>q\<close> is the next fresh page.\<close>

fun grow_up :: "nat \<Rightarrow> page_id \<Rightarrow> shape \<Rightarrow> i64 \<Rightarrow> shape \<Rightarrow> ctx list \<Rightarrow> shape" where
  "grow_up m q L sep R [] = NodeAt q [(INVALID_KEY, L), (sep, R)]"
| "grow_up m q L sep R ((p, ls, k, rs) # zs) =
     (let kcs = ls @ (k, L) # (sep, R) # rs; mid = length kcs div 2
      in if length kcs \<le> m then plug (NodeAt p kcs) zs
         else grow_up m (q + 1) (NodeAt p (take mid kcs)) (fst (kcs ! mid))
                (NodeAt q ((INVALID_KEY, snd (kcs ! mid)) # drop (Suc mid) kcs)) zs)"

lemma grow_ordered:
  "hole lo hi zs \<Longrightarrow> ordered lo (Some sep) L \<Longrightarrow> ordered sep hi R \<Longrightarrow> lo < sep \<Longrightarrow> below sep hi \<Longrightarrow>
     ordered INVALID_KEY None (grow_up m q L sep R zs)"
proof (induction m q L sep R zs arbitrary: lo hi rule: grow_up.induct)
  case (1 m q L sep R)
  then show ?case by simp
next
  case (2 m q L sep R p ls k rs zs)
  define kcs where "kcs = ls @ (k, L) # (sep, R) # rs"
  from 2(2) obtain lo0 hi0 where z: "hole lo0 hi0 zs" "frame_ok lo0 hi0 ls k rs lo hi" by auto
  have node: "ordered lo0 hi0 (NodeAt p' kcs)" for p' unfolding kcs_def by (rule frame_split [OF z(2) 2(3-6)])
  show ?case
  proof (cases "length kcs \<le> m")
    case True
    with plug_ordered [OF z(1) node] show ?thesis unfolding kcs_def by simp
  next
    case False
    have "2 \<le> length kcs" by (simp add: kcs_def)
    then have mid: "0 < length kcs div 2" "length kcs div 2 < length kcs" by linarith+
    note sp = node_split [OF node mid]
    have "ordered INVALID_KEY None (grow_up m (q + 1) (NodeAt p (take (length kcs div 2) kcs)) (fst (kcs ! (length kcs div 2)))
                (NodeAt q ((INVALID_KEY, snd (kcs ! (length kcs div 2))) # drop (Suc (length kcs div 2)) kcs)) zs)"
      using 2(1) [OF kcs_def refl _ z(1) sp] False unfolding kcs_def by blast
    with False show ?thesis unfolding grow_up.simps Let_def kcs_def [symmetric] by simp
  qed
qed


section \<open>What growing keeps\<close>

text \<open>The leaves to the left and to the right of the hole.\<close>

abbreviation subleaves :: "(i64 \<times> shape) list \<Rightarrow> (page_id \<times> leaf_node) list" where
  "subleaves kcs \<equiv> concat (map (\<lambda>kc. leaves (snd kc)) kcs)"

fun leaves_before :: "ctx list \<Rightarrow> (page_id \<times> leaf_node) list" where
  "leaves_before [] = []"
| "leaves_before ((p, ls, k, rs) # zs) = leaves_before zs @ subleaves ls"

fun leaves_after :: "ctx list \<Rightarrow> (page_id \<times> leaf_node) list" where
  "leaves_after [] = []"
| "leaves_after ((p, ls, k, rs) # zs) = subleaves rs @ leaves_after zs"

lemma plug_leaves: "leaves (plug c zs) = leaves_before zs @ leaves c @ leaves_after zs"
  by (induction c zs rule: plug.induct) simp_all

lemma subleaves_split: "m < length kcs \<Longrightarrow> subleaves (take m kcs) @ leaves (snd (kcs ! m)) @ subleaves (drop (Suc m) kcs) = subleaves kcs"
  by (subst (4) id_take_nth_drop [of m kcs]) simp_all

lemma grow_leaves: "leaves (grow_up m q L sep R zs) = leaves_before zs @ leaves L @ leaves R @ leaves_after zs"
proof (induction m q L sep R zs rule: grow_up.induct)
  case (2 m q L sep R p ls k rs zs)
  define kcs where "kcs = ls @ (k, L) # (sep, R) # rs"
  have "length kcs div 2 < length kcs" by (simp add: kcs_def)
  note sp = subleaves_split [OF this]
  show ?case
  proof (cases "length kcs \<le> m")
    case True
    then show ?thesis by (simp add: kcs_def plug_leaves)
  next
    case False
    have "leaves (grow_up m q L sep R ((p, ls, k, rs) # zs)) = leaves_before zs @ subleaves kcs @ leaves_after zs"
      using 2 [OF kcs_def refl] False sp unfolding grow_up.simps Let_def kcs_def [symmetric] by simp
    then show ?thesis by (simp add: kcs_def)
  qed
qed simp

text \<open>Pages. Each split on the way up takes a fresh one, and a new root another.\<close>

fun page_ids :: "shape \<Rightarrow> page_id list" where
  "page_ids (LeafAt p n) = [p]"
| "page_ids (NodeAt p kcs) = p # concat (map (\<lambda>kc. page_ids (snd kc)) kcs)"

abbreviation subpages :: "(i64 \<times> shape) list \<Rightarrow> page_id list" where
  "subpages kcs \<equiv> concat (map (\<lambda>kc. page_ids (snd kc)) kcs)"

fun ctx_pages :: "ctx list \<Rightarrow> page_id list" where
  "ctx_pages [] = []"
| "ctx_pages ((p, ls, k, rs) # zs) = p # subpages ls @ subpages rs @ ctx_pages zs"

fun new_pages :: "nat \<Rightarrow> ctx list \<Rightarrow> nat" where
  "new_pages m [] = 1"
| "new_pages m ((p, ls, k, rs) # zs) = (if length ls + length rs + 2 \<le> m then 0 else Suc (new_pages m zs))"

definition fresh_ids :: "page_id \<Rightarrow> nat \<Rightarrow> page_id list" where
  "fresh_ids q n = map (\<lambda>i. q + of_nat i) [0..<n]"

lemma fresh_ids_simps [simp]: "fresh_ids q 0 = []" "fresh_ids q (Suc n) = q # fresh_ids (q + 1) n"
  by (simp_all add: fresh_ids_def upt_conv_Cons map_Suc_upt [symmetric] comp_def add.assoc del: upt_Suc)

lemma new_pages_le: "new_pages m zs \<le> Suc (length zs)"
  by (induction m zs rule: new_pages.induct) simp_all

lemma plug_pages: "mset (page_ids (plug c zs)) = mset (page_ids c) + mset (ctx_pages zs)"
  by (induction c zs rule: plug.induct) simp_all

lemma subpages_split: "m < length kcs \<Longrightarrow>
  mset (subpages (take m kcs)) + mset (page_ids (snd (kcs ! m))) + mset (subpages (drop (Suc m) kcs)) = mset (subpages kcs)"
  by (subst (4) id_take_nth_drop [of m kcs]) simp_all

lemma grow_pages:
  "mset (page_ids (grow_up m q L sep R zs))
     = mset (page_ids L) + mset (page_ids R) + mset (ctx_pages zs) + mset (fresh_ids q (new_pages m zs))"
proof (induction m q L sep R zs rule: grow_up.induct)
  case (2 m q L sep R p ls k rs zs)
  define kcs where "kcs = ls @ (k, L) # (sep, R) # rs"
  have "length kcs div 2 < length kcs" by (simp add: kcs_def)
  note sp = subpages_split [OF this]
  have len: "length kcs = length ls + length rs + 2" by (simp add: kcs_def)
  show ?case
  proof (cases "length kcs \<le> m")
    case True
    with len show ?thesis by (simp add: kcs_def plug_pages)
  next
    case False
    have "mset (page_ids (grow_up m q L sep R ((p, ls, k, rs) # zs)))
        = add_mset p (mset (subpages kcs)) + mset (ctx_pages zs) + mset (q # fresh_ids (q + 1) (new_pages m zs))"
      using 2 [OF kcs_def refl] False unfolding grow_up.simps Let_def kcs_def [symmetric] sp [symmetric] by simp
    with False len show ?thesis by (simp add: kcs_def)
  qed
qed simp

text \<open>Sizes: no node is larger than the limits.\<close>

fun sized :: "nat \<Rightarrow> nat \<Rightarrow> shape \<Rightarrow> bool" where
  "sized lm im (LeafAt p n) \<longleftrightarrow> length (ln_entries n) \<le> lm"
| "sized lm im (NodeAt p kcs) \<longleftrightarrow> length kcs \<le> im \<and> (\<forall>kc \<in> set kcs. sized lm im (snd kc))"

fun ctx_sized :: "nat \<Rightarrow> nat \<Rightarrow> ctx list \<Rightarrow> bool" where
  "ctx_sized lm im [] \<longleftrightarrow> True"
| "ctx_sized lm im ((p, ls, k, rs) # zs) \<longleftrightarrow> length ls + length rs + 1 \<le> im
     \<and> (\<forall>kc \<in> set ls \<union> set rs. sized lm im (snd kc)) \<and> ctx_sized lm im zs"

lemma plug_sized: "sized lm im (plug c zs) \<longleftrightarrow> sized lm im c \<and> ctx_sized lm im zs"
  by (induction c zs rule: plug.induct) auto

lemma grow_sized:
  "sized lm m L \<Longrightarrow> sized lm m R \<Longrightarrow> ctx_sized lm m zs \<Longrightarrow> 2 \<le> m \<Longrightarrow> sized lm m (grow_up m q L sep R zs)"
proof (induction m q L sep R zs rule: grow_up.induct)
  case (2 m q L sep R p ls k rs zs)
  define kcs where "kcs = ls @ (k, L) # (sep, R) # rs"
  have len: "length kcs \<le> Suc m" "2 \<le> length kcs" using 2(4) by (simp_all add: kcs_def)
  have sub: "sized lm m (snd kc)" if "kc \<in> set kcs" for kc using that 2(2-4) by (auto simp: kcs_def)
  show ?case
  proof (cases "length kcs \<le> m")
    case True
    with 2(4) sub show ?thesis by (simp add: kcs_def plug_sized)
  next
    case False
    have mid: "length kcs div 2 < length kcs" using len(2) by linarith
    have "sized lm m (NodeAt p (take (length kcs div 2) kcs))" using sub len 2(5) by (auto dest: in_set_takeD)
    moreover have "sized lm m (NodeAt q ((INVALID_KEY, snd (kcs ! (length kcs div 2))) # drop (Suc (length kcs div 2)) kcs))"
      using sub [OF nth_mem [OF mid]] sub len 2(5) by (auto dest: in_set_dropD)
    moreover have "ctx_sized lm m zs" using 2(4) by simp
    ultimately show ?thesis
      using 2(1) [OF kcs_def refl] False 2(5) unfolding grow_up.simps Let_def kcs_def [symmetric] by simp
  qed
qed simp

text \<open>Balance: all leaves are at the same depth.\<close>

fun balanced :: "nat \<Rightarrow> shape \<Rightarrow> bool" where
  "balanced h (LeafAt p n) \<longleftrightarrow> h = 1"
| "balanced h (NodeAt p kcs) \<longleftrightarrow> kcs \<noteq> [] \<and> (\<exists>h'. h = Suc h' \<and> (\<forall>kc \<in> set kcs. balanced h' (snd kc)))"

fun ctx_balanced :: "nat \<Rightarrow> ctx list \<Rightarrow> bool" where
  "ctx_balanced h [] \<longleftrightarrow> True"
| "ctx_balanced h ((p, ls, k, rs) # zs) \<longleftrightarrow> (\<forall>kc \<in> set ls \<union> set rs. balanced h (snd kc)) \<and> ctx_balanced (Suc h) zs"

lemma plug_balanced: "balanced h c \<Longrightarrow> ctx_balanced h zs \<Longrightarrow> balanced (h + length zs) (plug c zs)"
proof (induction c zs arbitrary: h rule: plug.induct)
  case (2 c p ls k rs zs)
  then have "balanced (Suc h) (NodeAt p (ls @ (k, c) # rs))" "ctx_balanced (Suc h) zs" by auto
  from 2(1) [OF this] show ?case by simp
qed simp

lemma balanced_unique: "balanced h T \<Longrightarrow> balanced h' T \<Longrightarrow> h = h'"
proof (induction T arbitrary: h h')
  case (NodeAt p kcs)
  then obtain kc where kc: "kc \<in> set kcs" by (cases kcs) auto
  from NodeAt.prems obtain g g' where "h = Suc g" "h' = Suc g'" "balanced g (snd kc)" "balanced g' (snd kc)" using kc by auto
  with NodeAt.IH [OF kc, of "snd kc" g g'] show ?case by (cases kc) simp
qed simp

lemma plug_balancedD: "balanced h (plug c zs) \<Longrightarrow> \<exists>h'. balanced h' c \<and> ctx_balanced h' zs \<and> h = h' + length zs"
proof (induction c zs rule: plug.induct)
  case (2 c p ls k rs zs)
  from 2(1) [of] 2(2) obtain h' where h': "balanced h' (NodeAt p (ls @ (k, c) # rs))" "ctx_balanced h' zs" "h = h' + length zs" by auto
  then obtain g where "h' = Suc g" "balanced g c" "\<forall>kc \<in> set ls \<union> set rs. balanced g (snd kc)" by auto
  with h' show ?case by (intro exI [of _ g]) simp
qed simp

lemma grow_balanced:
  "balanced h L \<Longrightarrow> balanced h R \<Longrightarrow> ctx_balanced h zs \<Longrightarrow>
     \<exists>h'. balanced h' (grow_up m q L sep R zs) \<and> h' \<le> Suc (h + length zs)"
proof (induction m q L sep R zs arbitrary: h rule: grow_up.induct)
  case (1 m q L sep R)
  then show ?case by (intro exI [of _ "Suc h"]) simp
next
  case (2 m q L sep R p ls k rs zs)
  define kcs where "kcs = ls @ (k, L) # (sep, R) # rs"
  have sub: "balanced h (snd kc)" if "kc \<in> set kcs" for kc using that 2(2-4) by (auto simp: kcs_def)
  have len: "2 \<le> length kcs" by (simp add: kcs_def)
  show ?case
  proof (cases "length kcs \<le> m")
    case True
    have "balanced (Suc h) (NodeAt p kcs)" "ctx_balanced (Suc h) zs" using sub len 2(4) by auto
    from plug_balanced [OF this] True show ?thesis unfolding grow_up.simps Let_def kcs_def [symmetric]
      by (intro exI [of _ "Suc h + length zs"]) simp
  next
    case False
    have mid: "length kcs div 2 < length kcs" "take (length kcs div 2) kcs \<noteq> []" using len by auto
    have H1: "balanced (Suc h) (NodeAt p (take (length kcs div 2) kcs))" using sub mid by (auto dest: in_set_takeD)
    have H2: "balanced (Suc h) (NodeAt q ((INVALID_KEY, snd (kcs ! (length kcs div 2))) # drop (Suc (length kcs div 2)) kcs))"
      using sub [OF nth_mem [OF mid(1)]] sub by (auto dest: in_set_dropD)
    have H3: "ctx_balanced (Suc h) zs" using 2(4) by simp
    from 2(1) [OF kcs_def refl False H1 H2 H3] False show ?thesis
      unfolding grow_up.simps Let_def kcs_def [symmetric] by simp
  qed
qed

text \<open>The chain of leaves, when a leaf is changed in place and when it is split.\<close>

lemma linked_replace:
  "linked (xs @ (p, n) # ys) \<Longrightarrow> ln_next_page_id n' = ln_next_page_id n \<Longrightarrow> linked (xs @ (p, n') # ys)"
proof (induction xs)
  case Nil
  then show ?case by (cases ys) simp_all
next
  case (Cons x xs)
  then show ?case by (cases xs) simp_all
qed

lemma linked_split:
  "linked (xs @ (p, n) # ys) \<Longrightarrow> ln_next_page_id L = q \<Longrightarrow> ln_next_page_id R = ln_next_page_id n
     \<Longrightarrow> linked (xs @ (p, L) # (q, R) # ys)"
proof (induction xs)
  case Nil
  then show ?case by (cases ys) simp_all
next
  case (Cons x xs)
  then show ?case by (cases xs) simp_all
qed

lemma balanced_height: "balanced h T \<Longrightarrow> height T = h"
proof (induction T arbitrary: h)
  case (NodeAt p kcs)
  then obtain g where g: "h = Suc g" "\<forall>kc \<in> set kcs. balanced g (snd kc)" "kcs \<noteq> []" by auto
  have sub: "height (snd kc) = g" if kc: "kc \<in> set kcs" for kc
    using NodeAt.IH [OF kc, of "snd kc" g] g(2) kc by (cases kc) auto
  have "foldr max (map f xs) 0 = g" if "xs \<noteq> []" "\<forall>x \<in> set xs. f x = g" for f :: "i64 \<times> shape \<Rightarrow> nat" and xs
    using that
  proof (induction xs)
    case (Cons a xs)
    then show ?case by (cases xs) simp_all
  qed simp
  from this [of kcs "\<lambda>kc. height (snd kc)"] sub g show ?case by simp
qed simp

section \<open>What insertion makes of a tree\<close>

text \<open>Trees as insertion keeps them: distinct pages, linked leaves, bounded nodes, all leaves at one depth.\<close>

definition well_formed :: "nat \<Rightarrow> nat \<Rightarrow> shape \<Rightarrow> bool" where
  "well_formed lm im T \<longleftrightarrow> distinct (page_ids T) \<and> linked (leaves T) \<and> sized lm im T \<and> (\<exists>h. balanced h T)"

text \<open>A leaf of the tree and its contexts, on the way to a key.\<close>

definition at_leaf :: "i64 \<Rightarrow> shape \<Rightarrow> page_id \<Rightarrow> leaf_node \<Rightarrow> ctx list \<Rightarrow> bool" where
  "at_leaf key T q m zs \<longleftrightarrow> plug (LeafAt q m) zs = T
     \<and> (\<exists>lo hi. hole lo hi zs \<and> ordered lo hi (LeafAt q m) \<and> lo \<le> key \<and> below key hi)"

text \<open>The tree after inserting \<open>e\<close> at the leaf \<open>(q, m)\<close> in the contexts \<open>zs\<close>, with \<open>f\<close> the next fresh page.\<close>

definition insert_shape :: "nat \<Rightarrow> nat \<Rightarrow> leaf_kv \<Rightarrow> page_id \<Rightarrow> page_id \<Rightarrow> leaf_node \<Rightarrow> ctx list \<Rightarrow> shape" where
  "insert_shape lm im e f q m zs =
     (let es = add_entry e (ln_entries m); mid = length es div 2
      in if length es \<le> lm then plug (LeafAt q (m\<lparr>ln_entries := es\<rparr>)) zs
         else grow_up im (f + 1) (LeafAt q \<lparr>ln_next_page_id = f, ln_entries = take mid es\<rparr>) (fst (es ! mid))
                (LeafAt f \<lparr>ln_next_page_id = ln_next_page_id m, ln_entries = drop mid es\<rparr>) zs)"

definition insert_pages :: "nat \<Rightarrow> nat \<Rightarrow> leaf_node \<Rightarrow> ctx list \<Rightarrow> nat" where
  "insert_pages lm im m zs = (if length (ln_entries m) < lm then 0 else Suc (new_pages im zs))"

lemma add_entry_length [simp]: "length (add_entry e es) = Suc (length es)"
  by (simp add: add_entry_def)

lemma mset_add_entry [simp]: "mset (add_entry e es) = add_mset e (mset es)"
  by (simp add: add_entry_def)

lemma set_add_entry [simp]: "set (add_entry e es) = insert e (set es)"
  by (simp add: add_entry_def)

lemma add_entry_sorted:
  assumes "distinct (map fst es)" and "fst e \<notin> fst ` set es"
  shows "sorted_wrt (<) (map fst (add_entry e es))"
proof -
  have "mset (map fst (add_entry e es)) = mset (fst e # map fst es)" by simp
  then have "distinct (map fst (add_entry e es))" using assms distinct_mset_cong by (metis distinct.simps(2) list.set_map)
  then show ?thesis by (simp add: strict_sorted_iff add_entry_def)
qed

text \<open>Entries with distinct keys have one sorted order.\<close>

lemma sorted_entries_unique:
  fixes xs ys :: "leaf_kv list"
  assumes "sorted_wrt (<) (map fst xs)" and "sorted_wrt (<) (map fst ys)" and "mset xs = mset ys"
  shows "xs = ys"
proof -
  have "set xs = set ys" using assms(3) by (rule mset_eq_setD)
  moreover have "sorted (map fst xs) \<and> distinct (map fst xs)" "sorted (map fst ys) \<and> distinct (map fst ys)"
    using assms(1,2) by (simp_all add: strict_sorted_iff)
  moreover from this have "inj_on fst (set xs \<union> set ys)" using calculation(1) by (simp add: distinct_map)
  ultimately show ?thesis by (intro map_sorted_distinct_set_unique [of fst]) simp_all
qed

lemma fresh_ids_above:
  "unat f + n < 2 ^ 32 \<Longrightarrow> distinct (fresh_ids f n) \<and> (\<forall>p \<in> set (fresh_ids f n). f \<le> p)"
proof (induction n arbitrary: f)
  case (Suc n)
  have un: "unat (f + 1) = unat f + 1" using Suc.prems by (simp add: unat_word_ariths)
  have "unat (f + 1) + n < 2 ^ 32" using Suc.prems un by simp
  note IH = Suc.IH [OF this]
  have lt: "f < p" if "p \<in> set (fresh_ids (f + 1) n)" for p
  proof -
    have "f < f + 1" using un by (simp add: word_less_nat_alt)
    also have "\<dots> \<le> p" using IH that by blast
    finally show ?thesis .
  qed
  with IH show ?case by (fastforce simp: less_imp_le)
qed simp

lemma at_leaf_contents:
  assumes "at_leaf key T q m zs"
  shows "leaves T = leaves_before zs @ (q, m) # leaves_after zs"
  using assms plug_leaves [of "LeafAt q m" zs] by (auto simp: at_leaf_def)

text \<open>The new tree is ordered and well formed, has one entry more, in its place, and is at most one higher;
  its pages are the old ones and fresh ones.\<close>

lemma insert_shape_ok:
  assumes at: "at_leaf key T q m zs" and e: "fst e = key" and new: "key \<notin> fst ` set (contents T)" and wf: "well_formed lm im T"
    and ordT: "ordered INVALID_KEY None T" and lim: "1 \<le> lm" "2 \<le> im"
    and fresh: "\<forall>p \<in> set (page_ids T). p < f" and small: "unat f + insert_pages lm im m zs < 2 ^ 32"
  defines "T' \<equiv> insert_shape lm im e f q m zs"
  shows "ordered INVALID_KEY None T'" and "well_formed lm im T'" and "contents T' = add_entry e (contents T)"
    and "\<forall>p \<in> set (page_ids T'). p \<in> set (page_ids T) \<or> f \<le> p" and "height T' \<le> Suc (height T)"
proof -
  define es where "es = add_entry e (ln_entries m)"
  from at obtain lo hi where T: "plug (LeafAt q m) zs = T" and hl: "hole lo hi zs"
    and ol: "ordered lo hi (LeafAt q m)" and lo: "lo \<le> key" and hi: "below key hi" by (auto simp: at_leaf_def)
  have ls: "leaves T = leaves_before zs @ (q, m) # leaves_after zs" by (rule at_leaf_contents [OF at])
  have newm: "key \<notin> fst ` set (ln_entries m)" using new by (auto simp: contents_def ls)
  have srt: "sorted_wrt (<) (map fst es)"
    unfolding es_def using ol newm e by (intro add_entry_sorted) (simp_all add: strict_sorted_iff)
  have bd: "\<forall>k \<in> fst ` set es. lo \<le> k \<and> below k hi" using ol lo hi e by (auto simp: es_def)
  have oes: "ordered lo hi (LeafAt q \<lparr>ln_next_page_id = x, ln_entries = es\<rparr>)" for x using srt bd by simp
  have len: "length es = Suc (length (ln_entries m))" by (simp add: es_def)
  define mid where "mid = length es div 2"
  let ?L = "LeafAt q \<lparr>ln_next_page_id = f, ln_entries = take mid es\<rparr>"
    and ?R = "LeafAt f \<lparr>ln_next_page_id = ln_next_page_id m, ln_entries = drop mid es\<rparr>"
  let ?m = "m\<lparr>ln_entries := es\<rparr>"
  have m_eq: "?m = \<lparr>ln_next_page_id = ln_next_page_id m, ln_entries = es\<rparr>" by (cases m) simp
  have T'1: "T' = plug (LeafAt q ?m) zs" if "length (ln_entries m) < lm"
    using that len by (simp add: T'_def insert_shape_def Let_def es_def)
  have T'2: "T' = grow_up im (f + 1) ?L (fst (es ! mid)) ?R zs" if "\<not> length (ln_entries m) < lm"
    using that len by (simp add: T'_def insert_shape_def Let_def es_def mid_def)
  have mid: "0 < mid" "mid < length es" if "\<not> length (ln_entries m) < lm" using that lim(1) len by (auto simp: mid_def)
  have wfT: "distinct (page_ids T)" "linked (leaves T)" "sized lm im T" using wf by (simp_all add: well_formed_def)
  obtain h where h: "balanced h T" using wf by (auto simp: well_formed_def)
  from plug_balancedD [of h "LeafAt q m" zs] h T have bz: "ctx_balanced 1 zs" "h = 1 + length zs" by auto
  have ht: "height T = h" by (rule balanced_height [OF h])
  have sz: "ctx_sized lm im zs" "length (ln_entries m) \<le> lm" using wfT(3) T plug_sized [of lm im "LeafAt q m" zs] by simp_all
  have pT: "mset (page_ids T) = add_mset q (mset (ctx_pages zs))" using plug_pages [of "LeafAt q m" zs] T by simp
  show ord: "ordered INVALID_KEY None T'"
  proof (cases "length (ln_entries m) < lm")
    case True
    have "ordered lo hi (LeafAt q ?m)" unfolding m_eq by (rule oes)
    from plug_ordered [OF hl this] T'1 [OF True] show ?thesis by simp
  next
    case False
    note sp = leaf_split [OF oes mid [OF False]]
    from grow_ordered [OF hl sp(1) [where y = f] sp(2) [where q = f] sp(3,4)] T'2 [OF False] show ?thesis by simp
  qed
  have lv: "leaves T' = (if length (ln_entries m) < lm then leaves_before zs @ (q, ?m) # leaves_after zs
      else leaves_before zs @ (q, \<lparr>ln_next_page_id = f, ln_entries = take mid es\<rparr>)
        # (f, \<lparr>ln_next_page_id = ln_next_page_id m, ln_entries = drop mid es\<rparr>) # leaves_after zs)"
    using T'1 T'2 plug_leaves [of "LeafAt q ?m" zs] grow_leaves [of im "f + 1" ?L "fst (es ! mid)" ?R zs] by simp
  have "mset (contents T') = add_mset e (mset (contents T))"
    unfolding contents_def lv ls using mset_append [of "take mid es" "drop mid es"] by (simp add: es_def) 
  then have "mset (contents T') = mset (add_entry e (contents T))" by simp
  moreover have "sorted_wrt (<) (map fst (add_entry e (contents T)))"
    using ordered_sorted(1) [OF ordT] new e by (intro add_entry_sorted) (simp_all add: strict_sorted_iff)
  ultimately show "contents T' = add_entry e (contents T)"
    using ordered_sorted(1) [OF ord] by (intro sorted_entries_unique)
  have pT': "mset (page_ids T') = (if length (ln_entries m) < lm then mset (page_ids T)
      else mset (page_ids T) + mset (fresh_ids f (insert_pages lm im m zs)))"
    using T'1 T'2 plug_pages [of "LeafAt q ?m" zs] grow_pages [of im "f + 1" ?L "fst (es ! mid)" ?R zs] pT
    by (simp add: insert_pages_def)
  note fr = fresh_ids_above [OF small]
  have "set (page_ids T') = set_mset (mset (page_ids T'))" by simp
  then have sub: "set (page_ids T') \<subseteq> set (page_ids T) \<union> set (fresh_ids f (insert_pages lm im m zs))"
    unfolding pT' by (auto split: if_splits)
  with fr show "\<forall>p \<in> set (page_ids T'). p \<in> set (page_ids T) \<or> f \<le> p" by blast
  have "distinct (page_ids T')"
  proof (cases "length (ln_entries m) < lm")
    case True
    with pT' distinct_mset_cong wfT(1) show ?thesis by metis
  next
    case False
    have "distinct (page_ids T @ fresh_ids f (insert_pages lm im m zs))" using wfT(1) fr fresh by fastforce
    moreover have "mset (page_ids T') = mset (page_ids T @ fresh_ids f (insert_pages lm im m zs))" using pT' False by simp
    ultimately show ?thesis using distinct_mset_cong by metis
  qed
  moreover have "linked (leaves T')"
    unfolding lv using wfT(2) unfolding ls by (auto intro: linked_replace linked_split)
  moreover have "sized lm im T'"
  proof (cases "length (ln_entries m) < lm")
    case True
    with sz len T'1 plug_sized [of lm im "LeafAt q ?m" zs] show ?thesis by simp
  next
    case False
    with sz len have "sized lm im ?L" "sized lm im ?R" using lim(1) by (auto simp: mid_def)
    from grow_sized [OF this sz(1) lim(2)] T'2 [OF False] show ?thesis by simp
  qed
  moreover obtain h' where h': "balanced h' T'" "h' \<le> Suc h"
  proof (cases "length (ln_entries m) < lm")
    case True
    have "balanced 1 (LeafAt q ?m)" by simp
    from that [OF _ _] plug_balanced [OF this bz(1)] T'1 [OF True] bz(2) show ?thesis by auto
  next
    case False
    have "balanced 1 ?L" "balanced 1 ?R" by simp_all
    from grow_balanced [OF this bz(1), of im "f + 1" "fst (es ! mid)"] T'2 [OF False] bz(2) that show ?thesis by auto
  qed
  ultimately show "well_formed lm im T'" by (auto simp: well_formed_def)
  show "height T' \<le> Suc (height T)" using balanced_height [OF h'(1)] h'(2) ht by simp
qed

end
