(* ===== verification/BTreeStored.thy ===== *)
theory BTreeStored
  imports BTreeNew BTreeShape
begin

text \<open>
  Trees on pages, a subtree at a time: when the pages hold a tree with a hole, and what of it a change of one
  page leaves alone.
\<close>

section \<open>Stored trees and contexts\<close>

lemma leaf_page_cong: "v' p = v p \<Longrightarrow> leaf_page v' p n = leaf_page v p n"
  by (simp add: leaf_page_def)

lemma internal_page_cong: "v' p = v p \<Longrightarrow> internal_page v' p es = internal_page v p es"
  by (simp add: internal_page_def)

lemma stored_cong: "(\<And>p. p \<in> set (page_ids T) \<Longrightarrow> v' p = v p) \<Longrightarrow> stored v' T = stored v T"
proof (induction T)
  case (LeafAt p n)
  have "leaf_page v' p n = leaf_page v p n" by (intro leaf_page_cong LeafAt.prems) simp
  then show ?case unfolding stored.simps .
next
  case (NodeAt p kcs)
  have sub: "stored v' (snd kc) = stored v (snd kc)" if kc: "kc \<in> set kcs" for kc
  proof (rule NodeAt.IH [OF kc])
    show "snd kc \<in> Basic_BNFs.snds kc" by (cases kc) simp
    show "v' q = v q" if "q \<in> set (page_ids (snd kc))" for q using kc that by (intro NodeAt.prems) auto
  qed
  have "internal_page v' p es = internal_page v p es" for es by (intro internal_page_cong NodeAt.prems) simp
  with sub show ?case unfolding stored.simps by blast
qed

lemma stored_update [simp]: "p \<notin> set (page_ids T) \<Longrightarrow> stored (v(p \<mapsto> b)) T = stored v T"
  by (rule stored_cong) auto

lemma stored_exists: "stored v T \<Longrightarrow> p \<in> set (page_ids T) \<Longrightarrow> v p \<noteq> None"
proof (induction T)
  case (NodeAt q kcs)
  then show ?case by (auto simp: internal_page_def)
qed (auto simp: leaf_page_def)

fun ctx_stored :: "page_view \<Rightarrow> page_id \<Rightarrow> ctx list \<Rightarrow> bool" where
  "ctx_stored v c [] \<longleftrightarrow> True"
| "ctx_stored v c ((p, ls, k, rs) # zs) \<longleftrightarrow> internal_page v p (child_ids ls @ (k, c) # child_ids rs)
     \<and> (\<forall>kc \<in> set ls \<union> set rs. stored v (snd kc)) \<and> ctx_stored v p zs"

lemma child_ids_simps [simp]:
  "child_ids [] = []" "child_ids (kc # kcs) = (fst kc, root_of (snd kc)) # child_ids kcs"
  "child_ids (xs @ ys) = child_ids xs @ child_ids ys" "length (child_ids kcs) = length kcs"
  by (simp_all add: child_ids_def)

lemma child_ids_take: "child_ids (take n kcs) = take n (child_ids kcs)"
  and child_ids_drop: "child_ids (drop n kcs) = drop n (child_ids kcs)"
  by (simp_all add: child_ids_def take_map drop_map)

lemma plug_stored: "stored v (plug c zs) \<longleftrightarrow> stored v c \<and> ctx_stored v (root_of c) zs"
  by (induction c zs rule: plug.induct) auto

lemma ctx_stored_cong: "(\<And>p. p \<in> set (ctx_pages zs) \<Longrightarrow> v' p = v p) \<Longrightarrow> ctx_stored v' c zs = ctx_stored v c zs"
proof (induction zs arbitrary: c)
  case (Cons z zs)
  obtain q ls k rs where z: "z = (q, ls, k, rs)" by (cases z) auto
  have sib: "stored v' (snd kc) = stored v (snd kc)" if kc: "kc \<in> set ls \<union> set rs" for kc
  proof (rule stored_cong)
    show "v' p = v p" if "p \<in> set (page_ids (snd kc))" for p using kc that z by (intro Cons.prems) auto
  qed
  have node: "internal_page v' q es = internal_page v q es" for es
    by (intro internal_page_cong Cons.prems) (simp add: z)
  have "ctx_stored v' q zs = ctx_stored v q zs"
    by (intro Cons.IH Cons.prems) (simp add: z)
  with sib node show ?case unfolding z ctx_stored.simps by blast
qed simp

lemma ctx_stored_update [simp]: "p \<notin> set (ctx_pages zs) \<Longrightarrow> ctx_stored (v(p \<mapsto> b)) c zs = ctx_stored v c zs"
  by (rule ctx_stored_cong) auto

lemma ctx_stored_exists: "ctx_stored v c zs \<Longrightarrow> p \<in> set (ctx_pages zs) \<Longrightarrow> v p \<noteq> None"
proof (induction zs arbitrary: c)
  case (Cons z zs)
  obtain q ls k rs where z: "z = (q, ls, k, rs)" by (cases z) auto
  consider "p = q" | kc where "kc \<in> set ls \<union> set rs" "p \<in> set (page_ids (snd kc))" | "p \<in> set (ctx_pages zs)"
    using Cons.prems(2) z by auto
  then show ?case
  proof cases
    case 1
    with Cons.prems(1) z show ?thesis by (auto simp: internal_page_def)
  next
    case 2
    with Cons.prems(1) z stored_exists [of v "snd kc" p] show ?thesis by auto
  next
    case 3
    with Cons z show ?thesis by auto
  qed
qed simp

lemma fresh_not_stored: "stored v T \<Longrightarrow> v q = None \<Longrightarrow> q \<notin> set (page_ids T)"
  using stored_exists by blast

lemma fresh_not_ctx: "ctx_stored v c zs \<Longrightarrow> v q = None \<Longrightarrow> q \<notin> set (ctx_pages zs)"
  using ctx_stored_exists by blast

lemma root_of_plug: "root_of c = root_of c' \<Longrightarrow> root_of (plug c zs) = root_of (plug c' zs)"
proof (induction c zs arbitrary: c' rule: plug.induct)
  case (2 c p ls k rs zs)
  then show ?case using 2(1) [of "NodeAt p (ls @ (k, c') # rs)"] by simp
qed simp

lemma root_in_pages: "root_of T \<in> set (page_ids T)"
  by (cases T) simp_all

text \<open>The search for the child that was split finds it.\<close>

lemma add_child_ok:
  assumes "p \<notin> snd ` set (child_ids ls)"
  shows "add_child p e (child_ids ls @ (k, p) # es) = Inr (child_ids ls @ (k, p) # e # es)"
proof -
  have "position (\<lambda>x. snd x = p) (xs @ (k, p) # es) = Some (length xs)" if "p \<notin> snd ` set xs" for xs :: "internal_kv list"
    using that by (induction xs) auto
  from this [OF assms] show ?thesis by (simp add: add_child_def vec_insert_def)
qed

lemma child_ids_roots: "p \<notin> set (subpages ls) \<Longrightarrow> p \<notin> snd ` set (child_ids ls)"
  using root_in_pages by (fastforce simp: child_ids_def)

text \<open>The two halves of an internal node's entries.\<close>

lemma child_ids_right:
  assumes "m < length kcs"
  shows "index (drop m (child_ids kcs)) 0 = Inr (fst (kcs ! m), root_of (snd (kcs ! m)))"
    and "index (child_ids kcs) m = Inr (fst (kcs ! m), root_of (snd (kcs ! m)))"
    and "(drop m (child_ids kcs))[0 := (INVALID_KEY, root_of (snd (kcs ! m)))]
      = child_ids ((INVALID_KEY, snd (kcs ! m)) # drop (Suc m) kcs)"
proof -
  have d: "drop m (child_ids kcs) = child_ids kcs ! m # drop (Suc m) (child_ids kcs)"
    using assms by (simp add: Cons_nth_drop_Suc)
  have n: "child_ids kcs ! m = (fst (kcs ! m), root_of (snd (kcs ! m)))" using assms by (simp add: child_ids_def)
  show "index (drop m (child_ids kcs)) 0 = Inr (fst (kcs ! m), root_of (snd (kcs ! m)))"
    "index (child_ids kcs) m = Inr (fst (kcs ! m), root_of (snd (kcs ! m)))"
    using assms d n by (simp_all add: index_def)
  show "(drop m (child_ids kcs))[0 := (INVALID_KEY, root_of (snd (kcs ! m)))]
      = child_ids ((INVALID_KEY, snd (kcs ! m)) # drop (Suc m) kcs)"
    using d by (simp add: child_ids_drop)
qed

lemma internal_write:
  assumes "length bs = PAGE_SIZE" and "length kcs \<le> 681"
  obtains bs' where "internal_encode \<lparr>in_entries = child_ids kcs\<rparr> bs = Inr bs'" and "length bs' = PAGE_SIZE"
    and "\<And>v. v p = Some bs' \<Longrightarrow> internal_page v p (child_ids kcs)"
  using internal_write_ok [of bs "child_ids kcs" p] assms by (metis child_ids_simps(4))

end
