(* ===== verification/PoolGuards.thy ===== *)
theory PoolGuards
  imports PoolClient
begin

text \<open>
  Code that holds several guards at once, as the insertion of the B+ tree does. While every page has a
  frame, each operation on guards is total; these lemmas give its effect on what the pool holds, on
  the guards and borrows alive, and on the page table.
\<close>

section \<open>A pool with live guards\<close>

text \<open>\<open>G\<close> and \<open>L\<close> are the guards and write borrows alive, as in the invariant; \<open>n\<close> bounds the guards that
  may still be taken or dropped before the policy's counter could overflow.\<close>

definition working :: "nat multiset \<Rightarrow> nat set \<Rightarrow> nat \<Rightarrow> bpm \<Rightarrow> bool" where
  "working G L n s \<longleftrightarrow> pool_inv G L s \<and> resident s \<and> unat (curr_size (replacer s)) + n < 2 ^ 32 \<and> size G + n < 2 ^ 32"

definition guard_on :: "page_guard \<Rightarrow> bpm \<Rightarrow> bool" where
  "guard_on g s \<longleftrightarrow> g_valid g \<and> (\<exists>f. map_of (page_table s) (g_page_id g) = Some f \<and> g_frame g = unat f)"

definition grows :: "bpm \<Rightarrow> bpm \<Rightarrow> bool" where
  "grows s s' \<longleftrightarrow> map_of (page_table s) \<subseteq>\<^sub>m map_of (page_table s') \<and> num_frames s' = num_frames s"

lemma grows_refl [simp]: "grows s s"
  by (simp add: grows_def)

lemma grows_trans [trans]: "grows s t \<Longrightarrow> grows t u \<Longrightarrow> grows s u"
  by (auto simp: grows_def intro: map_le_trans)

lemma same_pool_grows: "same_pool s s' \<Longrightarrow> grows s s' \<and> next_page_id s' = next_page_id s"
  by (simp add: same_pool_def grows_def)

lemma grows_entry: "grows s s' \<Longrightarrow> map_of (page_table s) p = Some f \<Longrightarrow> map_of (page_table s') p = Some f"
  by (metis grows_def map_le_def domI)

lemma guard_on_grows: "guard_on g s \<Longrightarrow> grows s s' \<Longrightarrow> guard_on g s'"
  by (auto simp: guard_on_def dest: grows_entry)

lemma working_less: "working G L n s \<Longrightarrow> m \<le> n \<Longrightarrow> working G L m s"
  by (simp add: working_def)

text \<open>Guards of different pages are on different frames.\<close>

lemma guard_on_page:
  assumes "pool_inv G L s" and "guard_on g s" and "map_of (page_table s) p = Some f" and "unat f = g_frame g"
  shows "p = g_page_id g"
proof -
  from assms(2) obtain f' where f': "map_of (page_table s) (g_page_id g) = Some f'" "g_frame g = unat f'" by (auto simp: guard_on_def)
  then have "f' = f" using assms(4) by (metis unsigned_word_eqI)
  with f'(1) pool_inv_table_inj [OF assms(1,3)] show ?thesis by blast
qed

lemma guard_frames_differ:
  assumes "pool_inv G L s" and "guard_on g s" and "guard_on g' s" and "g_page_id g \<noteq> g_page_id g'"
  shows "g_frame g \<noteq> g_frame g'"
  using guard_on_page [OF assms(1,2)] assms(3,4) by (auto simp: guard_on_def)

text \<open>A page whose frame is not borrowed stays so when the table grows, also when it gets its frame then.\<close>

definition unborrowed :: "nat set \<Rightarrow> page_id \<Rightarrow> bpm \<Rightarrow> bool" where
  "unborrowed L p s \<longleftrightarrow> (\<forall>f. map_of (page_table s) p = Some f \<longrightarrow> unat f \<notin> L)"

lemma unborrowed_none [simp]: "unborrowed {} p s"
  by (simp add: unborrowed_def)

lemma unborrowed_grows:
  assumes inv: "pool_inv G L s" and inv': "pool_inv G' L' s'" and gr: "grows s s'" and un: "unborrowed L p s"
  shows "unborrowed L p s'"
  unfolding unborrowed_def
proof (intro allI impI notI)
  fix f assume f: "map_of (page_table s') p = Some f" "unat f \<in> L"
  have "L \<subseteq> unat ` snd ` set (page_table s)" using inv by (auto simp: pool_inv_def guards_ok_def)
  with f(2) obtain q h where qh: "(q, h) \<in> set (page_table s)" "unat f = unat h" by force
  then have "map_of (page_table s) q = Some h" using inv by (simp add: pool_inv_def table_ok_def)
  moreover have "h = f" using qh(2) by (metis unsigned_word_eqI)
  ultimately have q: "map_of (page_table s) q = Some f" by simp
  then have "map_of (page_table s') q = Some f" by (rule grows_entry [OF gr])
  with pool_inv_table_inj [OF inv' f(1)] have "p = q" by blast
  with q un f(2) show False by (simp add: unborrowed_def)
qed

lemma unborrowed_guard:
  assumes "pool_inv G L s" and "guard_on g s" and "p \<noteq> g_page_id g"
  shows "unborrowed {g_frame g} p s"
  using guard_on_page [OF assms(1,2)] assms(3) by (auto simp: unborrowed_def)

section \<open>The operations on guards\<close>

lemma take_guard:
  assumes w: "working G L (Suc n) s" and b: "pool_view s p = Some b"
  obtains g s' where "check_write_page p s = Inr (g, s')" and "working (add_mset (g_frame g) G) L n s'"
    and "guard_on g s'" and "g_page_id g = p" and "pool_view s' = pool_view s" and "grows s s'"
    and "next_page_id s' = next_page_id s"
proof -
  have inv: "pool_inv G L s" and res: "resident s" and small: "size G + 1 < 2 ^ 64" using w by (simp_all add: working_def)
  from check_write_resident [OF inv b small res] obtain f s' where
    C: "check_write_page p s = Inr (\<lparr>g_page_id = p, g_frame = unat f, g_valid = True\<rparr>, s')"
      "pool_inv (add_mset (unat f) G) L s'" "pool_view s' = pool_view s" "map_of (page_table s') p = Some f"
      "map_of (page_table s) \<subseteq>\<^sub>m map_of (page_table s')" "resident s'" "next_page_id s' = next_page_id s"
      "num_frames s' = num_frames s" "unat (curr_size (replacer s')) \<le> unat (curr_size (replacer s))" .
  then show ?thesis using w by (intro that [OF C(1)]) (simp_all add: working_def guard_on_def grows_def)
qed

lemma drop_guard:
  assumes w: "working G L (Suc n) s" and g: "guard_on g s" "g_frame g \<in># G" "g_frame g \<notin> L"
  obtains s' where "write_guard_drop g s = Inr s'" and "working (G - {#g_frame g#}) L n s'"
    and "pool_view s' = pool_view s" and "grows s s'" and "next_page_id s' = next_page_id s"
proof -
  have inv: "pool_inv G L s" and valid: "g_valid g" using w g by (simp_all add: working_def guard_on_def)
  have "unat (curr_size (replacer s)) + 1 < 2 ^ 32" using w by (simp add: working_def)
  then obtain s' where dr: "write_guard_drop g s = Inr s'" using guard_drop_total by blast
  note D = guard_drop_inv [OF inv valid g(2,3) dr]
  have "resident s'" using guard_drop_resident [OF dr D(3)] w by (simp add: working_def)
  moreover have "size (G - {#g_frame g#}) \<le> size G" by (simp add: size_Diff1_le)
  ultimately have "working (G - {#g_frame g#}) L n s'" using w D by (simp add: working_def)
  with that [OF dr] D same_pool_grows [OF D(3)] show ?thesis by blast
qed

lemma working_inv: "working G L n s \<Longrightarrow> pool_inv G L s"
  by (simp add: working_def)

lemma guard_on_same: "guard_on g s \<Longrightarrow> same_pool s s' \<Longrightarrow> guard_on g s'"
  by (simp add: guard_on_def same_pool_def)

text \<open>Taking and ending a write borrow, for any pool.\<close>

lemma borrow_run:
  assumes "pool_inv G L s" and "guard_on g s" and "g_frame g \<notin> L"
  obtains s' where "guard_borrow_mut g s = Inr s'"
proof -
  from assms(2) obtain f where f: "map_of (page_table s) (g_page_id g) = Some f" "g_frame g = unat f" by (auto simp: guard_on_def)
  note entry = pool_inv_entry [OF assms(1) f(1)]
  have "fh_lock (frames s ! unat f) = Unlocked" using assms(1,3) entry(1) f(2) by (simp add: pool_inv_def guards_ok_def)
  with that entry(2) f(2) show ?thesis by (simp add: guard_borrow_mut_def upd_frame_def)
qed

lemma borrow_inv:
  assumes inv: "pool_inv G L s" and g: "guard_on g s" "g_frame g \<in># G" and run: "guard_borrow_mut g s = Inr s'"
  shows "pool_inv G (insert (g_frame g) L) s'" and "pool_view s' = pool_view s" and "same_pool s s'"
    and "replacer s' = replacer s" and "guard_bytes g s' = guard_bytes g s"
proof -
  from g(1) obtain f where f: "map_of (page_table s) (g_page_id g) = Some f" "g_frame g = unat f" by (auto simp: guard_on_def)
  note entry = pool_inv_entry [OF inv f(1)]
  let ?i = "unat f" and ?fr = "frames s ! unat f"
  have s': "s' = s\<lparr>frames := (frames s)[?i := ?fr\<lparr>is_dirty := True, fh_lock := Writer\<rparr>]\<rparr>"
    using run entry(2) f(2) by (auto simp: guard_borrow_mut_def upd_frame_def lock_write_def seq_Inr_iff split: rwlock.splits)
  have data: "fh_data (frames s' ! i) = fh_data (frames s ! i)" "fh_id (frames s' ! i) = fh_id (frames s ! i)"
    "fh_lock (frames s' ! i) = (if i = ?i then Writer else fh_lock (frames s ! i))"
    "pin_count (frames s' ! i) = pin_count (frames s ! i)" "is_dirty (frames s' ! i) = (i = ?i \<or> is_dirty (frames s ! i))" for i
    using entry(2) by (cases "i = ?i"; simp add: s')+
  have rest: "page_table s' = page_table s" "free_frames s' = free_frames s" "next_page_id s' = next_page_id s"
    "num_frames s' = num_frames s" "scheduler s' = scheduler s" "replacer s' = replacer s" "length (frames s') = length (frames s)"
    by (simp_all add: s')
  have "frames_ok s'" "table_ok s'" "replacer_ok s'" "guards_ok G (insert ?i L) s'"
    using inv g(2) f(2) by (simp_all add: pool_inv_def frames_ok_def table_ok_def replacer_ok_def guards_ok_def rest data del: set_append)
  moreover have "disk_side_ok s'" using inv unfolding pool_inv_def disk_side_ok_def rest by (auto simp: data)
  ultimately show "pool_inv G (insert (g_frame g) L) s'" by (simp add: pool_inv_def f(2))
  show "pool_view s' = pool_view s" by (simp add: pool_view_def rest data fun_eq_iff split: option.split)
  show "same_pool s s'" "replacer s' = replacer s" "guard_bytes g s' = guard_bytes g s"
    by (simp_all add: same_pool_def rest guard_bytes_def data)
qed

lemma set_bytes_inv:
  assumes inv: "pool_inv G L s" and g: "guard_on g s" "g_frame g \<in> L" and len: "length bs = PAGE_SIZE"
  shows "pool_inv G L (guard_set_bytes g bs s)" and "pool_view (guard_set_bytes g bs s) = (pool_view s)(g_page_id g \<mapsto> bs)"
    and "same_pool s (guard_set_bytes g bs s)" and "replacer (guard_set_bytes g bs s) = replacer s"
proof -
  from g(1) obtain f where f: "map_of (page_table s) (g_page_id g) = Some f" "g_frame g = unat f" by (auto simp: guard_on_def)
  note entry = pool_inv_entry [OF inv f(1)]
  have "is_dirty (frames s ! unat f)" using inv entry(1) g(2) f(2) by (simp add: pool_inv_def guards_ok_def)
  then have "(frames s ! unat f)\<lparr>is_dirty := True, fh_data := bs\<rparr> = (frames s ! unat f)\<lparr>fh_data := bs\<rparr>"
    by (cases "frames s ! unat f") simp
  then have "guard_set_bytes g bs s = upd_frame (unat f) (\<lambda>fr. fr\<lparr>is_dirty := True, fh_data := bs\<rparr>) s"
    by (simp add: guard_set_bytes_def upd_frame_def f(2))
  from write_bytes_inv [OF inv f(1) len this] show "pool_inv G L (guard_set_bytes g bs s)"
    "pool_view (guard_set_bytes g bs s) = (pool_view s)(g_page_id g \<mapsto> bs)"
    "same_pool s (guard_set_bytes g bs s)" "replacer (guard_set_bytes g bs s) = replacer s" by simp_all
qed

lemma release_inv:
  assumes inv: "pool_inv G L s" and g: "guard_on g s"
  defines "s' \<equiv> guard_release_mut g s"
  shows "pool_inv G (L - {g_frame g}) s'" and "pool_view s' = pool_view s" and "same_pool s s'" and "replacer s' = replacer s"
proof -
  from g obtain f where f: "map_of (page_table s) (g_page_id g) = Some f" "g_frame g = unat f" by (auto simp: guard_on_def)
  note entry = pool_inv_entry [OF inv f(1)]
  let ?i = "unat f"
  have frs: "frames s' = (frames s)[?i := (frames s ! ?i)\<lparr>fh_lock := Unlocked\<rparr>]"
    by (simp add: s'_def guard_release_mut_def unlock_write_def f(2))
  have data: "fh_data (frames s' ! i) = fh_data (frames s ! i)" "fh_id (frames s' ! i) = fh_id (frames s ! i)"
    "fh_lock (frames s' ! i) = (if i = ?i then Unlocked else fh_lock (frames s ! i))"
    "pin_count (frames s' ! i) = pin_count (frames s ! i)" "is_dirty (frames s' ! i) = is_dirty (frames s ! i)" for i
    using entry(2) by (cases "i = ?i"; simp add: frs)+
  have rest: "page_table s' = page_table s" "free_frames s' = free_frames s" "next_page_id s' = next_page_id s"
    "num_frames s' = num_frames s" "scheduler s' = scheduler s" "replacer s' = replacer s" "length (frames s') = length (frames s)"
    by (simp_all add: s'_def guard_release_mut_def upd_frame_def)
  have "frames_ok s'" "table_ok s'" "replacer_ok s'" "disk_side_ok s'"
    using inv by (simp_all add: pool_inv_def frames_ok_def table_ok_def replacer_ok_def disk_side_ok_def rest data del: set_append)
  moreover have "guards_ok G (L - {?i}) s'" using inv by (auto simp: pool_inv_def guards_ok_def rest data)
  ultimately have "pool_inv G (L - {?i}) s'" by (simp add: pool_inv_def)
  then show "pool_inv G (L - {g_frame g}) s'" by (simp add: f(2))
  show "pool_view s' = pool_view s" by (simp add: pool_view_def rest data fun_eq_iff split: option.split)
  show "same_pool s s'" "replacer s' = replacer s" by (simp_all add: same_pool_def rest)
qed

lemma borrow_guard:
  assumes w: "working G L n s" and g: "guard_on g s" "g_frame g \<in># G" "g_frame g \<notin> L" and b: "pool_view s (g_page_id g) = Some b"
  obtains s' where "guard_borrow_mut g s = Inr s'" and "working G (insert (g_frame g) L) n s'" and "guard_bytes g s' = b"
    and "pool_view s' = pool_view s" and "grows s s'" and "next_page_id s' = next_page_id s"
proof -
  have inv: "pool_inv G L s" using w by (simp add: working_def)
  from g(1) obtain f where f: "map_of (page_table s) (g_page_id g) = Some f" "g_frame g = unat f" by (auto simp: guard_on_def)
  obtain s' where run: "guard_borrow_mut g s = Inr s'" by (rule borrow_run [OF inv g(1,3)])
  note B = borrow_inv [OF inv g(1,2) run]
  have "working G (insert (g_frame g) L) n s'" using w B by (simp add: working_def resident_def same_pool_def)
  moreover have "guard_bytes g s' = b" using guard_view [OF inv f(1)] b f(2) B(5) by (simp add: guard_bytes_def)
  ultimately show ?thesis using that [OF run] B(2) same_pool_grows [OF B(3)] by blast
qed

text \<open>Blocks on a live guard, and blocks that take their own.\<close>

lemma write_guard_block:
  assumes w: "working G L n s" and g: "guard_on g s" "g_frame g \<notin> L" and b: "pool_view s (g_page_id g) = Some b"
    and k: "k b = Inr (x, bs)" and len: "length bs = PAGE_SIZE"
  obtains s' where "with_data_mut g k s = Inr (x, s')" and "working G L n s'"
    and "pool_view s' = (pool_view s)(g_page_id g \<mapsto> bs)" and "grows s s'" and "next_page_id s' = next_page_id s"
proof -
  from g(1) obtain f where f: "map_of (page_table s) (g_page_id g) = Some f" "g_frame g = unat f" by (auto simp: guard_on_def)
  have inv: "pool_inv G L s" using w by (simp add: working_def)
  from with_data_mut_guard [where k = k, OF inv f(1) _ f(2) b k len] g(2) f(2) obtain s' where
    W: "with_data_mut g k s = Inr (x, s')" "pool_inv G L s'" "pool_view s' = (pool_view s)(g_page_id g \<mapsto> bs)"
      "same_pool s s'" "replacer s' = replacer s" by auto
  have "working G L n s'" using w W by (simp add: working_def resident_def same_pool_def)
  with that [OF W(1)] W(3) same_pool_grows [OF W(4)] show ?thesis by blast
qed

lemma write_block:
  assumes w: "working G L (Suc (Suc n)) s" and b: "pool_view s p = Some b" and k: "k b = Inr (x, bs)"
    and len: "length bs = PAGE_SIZE" and un: "unborrowed L p s"
  obtains s' where "with_write_page p k s = Inr (x, s')" and "working G L n s'"
    and "pool_view s' = (pool_view s)(p \<mapsto> bs)" and "grows s s'" and "next_page_id s' = next_page_id s"
proof -
  obtain g s1 where T: "check_write_page p s = Inr (g, s1)" "working (add_mset (g_frame g) G) L (Suc n) s1" "guard_on g s1"
    "g_page_id g = p" "pool_view s1 = pool_view s" "grows s s1" "next_page_id s1 = next_page_id s" by (rule take_guard [OF w b])
  have inv: "pool_inv G L s" "pool_inv (add_mset (g_frame g) G) L s1" using w T(2) by (simp_all add: working_def)
  have free: "g_frame g \<notin> L" using unborrowed_grows [OF inv T(6) un] T(3,4) by (auto simp: unborrowed_def guard_on_def)
  have b1: "pool_view s1 (g_page_id g) = Some b" using T(4,5) b by simp
  obtain s2 where W: "with_data_mut g k s1 = Inr (x, s2)" "working (add_mset (g_frame g) G) L (Suc n) s2"
    "pool_view s2 = (pool_view s1)(g_page_id g \<mapsto> bs)" "grows s1 s2" "next_page_id s2 = next_page_id s1"
    by (rule write_guard_block [where k = k, OF T(2,3) free b1 k len])
  obtain s' where D: "write_guard_drop g s2 = Inr s'" "working (add_mset (g_frame g) G - {#g_frame g#}) L n s'"
    "pool_view s' = pool_view s2" "grows s2 s'" "next_page_id s' = next_page_id s2"
    by (rule drop_guard [OF W(2) guard_on_grows [OF T(3) W(4)] _ free]) simp
  show ?thesis
  proof (rule that)
    show "with_write_page p k s = Inr (x, s')" using T(1) W(1) D(1) by (simp add: with_write_page_def)
    show "working G L n s'" using D(2) by simp
    show "pool_view s' = (pool_view s)(p \<mapsto> bs)" using D(3) W(3) T(4,5) by simp
    show "grows s s'" by (rule grows_trans [OF T(6) grows_trans [OF W(4) D(4)]])
    show "next_page_id s' = next_page_id s" using D(5) W(5) T(7) by simp
  qed
qed

lemma fresh_page:
  assumes w: "working G L n s" and spare: "unat (next_page_id s) + 1 \<le> num_frames s"
  obtains s' where "new_page s = Inr (next_page_id s, s')" and "working G L n s'"
    and "pool_view s' = (pool_view s)(next_page_id s \<mapsto> replicate PAGE_SIZE 0)" and "pool_view s (next_page_id s) = None"
    and "grows s s'" and "unat (next_page_id s') = unat (next_page_id s) + 1" and "next_page_id s' = next_page_id s + 1"
proof -
  have inv: "pool_inv G L s" using w by (simp add: working_def)
  then have "num_frames s < 2 ^ 30" by (auto simp: pool_inv_def replacer_ok_def arc_inv_def)
  with spare have small: "unat (next_page_id s) + 1 < 2 ^ 32" by simp
  from new_page_inv [OF inv small] obtain s' where N: "new_page s = Inr (next_page_id s, s')" "pool_inv G L s'"
    "pool_view s' = (pool_view s)(next_page_id s \<mapsto> replicate PAGE_SIZE 0)" "pool_view s (next_page_id s) = None"
    "next_page_id s' = next_page_id s + 1" "page_table s' = page_table s" "num_frames s' = num_frames s" "replacer s' = replacer s"
    by blast
  have un: "unat (next_page_id s') = unat (next_page_id s) + 1" using N(5) small by (simp add: unat_word_ariths)
  have "working G L n s'" using w N un spare by (simp add: working_def resident_def)
  with that [OF N(1)] N un show ?thesis by (simp add: grows_def)
qed

text \<open>A new pool starts with no guards and plenty of room.\<close>

lemma working_new_pool:
  assumes "disk_ok d" and "disk_view d = Map.empty" and "n < 2 ^ 30"
  shows "working {#} {} (2 ^ 31) (bpm_new n d)" and "pool_view (bpm_new n d) = Map.empty"
proof -
  have "resident (bpm_new n d)" "unat (curr_size (replacer (bpm_new n d))) = 0" by (simp_all add: resident_def bpm_new_def arc_new_def)
  then show "working {#} {} (2 ^ 31) (bpm_new n d)" using bpm_new_idle [OF assms] by (simp add: working_def)
  show "pool_view (bpm_new n d) = Map.empty" using bpm_new_idle [OF assms] by simp
qed

lemma guard_new_access:
  assumes "pool_inv G L s" and "map_of (page_table s) p = Some f" and "write_guard_new p (unat f) s = Inr (g, s')"
  shows "record_access f p (replacer s) = Inr (replacer s')"
  using assms(3) pool_inv_entry(2,6) [OF assms(1,2)] by (auto simp: write_guard_new_def seq_Inr_iff pin_def)

end
