(* ===== verification/PoolRequests.thy ===== *)
theory PoolRequests
  imports PoolGuards
begin

text \<open>
  What a client of the pool needs of it, as an interface: the client makes a sequence of requests for pages, with
  guards it drops, and the pool carries the sequence. Two pools do: one in which every page has a frame, and one in
  which the policy, run on the sequence alone, never takes a pinned frame nor overflows its counters.
\<close>

section \<open>Requests\<close>

text \<open>A guard taken on a page, a guard on it dropped, a new page.\<close>

datatype request = Take page_id | Drop page_id | Alloc

text \<open>The pages of the guards alive keep their frames.\<close>

definition stays :: "nat multiset \<Rightarrow> bpm \<Rightarrow> bpm \<Rightarrow> bool" where
  "stays G s s' \<longleftrightarrow> keeps_pinned G s s' \<and> num_frames s' = num_frames s"

lemma stays_frames: "stays G s s' \<Longrightarrow> num_frames s' = num_frames s"
  by (simp add: stays_def)

lemma stays_trans [trans]: "stays G s t \<Longrightarrow> stays G t u \<Longrightarrow> stays G s u"
  by (simp add: stays_def keeps_pinned_def)

lemma same_table_stays: "page_table s' = page_table s \<Longrightarrow> num_frames s' = num_frames s \<Longrightarrow> stays G s s'"
  by (simp add: stays_def keeps_pinned_def)

lemma same_pool_stays: "same_pool s s' \<Longrightarrow> stays G s s'"
  by (rule same_table_stays) (simp_all add: same_pool_def)

lemma same_pool_next: "same_pool s s' \<Longrightarrow> next_page_id s' = next_page_id s"
  by (simp add: same_pool_def)

lemma guard_on_stays: "guard_on g s \<Longrightarrow> g_frame g \<in># G \<Longrightarrow> stays G s s' \<Longrightarrow> guard_on g s'"
  by (auto simp: guard_on_def stays_def keeps_pinned_def)

lemma unborrowed_stays:
  assumes inv: "pool_inv G L s" and inv': "pool_inv G' L' s'" and st: "stays G s s'" and un: "unborrowed L p s"
  shows "unborrowed L p s'"
  unfolding unborrowed_def
proof (intro allI impI notI)
  fix f assume f: "map_of (page_table s') p = Some f" "unat f \<in> L"
  have "L \<subseteq> unat ` snd ` set (page_table s)" and LG: "L \<subseteq> set_mset G" using inv by (auto simp: pool_inv_def guards_ok_def)
  with f(2) obtain q h where qh: "(q, h) \<in> set (page_table s)" "unat f = unat h" by force
  then have "map_of (page_table s) q = Some h" using inv by (simp add: pool_inv_def table_ok_def)
  moreover have "h = f" using qh(2) by (metis unsigned_word_eqI)
  ultimately have q: "map_of (page_table s) q = Some f" by simp
  then have "map_of (page_table s') q = Some f" using st f(2) LG by (auto simp: stays_def keeps_pinned_def)
  with pool_inv_table_inj [OF inv' f(1)] have "p = q" by blast
  with q un f(2) show False by (simp add: unborrowed_def)
qed

section \<open>The interface\<close>

text \<open>\<open>carries G L es s\<close>: in \<open>s\<close>, with the guards \<open>G\<close> and the borrows \<open>L\<close> alive, the pool can serve the requests \<open>es\<close>.\<close>

locale request_pool =
  fixes carries :: "nat multiset \<Rightarrow> nat set \<Rightarrow> request list \<Rightarrow> bpm \<Rightarrow> bool"
  assumes carries_inv: "carries G L es s \<Longrightarrow> pool_inv G L s"
    and carries_quiet: "carries G L es s \<Longrightarrow> pool_inv G L' s' \<Longrightarrow> same_pool s s' \<Longrightarrow> replacer s' = replacer s \<Longrightarrow> carries G L' es s'"
    and carries_take: "carries G L (Take p # es) s \<Longrightarrow> pool_view s p = Some b \<Longrightarrow> \<exists>g s'. check_write_page p s = Inr (g, s')
      \<and> carries (add_mset (g_frame g) G) L es s' \<and> guard_on g s' \<and> g_page_id g = p \<and> pool_view s' = pool_view s
      \<and> stays G s s' \<and> next_page_id s' = next_page_id s"
    and carries_drop: "carries G L (Drop (g_page_id g) # es) s \<Longrightarrow> guard_on g s \<Longrightarrow> g_frame g \<in># G \<Longrightarrow> g_frame g \<notin> L \<Longrightarrow>
      \<exists>s'. write_guard_drop g s = Inr s' \<and> carries (G - {#g_frame g#}) L es s' \<and> pool_view s' = pool_view s \<and> same_pool s s'"
    and carries_alloc: "carries G L (Alloc # es) s \<Longrightarrow> unat (next_page_id s) + 1 < 2 ^ 32 \<Longrightarrow>
      \<exists>s'. new_page s = Inr (next_page_id s, s') \<and> carries G L es s' \<and> pool_view s (next_page_id s) = None
        \<and> pool_view s' = (pool_view s)(next_page_id s \<mapsto> replicate PAGE_SIZE 0) \<and> page_table s' = page_table s
        \<and> num_frames s' = num_frames s \<and> next_page_id s' = next_page_id s + 1"
begin

lemma serve_take:
  assumes "carries G L (Take p # es) s" and "pool_view s p = Some b"
  obtains g s' where "check_write_page p s = Inr (g, s')" and "carries (add_mset (g_frame g) G) L es s'"
    and "guard_on g s'" and "g_page_id g = p" and "pool_view s' = pool_view s" and "stays G s s'"
    and "next_page_id s' = next_page_id s"
  using carries_take [OF assms] that by blast

lemma serve_drop:
  assumes "carries G L (Drop p # es) s" and "p = g_page_id g" and "guard_on g s" and "g_frame g \<in># G" and "g_frame g \<notin> L"
  obtains s' where "write_guard_drop g s = Inr s'" and "carries (G - {#g_frame g#}) L es s'"
    and "pool_view s' = pool_view s" and "same_pool s s'"
  using carries_drop [of G L g es s] assms that by blast

lemma serve_alloc:
  assumes "carries G L (Alloc # es) s" and "unat (next_page_id s) + 1 < 2 ^ 32"
  obtains s' where "new_page s = Inr (next_page_id s, s')" and "carries G L es s'"
    and "pool_view s' = (pool_view s)(next_page_id s \<mapsto> replicate PAGE_SIZE 0)" and "pool_view s (next_page_id s) = None"
    and "page_table s' = page_table s" and "num_frames s' = num_frames s" and "next_page_id s' = next_page_id s + 1"
    and "unat (next_page_id s') = unat (next_page_id s) + 1"
  using carries_alloc [OF assms] that assms(2) by (fastforce simp: unat_word_ariths)

lemma serve_borrow:
  assumes w: "carries G L es s" and g: "guard_on g s" "g_frame g \<in># G" "g_frame g \<notin> L" and b: "pool_view s (g_page_id g) = Some b"
  obtains s' where "guard_borrow_mut g s = Inr s'" and "carries G (insert (g_frame g) L) es s'" and "guard_bytes g s' = b"
    and "pool_view s' = pool_view s" and "same_pool s s'"
proof -
  note inv = carries_inv [OF w]
  from g(1) obtain f where f: "map_of (page_table s) (g_page_id g) = Some f" "g_frame g = unat f" by (auto simp: guard_on_def)
  obtain s' where run: "guard_borrow_mut g s = Inr s'" by (rule borrow_run [OF inv g(1,3)])
  note B = borrow_inv [OF inv g(1,2) run]
  have "guard_bytes g s' = b" using guard_view [OF inv f(1)] b f(2) B(5) by (simp add: guard_bytes_def)
  with that [OF run carries_quiet [OF w B(1,3,4)]] B(2,3) show ?thesis by simp
qed

lemma serve_set:
  assumes w: "carries G L es s" and g: "guard_on g s" "g_frame g \<in> L" and len: "length bs = PAGE_SIZE"
  defines "s' \<equiv> guard_set_bytes g bs s"
  shows "carries G L es s'" and "pool_view s' = (pool_view s)(g_page_id g \<mapsto> bs)" and "same_pool s s'"
proof -
  note W = set_bytes_inv [OF carries_inv [OF w] g len, folded s'_def]
  show "carries G L es s'" by (rule carries_quiet [OF w W(1,3,4)])
qed (rule set_bytes_inv [OF carries_inv [OF w] g len, folded s'_def])+

lemma serve_release:
  assumes w: "carries G L es s" and g: "guard_on g s"
  defines "s' \<equiv> guard_release_mut g s"
  shows "carries G (L - {g_frame g}) es s'" and "pool_view s' = pool_view s" and "same_pool s s'"
proof -
  note W = release_inv [OF carries_inv [OF w] g, folded s'_def]
  show "carries G (L - {g_frame g}) es s'" by (rule carries_quiet [OF w W(1,3,4)])
qed (rule release_inv [OF carries_inv [OF w] g, folded s'_def])+

text \<open>Blocks on a live guard, and blocks that take their own.\<close>

lemma serve_read_on:
  assumes w: "carries G L es s" and g: "guard_on g s" "g_frame g \<notin> L" and b: "pool_view s (g_page_id g) = Some b" and k: "k b = Inr x"
  shows "with_data g k s = Inr (x, s)"
proof -
  from g(1) obtain f where f: "map_of (page_table s) (g_page_id g) = Some f" "g_frame g = unat f" by (auto simp: guard_on_def)
  with with_data_guard [of G L s "g_page_id g" f g b k] carries_inv [OF w] g(2) b k show ?thesis by simp
qed

lemma serve_write_on:
  assumes w: "carries G L es s" and g: "guard_on g s" "g_frame g \<notin> L" and b: "pool_view s (g_page_id g) = Some b"
    and k: "k b = Inr (x, bs)" and len: "length bs = PAGE_SIZE"
  obtains s' where "with_data_mut g k s = Inr (x, s')" and "carries G L es s'"
    and "pool_view s' = (pool_view s)(g_page_id g \<mapsto> bs)" and "same_pool s s'"
proof -
  from g(1) obtain f where f: "map_of (page_table s) (g_page_id g) = Some f" "g_frame g = unat f" by (auto simp: guard_on_def)
  from with_data_mut_guard [where k = k, OF carries_inv [OF w] f(1) _ f(2) b k len] g(2) f(2) obtain s' where
    W: "with_data_mut g k s = Inr (x, s')" "pool_inv G L s'" "pool_view s' = (pool_view s)(g_page_id g \<mapsto> bs)"
      "same_pool s s'" "replacer s' = replacer s" by auto
  with that [OF W(1) carries_quiet [OF w W(2,4,5)]] show ?thesis by blast
qed

lemma serve_write_panics:
  assumes "carries G L es s" and "guard_on g s" and "g_frame g \<in># G" and "g_frame g \<notin> L" and "pool_view s (g_page_id g) = Some b"
    and "k b = Inl e"
  shows "with_data_mut g k s = Inl e"
proof -
  obtain s1 where "guard_borrow_mut g s = Inr s1" "guard_bytes g s1 = b" by (rule serve_borrow [OF assms(1-5)])
  with assms(6) show ?thesis by (simp add: with_data_mut_def)
qed

lemma serve_read:
  assumes w: "carries G L (Take p # Drop p # es) s" and b: "pool_view s p = Some b" and k: "k b = Inr x" and un: "unborrowed L p s"
  obtains s' where "with_read_page p k s = Inr (x, s')" and "carries G L es s'"
    and "pool_view s' = pool_view s" and "stays G s s'" and "next_page_id s' = next_page_id s"
proof -
  obtain g s1 where T: "check_write_page p s = Inr (g, s1)" "carries (add_mset (g_frame g) G) L (Drop p # es) s1" "guard_on g s1"
    "g_page_id g = p" "pool_view s1 = pool_view s" "stays G s s1" "next_page_id s1 = next_page_id s" by (rule serve_take [OF w b])
  have free: "g_frame g \<notin> L" using unborrowed_stays [OF carries_inv [OF w] carries_inv [OF T(2)] T(6) un] T(3,4) by (auto simp: unborrowed_def guard_on_def)
  have wd: "with_data g k s1 = Inr (x, s1)" using serve_read_on [where k = k, OF T(2,3) free] T(4,5) b k by simp
  obtain s' where D: "write_guard_drop g s1 = Inr s'" "carries (add_mset (g_frame g) G - {#g_frame g#}) L es s'"
    "pool_view s' = pool_view s1" "same_pool s1 s'" by (rule serve_drop [OF T(2) T(4) [symmetric] T(3) _ free]) simp
  show ?thesis
    by (rule that [of s'])
      (use T wd D stays_trans [OF T(6) same_pool_stays [OF D(4)]] in
        \<open>simp_all add: with_read_page_def check_read_page_eq read_guard_as_write same_pool_def\<close>)
qed

lemma serve_write:
  assumes w: "carries G L (Take p # Drop p # es) s" and b: "pool_view s p = Some b" and k: "k b = Inr (x, bs)"
    and len: "length bs = PAGE_SIZE" and un: "unborrowed L p s"
  obtains s' where "with_write_page p k s = Inr (x, s')" and "carries G L es s'"
    and "pool_view s' = (pool_view s)(p \<mapsto> bs)" and "stays G s s'" and "next_page_id s' = next_page_id s"
proof -
  obtain g s1 where T: "check_write_page p s = Inr (g, s1)" "carries (add_mset (g_frame g) G) L (Drop p # es) s1" "guard_on g s1"
    "g_page_id g = p" "pool_view s1 = pool_view s" "stays G s s1" "next_page_id s1 = next_page_id s" by (rule serve_take [OF w b])
  have free: "g_frame g \<notin> L" using unborrowed_stays [OF carries_inv [OF w] carries_inv [OF T(2)] T(6) un] T(3,4) by (auto simp: unborrowed_def guard_on_def)
  have b1: "pool_view s1 (g_page_id g) = Some b" using T(4,5) b by simp
  obtain s2 where W: "with_data_mut g k s1 = Inr (x, s2)" "carries (add_mset (g_frame g) G) L (Drop p # es) s2"
    "pool_view s2 = (pool_view s1)(g_page_id g \<mapsto> bs)" "same_pool s1 s2"
    by (rule serve_write_on [where k = k, OF T(2,3) free b1 k len])
  obtain s' where D: "write_guard_drop g s2 = Inr s'" "carries (add_mset (g_frame g) G - {#g_frame g#}) L es s'"
    "pool_view s' = pool_view s2" "same_pool s2 s'"
    by (rule serve_drop [OF W(2) T(4) [symmetric] guard_on_same [OF T(3) W(4)] _ free]) simp
  note same = same_pool_trans [OF W(4) D(4)]
  show ?thesis
    by (rule that [of s'])
      (use T W(1,3) D stays_trans [OF T(6) same_pool_stays [OF same]] same in \<open>simp_all add: with_write_page_def same_pool_def\<close>)
qed

text \<open>The end of a scope that holds a write borrow: the borrow goes, then the guard; the same with a last write.\<close>

lemma serve_end:
  assumes w: "carries G L (Drop p # es) s" and p: "p = g_page_id g" and g: "guard_on g s" "g_frame g \<in># G"
  obtains s' where "write_guard_drop g (guard_release_mut g s) = Inr s'" and "carries (G - {#g_frame g#}) (L - {g_frame g}) es s'"
    and "pool_view s' = pool_view s" and "same_pool s s'"
proof -
  note R = serve_release [OF w g(1)]
  obtain s' where "write_guard_drop g (guard_release_mut g s) = Inr s'" "carries (G - {#g_frame g#}) (L - {g_frame g}) es s'"
    "pool_view s' = pool_view (guard_release_mut g s)" "same_pool (guard_release_mut g s) s'"
    by (rule serve_drop [OF R(1) p guard_on_same [OF g(1) R(3)] g(2)]) simp
  with that [of s'] R(2) same_pool_trans [OF R(3)] show ?thesis by simp
qed

lemma serve_write_end:
  assumes w: "carries G L (Drop p # es) s" and p: "p = g_page_id g" and g: "guard_on g s" "g_frame g \<in># G" "g_frame g \<in> L"
    and len: "length bs = PAGE_SIZE"
  obtains s' where "write_guard_drop g (guard_release_mut g (guard_set_bytes g bs s)) = Inr s'"
    and "carries (G - {#g_frame g#}) (L - {g_frame g}) es s'" and "pool_view s' = (pool_view s)(p \<mapsto> bs)" and "same_pool s s'"
proof -
  note S = serve_set [OF w g(1,3) len]
  obtain s' where "write_guard_drop g (guard_release_mut g (guard_set_bytes g bs s)) = Inr s'"
    "carries (G - {#g_frame g#}) (L - {g_frame g}) es s'" "pool_view s' = pool_view (guard_set_bytes g bs s)"
    "same_pool (guard_set_bytes g bs s) s'"
    by (rule serve_end [OF S(1) p guard_on_same [OF g(1) S(3)] g(2)])
  with that [of s'] S(2) p same_pool_trans [OF S(3)] show ?thesis by simp
qed

lemma serve_bytes:
  assumes "carries G L es s" and "guard_on g s"
  shows "pool_view s (g_page_id g) = Some (guard_bytes g s)"
  using carries_inv [OF assms(1)] assms(2) guard_view by (fastforce simp: guard_on_def guard_bytes_def)

lemma serve_length: "carries G L es s \<Longrightarrow> pool_view s p = Some b \<Longrightarrow> length b = PAGE_SIZE"
  using pool_view_length carries_inv by blast

lemma serve_valid: "carries G L es s \<Longrightarrow> pool_view s p = Some b \<Longrightarrow> p \<noteq> INVALID_PAGE_ID"
proof -
  assume w: "carries G L es s" and "pool_view s p = Some b"
  then have "p < next_page_id s" using pool_view_dom [OF carries_inv [OF w]] by (auto simp: dom_def)
  then show ?thesis by (auto simp: INVALID_PAGE_ID_def)
qed

end

section \<open>While every page has a frame\<close>

text \<open>Every guard is dropped once: the steps left are bounded by the guards alive and those still to be taken.\<close>

fun takes :: "request list \<Rightarrow> nat" where
  "takes [] = 0"
| "takes (Take p # es) = Suc (takes es)"
| "takes (_ # es) = takes es"

lemma takes_append [simp]: "takes (es @ es') = takes es + takes es'"
  by (induction es rule: takes.induct) simp_all

definition has_frames :: "nat multiset \<Rightarrow> nat set \<Rightarrow> request list \<Rightarrow> bpm \<Rightarrow> bool" where
  "has_frames G L es s \<longleftrightarrow> working G L (2 * takes es + size G) s \<and> unat (next_page_id s) + count_list es Alloc \<le> num_frames s"

lemma grows_stays: "grows s s' \<Longrightarrow> stays G s s'"
  by (simp add: stays_def keeps_pinned_def grows_entry) (simp add: grows_def)

interpretation resident: request_pool has_frames
proof unfold_locales
  fix G L es s assume "has_frames G L es s"
  then show "pool_inv G L s" by (simp add: has_frames_def working_def)
next
  fix G L es s L' s'
  assume "has_frames G L es s" "pool_inv G L' s'" "same_pool s s'" "replacer s' = replacer s"
  then show "has_frames G L' es s'" by (simp add: has_frames_def working_def resident_def same_pool_def)
next
  fix G L p es s b
  assume "has_frames G L (Take p # es) s" and b: "pool_view s p = Some b"
  then have w: "working G L (Suc (Suc (2 * takes es + size G))) s" and n: "unat (next_page_id s) + count_list es Alloc \<le> num_frames s"
    by (simp_all add: has_frames_def)
  obtain g s' where T: "check_write_page p s = Inr (g, s')" "working (add_mset (g_frame g) G) L (Suc (2 * takes es + size G)) s'" "guard_on g s'"
    "g_page_id g = p" "pool_view s' = pool_view s" "grows s s'" "next_page_id s' = next_page_id s" by (rule take_guard [OF w b])
  with n show "\<exists>g s'. check_write_page p s = Inr (g, s') \<and> has_frames (add_mset (g_frame g) G) L es s' \<and> guard_on g s' \<and> g_page_id g = p
      \<and> pool_view s' = pool_view s \<and> stays G s s' \<and> next_page_id s' = next_page_id s"
    using grows_stays [OF T(6)] by (auto simp: has_frames_def grows_def)
next
  fix G L g es s
  assume "has_frames G L (Drop (g_page_id g) # es) s" and g: "guard_on g s" "g_frame g \<in># G" "g_frame g \<notin> L"
  then have w: "working G L (Suc (2 * takes es + size (G - {#g_frame g#}))) s" and n: "unat (next_page_id s) + count_list es Alloc \<le> num_frames s"
    using size_Suc_Diff1 [OF g(2)] by (simp_all add: has_frames_def flip: add_Suc_right)
  obtain s' where D: "write_guard_drop g s = Inr s'" "working (G - {#g_frame g#}) L (2 * takes es + size (G - {#g_frame g#})) s'" "pool_view s' = pool_view s"
    by (rule drop_guard [OF w g])
  have "g_valid g" using g(1) by (simp add: guard_on_def)
  from guard_drop_inv(3) [OF working_inv [OF w] this g(2,3) D(1)] D n
  show "\<exists>s'. write_guard_drop g s = Inr s' \<and> has_frames (G - {#g_frame g#}) L es s' \<and> pool_view s' = pool_view s \<and> same_pool s s'"
    by (auto simp: has_frames_def same_pool_def)
next
  fix G L es s
  assume "has_frames G L (Alloc # es) s" and small: "unat (next_page_id s) + 1 < 2 ^ 32"
  then have w: "working G L (2 * takes es + size G) s" and n: "unat (next_page_id s) + 1 + count_list es Alloc \<le> num_frames s"
    by (auto simp: has_frames_def intro: working_less)
  have spare: "unat (next_page_id s) + 1 \<le> num_frames s" using n by simp
  obtain s' where N: "new_page s = Inr (next_page_id s, s')" "working G L (2 * takes es + size G) s'" "unat (next_page_id s') = unat (next_page_id s) + 1"
    by (rule fresh_page [OF w spare])
  from new_page_inv [OF working_inv [OF w] small] N n
  show "\<exists>s'. new_page s = Inr (next_page_id s, s') \<and> has_frames G L es s' \<and> pool_view s (next_page_id s) = None
      \<and> pool_view s' = (pool_view s)(next_page_id s \<mapsto> replicate PAGE_SIZE 0) \<and> page_table s' = page_table s
      \<and> num_frames s' = num_frames s \<and> next_page_id s' = next_page_id s + 1"
    by (auto simp: has_frames_def)
qed

section \<open>While the policy spares the pinned frames\<close>

text \<open>What the policy and the tables of the pool do with a sequence of requests, whatever the bytes are: the policy's
  lists, the page table, and the free list.\<close>

type_synonym policy = "arc_replacer \<times> (page_id \<times> frame_id) list \<times> frame_id list"

definition policy_of :: "bpm \<Rightarrow> policy" where
  "policy_of s = (replacer s, page_table s, free_frames s)"

lemma policy_of_simps [simp]:
  "fst (policy_of s) = replacer s" "fst (snd (policy_of s)) = page_table s" "snd (snd (policy_of s)) = free_frames s"
  by (simp_all add: policy_of_def)

text \<open>A free frame, if there is one, else the victim's, unless it is pinned.\<close>

definition make_room :: "nat multiset \<Rightarrow> policy \<Rightarrow> policy option" where
  "make_room G \<pi> = (case \<pi> of (r, t, fs) \<Rightarrow>
     if fs \<noteq> [] then Some (r, t, fs)
     else case evict r of
         Inr (Some f, r') \<Rightarrow>
           if unat f \<in># G then None
           else map_option (\<lambda>e. (r', AList.delete (fst e) t, [f])) (find (\<lambda>e. snd e = f) t)
       | _ \<Rightarrow> None)"

definition policy_take :: "page_id \<Rightarrow> nat multiset \<Rightarrow> policy \<Rightarrow> (frame_id \<times> policy) option" where
  "policy_take p G \<pi> = (case map_of (fst (snd \<pi>)) p of
       Some f \<Rightarrow> (case record_access f p (fst \<pi>) of Inr r \<Rightarrow> Some (f, r, snd \<pi>) | Inl _ \<Rightarrow> None)
     | None \<Rightarrow> (case make_room G \<pi> of
           Some (r, t, fs) \<Rightarrow> (case record_access (last fs) p r of
               Inr r' \<Rightarrow> Some (last fs, r', t @ [(p, last fs)], butlast fs)
             | Inl _ \<Rightarrow> None)
         | None \<Rightarrow> None))"

text \<open>The sequence goes through: no counter overflows, and no pinned frame is taken.\<close>

fun survives :: "nat multiset \<Rightarrow> request list \<Rightarrow> policy \<Rightarrow> bool" where
  "survives G [] \<pi> \<longleftrightarrow> True"
| "survives G (Alloc # es) \<pi> = survives G es \<pi>"
| "survives G (Take p # es) \<pi> = (case policy_take p G \<pi> of None \<Rightarrow> False | Some (f, \<pi>') \<Rightarrow> survives (add_mset (unat f) G) es \<pi>')"
| "survives G (Drop p # es) \<pi> = (case map_of (fst (snd \<pi>)) p of
       None \<Rightarrow> False
     | Some f \<Rightarrow>
         let G' = G - {#unat f#}
         in if unat f \<in># G' then survives G' es \<pi>
            else case set_evictable f (fst \<pi>) of Inl _ \<Rightarrow> False | Inr r \<Rightarrow> survives G' es (r, snd \<pi>))"

definition spared :: "nat multiset \<Rightarrow> nat set \<Rightarrow> request list \<Rightarrow> bpm \<Rightarrow> bool" where
  "spared G L es s \<longleftrightarrow> pool_inv G L s \<and> survives G es (policy_of s) \<and> size G + length es < 2 ^ 64"

text \<open>Loading a page into a free frame, when the policy takes the access.\<close>

lemma fetch_free_run:
  assumes inv: "pool_inv G L s" and free: "free_frames s = fs @ [f]" and miss: "map_of (page_table s) p = None"
    and b: "pool_view s p = Some b" and acc: "record_access f p (replacer s) = Inr r"
  obtains g s' where "seq (load_page p f (s\<lparr>free_frames := fs\<rparr>)) (write_guard_new p (unat f)) = Inr (g, s')"
proof -
  note ff = free_frame_facts [OF inv free]
  from load_page_run [OF inv free miss b] obtain sch where
    "load_page p f (s\<lparr>free_frames := fs\<rparr>) = Inr (s\<lparr>free_frames := fs, scheduler := sch,
       frames := (frames s)[unat f := (frames s ! unat f)\<lparr>fh_data := b\<rparr>], page_table := page_table s @ [(p, f)]\<rparr>)" by blast
  then show ?thesis using acc ff(5,8) that by (auto simp: write_guard_new_def pin_def)
qed

text \<open>One request: the pool does what the policy does.\<close>

lemma policy_take_hit:
  assumes inv: "pool_inv G L s" and b: "pool_view s p = Some b" and small: "size G + 1 < 2 ^ 64"
    and e: "map_of (page_table s) p = Some f" and take: "policy_take p G (policy_of s) = Some (f', \<pi>)"
  obtains g s' where "check_write_page p s = Inr (g, s')" and "policy_of s' = \<pi>" and "g_frame g = unat f'"
proof -
  obtain g s' where new: "write_guard_new p (unat f) s = Inr (g, s')" using guard_new_total [OF inv e] by blast
  note N = guard_new_inv [OF inv e small new]
  have "check_write_page p s = Inr (g, s')" using new e pool_inv_entry(2) [OF inv e] by (simp add: check_write_page_def)
  moreover have "policy_of s' = \<pi>" "f' = f"
    using take e guard_new_access [OF inv e new] N(3) by (simp_all add: policy_take_def policy_of_def same_pool_def)
  ultimately show ?thesis using that N(4) by simp
qed

lemma policy_take_free:
  assumes inv: "pool_inv G L s" and b: "pool_view s p = Some b" and small: "size G + 1 < 2 ^ 64"
    and miss: "map_of (page_table s) p = None" and free: "free_frames s = fs @ [f]" and acc: "record_access f p (replacer s) = Inr r"
  obtains g s' where "seq (load_page p f (s\<lparr>free_frames := fs\<rparr>)) (write_guard_new p (unat f)) = Inr (g, s')"
    and "policy_of s' = (r, page_table s @ [(p, f)], fs)" and "g_frame g = unat f"
proof -
  obtain g s' where run: "seq (load_page p f (s\<lparr>free_frames := fs\<rparr>)) (write_guard_new p (unat f)) = Inr (g, s')"
    by (rule fetch_free_run [OF inv free miss b acc])
  note F = fetch_free_inv [OF inv free miss b small run]
  then show ?thesis using that [OF run] acc by (simp add: policy_of_def)
qed

lemma policy_take_run:
  assumes inv: "pool_inv G L s" and b: "pool_view s p = Some b" and small: "size G + 1 < 2 ^ 64"
    and take: "policy_take p G (policy_of s) = Some (f, \<pi>)"
  obtains g s' where "check_write_page p s = Inr (g, s')" and "policy_of s' = \<pi>" and "g_frame g = unat f" and "can_fetch G p s"
proof (cases "map_of (page_table s) p")
  case (Some f0)
  have "can_fetch G p s" using Some by (simp add: can_fetch_def)
  then show ?thesis
    by - (rule policy_take_hit [OF inv b small Some take], rule that)
next
  case miss: None
  obtain r t fs where room: "make_room G (policy_of s) = Some (r, t, fs)"
    using take miss by (cases "make_room G (policy_of s)") (auto simp: policy_take_def)
  then obtain r' where acc: "record_access (last fs) p r = Inr r'"
    using take miss by (cases "record_access (last fs) p r") (simp_all add: policy_take_def)
  then have f: "f = last fs" and \<pi>: "\<pi> = (r', t @ [(p, last fs)], butlast fs)"
    using take miss room by (auto simp: policy_take_def)
  show ?thesis
  proof (cases "free_frames s" rule: rev_cases)
    case (snoc gs h)
    then have "r = replacer s" "t = page_table s" "fs = gs @ [h]" using room by (simp_all add: make_room_def policy_of_def)
    with acc f \<pi> have eqs: "f = h" "\<pi> = (r', page_table s @ [(p, h)], gs)" "record_access h p (replacer s) = Inr r'" by simp_all
    from policy_take_free [OF inv b small miss snoc eqs(3)] obtain g s' where
      R: "seq (load_page p h (s\<lparr>free_frames := gs\<rparr>)) (write_guard_new p (unat h)) = Inr (g, s')" "policy_of s' = \<pi>" "g_frame g = unat f"
      unfolding eqs(1,2) .
    have "check_write_page p s = Inr (g, s')" using R(1) miss snoc by (simp add: check_write_page_def pop_free_snoc)
    with R(2,3) that snoc show ?thesis by (simp add: can_fetch_def)
  next
    case Nil
    with room obtain h r1 e where ev: "evict (replacer s) = Inr (Some h, r1)" "unat h \<notin># G" "find (\<lambda>e. snd e = h) (page_table s) = Some e"
      and eqs: "r = r1" "t = AList.delete (fst e) (page_table s)" "fs = [h]"
      by (auto simp: make_room_def policy_of_def split: option.splits sum.splits prod.splits if_splits)
    from evict_is_favoured [OF ev(1)] obtain v where v: "favoured_victim (replacer s) = Some v" "h = fst v"
      by (cases "favoured_victim (replacer s)") auto
    have un: "unat (fst v) \<notin># G" using ev(2) v(2) by simp
    from evict_frame_inv [OF inv v(1) un] obtain q f' r2 s1 where E: "f' = fst v" "evict (replacer s) = Inr (Some f', r2)" "replacer s1 = r2"
      "evict_frame s = Inr s1" "pool_inv G L s1" "pool_view s1 = pool_view s" "free_frames s1 = free_frames s @ [f']"
      "map_of (page_table s) q = Some f'" "page_table s1 = AList.delete q (page_table s)"
      by (rule evict_frame_inv [OF inv v(1) un]) (rule that)
    have h: "f' = h" "r2 = r1" using E(1,2) v(2) ev(1) by simp_all
    have "distinct (map snd (page_table s))" using inv by (simp add: pool_inv_def table_ok_def)
    from find_frame [OF this map_of_SomeD [OF E(8)]] ev(3) h have q: "q = fst e" by simp
    have st: "free_frames s1 = [] @ [h]" "map_of (page_table s1) p = None" "pool_view s1 p = Some b" "record_access h p (replacer s1) = Inr r'"
      using E(3,6,7,9) Nil h miss b acc eqs by simp_all
    from policy_take_free [OF E(5) st(3) small st(2,1,4)] obtain g s' where
      R: "seq (load_page p h (s1\<lparr>free_frames := []\<rparr>)) (write_guard_new p (unat h)) = Inr (g, s')"
        "policy_of s' = (r', page_table s1 @ [(p, h)], [])" "g_frame g = unat h" .
    have "check_write_page p s = Inr (g, s')" using R(1) miss Nil E(4) pop_free_snoc [OF st(1)] by (simp add: check_write_page_def)
    moreover have "can_fetch G p s" using v(1) un by (simp add: can_fetch_def)
    ultimately show ?thesis using that R(2,3) \<pi> f eqs(2,3) q E(9) by simp
  qed
qed

lemma policy_drop_run:
  assumes inv: "pool_inv G L s" and g: "guard_on g s" "g_frame g \<in># G" "g_frame g \<notin> L"
    and surv: "survives G (Drop (g_page_id g) # es) (policy_of s)"
  obtains s' where "write_guard_drop g s = Inr s'" and "survives (G - {#g_frame g#}) es (policy_of s')"
proof -
  from g(1) obtain f where f: "map_of (page_table s) (g_page_id g) = Some f" "g_frame g = unat f" and valid: "g_valid g"
    by (auto simp: guard_on_def)
  note entry = pool_inv_entry [OF inv f(1)]
  let ?s1 = "upd_frame (unat f) unpin s"
  have pin: "unat (pin_count (frames s ! unat f)) = count G (unat f)" using inv entry(1) by (simp add: pool_inv_def guards_ok_def)
  have "unat (pin_count (unpin (frames s ! unat f))) = count (G - {#unat f#}) (unat f)"
    using pin g(2) f(2) by (simp add: unat_unpin)
  then have zero: "pin_count (unpin (frames s ! unat f)) = 0 \<longleftrightarrow> unat f \<notin># G - {#unat f#}"
    unfolding not_in_iff by (metis unat_eq_zero)
  have fid: "fh_id (unpin (frames s ! unat f)) = f" using entry(6) by (simp add: unpin_def)
  have run: "write_guard_drop g s = (if unat f \<in># G - {#unat f#} then Inr ?s1
      else seq (set_evictable f (replacer s)) (\<lambda>r. Inr (?s1\<lparr>replacer := r\<rparr>)))"
    using valid entry(2) zero fid f(2) by (simp add: write_guard_drop_def Let_def)
  have same: "policy_of ?s1 = policy_of s" "\<And>r. policy_of (?s1\<lparr>replacer := r\<rparr>) = (r, snd (policy_of s))"
    by (simp_all add: policy_of_def upd_frame_def)
  show ?thesis
  proof (cases "unat f \<in># G - {#unat f#}")
    case True
    with run surv f that [of ?s1] same(1) show ?thesis by (simp add: Let_def)
  next
    case False
    with surv f obtain r where "set_evictable f (replacer s) = Inr r" "survives (G - {#unat f#}) es (r, snd (policy_of s))"
      by (auto simp: Let_def split: sum.splits)
    with False run f(2) that [of "?s1\<lparr>replacer := r\<rparr>"] same(2) show ?thesis by simp
  qed
qed

interpretation spared: request_pool spared
proof unfold_locales
  fix G L es s assume "spared G L es s"
  then show "pool_inv G L s" by (simp add: spared_def)
next
  fix G L es s L' s'
  assume "spared G L es s" "pool_inv G L' s'" "same_pool s s'" "replacer s' = replacer s"
  then show "spared G L' es s'" by (simp add: spared_def policy_of_def same_pool_def)
next
  fix G L p es s b
  assume sp: "spared G L (Take p # es) s" and b: "pool_view s p = Some b"
  then have inv: "pool_inv G L s" and small: "size G + 1 < 2 ^ 64" by (simp_all add: spared_def)
  from sp obtain f \<pi> where take: "policy_take p G (policy_of s) = Some (f, \<pi>)" and surv: "survives (add_mset (unat f) G) es \<pi>"
    by (auto simp: spared_def split: option.splits)
  obtain g s' where R: "check_write_page p s = Inr (g, s')" "policy_of s' = \<pi>" "g_frame g = unat f" "can_fetch G p s"
    by (rule policy_take_run [OF inv b small take])
  from check_write_inv [OF inv b small R(4,1)] obtain f' where
    C: "pool_inv (add_mset (unat f') G) L s'" "pool_view s' = pool_view s" "g = \<lparr>g_page_id = p, g_frame = unat f', g_valid = True\<rparr>"
      "map_of (page_table s') p = Some f'" "keeps_pinned G s s'" "next_page_id s' = next_page_id s" "num_frames s' = num_frames s" by blast
  have "spared (add_mset (g_frame g) G) L es s'" using C(1,3) R(2,3) surv sp by (simp add: spared_def)
  then show "\<exists>g s'. check_write_page p s = Inr (g, s') \<and> spared (add_mset (g_frame g) G) L es s' \<and> guard_on g s' \<and> g_page_id g = p
      \<and> pool_view s' = pool_view s \<and> stays G s s' \<and> next_page_id s' = next_page_id s"
    using R(1) C by (intro exI [of _ g] exI [of _ s']) (simp add: guard_on_def stays_def)
next
  fix G L g es s
  assume sp: "spared G L (Drop (g_page_id g) # es) s" and g: "guard_on g s" "g_frame g \<in># G" "g_frame g \<notin> L"
  then have inv: "pool_inv G L s" and surv: "survives G (Drop (g_page_id g) # es) (policy_of s)" by (simp_all add: spared_def)
  obtain s' where D: "write_guard_drop g s = Inr s'" "survives (G - {#g_frame g#}) es (policy_of s')"
    by (rule policy_drop_run [OF inv g surv])
  have "g_valid g" using g(1) by (simp add: guard_on_def)
  note I = guard_drop_inv [OF inv this g(2,3) D(1)]
  have "size (G - {#g_frame g#}) \<le> size G" by (simp add: size_Diff1_le)
  then have "spared (G - {#g_frame g#}) L es s'" using I(1) D(2) sp by (simp add: spared_def)
  then show "\<exists>s'. write_guard_drop g s = Inr s' \<and> spared (G - {#g_frame g#}) L es s' \<and> pool_view s' = pool_view s \<and> same_pool s s'"
    using D(1) I(2,3) by blast
next
  fix G L es s
  assume sp: "spared G L (Alloc # es) s" and small: "unat (next_page_id s) + 1 < 2 ^ 32"
  then have inv: "pool_inv G L s" by (simp add: spared_def)
  from new_page_inv [OF inv small] obtain s' where N: "new_page s = Inr (next_page_id s, s')" "pool_inv G L s'"
    "pool_view s' = (pool_view s)(next_page_id s \<mapsto> replicate PAGE_SIZE 0)" "pool_view s (next_page_id s) = None"
    "next_page_id s' = next_page_id s + 1" "page_table s' = page_table s" "num_frames s' = num_frames s" "replacer s' = replacer s" by blast
  have "free_frames s' = free_frames s" using N(1) by (auto simp: new_page_def Let_def seq_Inr_iff)
  then have "spared G L es s'" using sp N by (simp add: spared_def policy_of_def)
  with N show "\<exists>s'. new_page s = Inr (next_page_id s, s') \<and> spared G L es s' \<and> pool_view s (next_page_id s) = None
      \<and> pool_view s' = (pool_view s)(next_page_id s \<mapsto> replicate PAGE_SIZE 0) \<and> page_table s' = page_table s
      \<and> num_frames s' = num_frames s \<and> next_page_id s' = next_page_id s + 1" by blast
qed

end
