(* ===== verification/BTreeClimb.thy ===== *)
theory BTreeClimb
  imports BTreeStored PoolRequests
begin

text \<open>
  The way up of an insertion: the loop that takes the separator to the parents that are still guarded, and splits the
  full ones. It is shown for any pool that carries the requests of the climb, which the contexts of the leaf give.
\<close>

section \<open>The requests of a climb\<close>

text \<open>A node on the path, and whether it has room for one more entry.\<close>

type_synonym mark = "page_id \<times> bool"

definition marks :: "nat \<Rightarrow> ctx list \<Rightarrow> mark list" where
  "marks im zs = map (\<lambda>(p, ls, k, rs). (p, length ls + length rs + 2 \<le> im)) zs"

lemma marks_simps [simp]:
  "marks im [] = []" "marks im ((p, ls, k, rs) # zs) = (p, length ls + length rs + 2 \<le> im) # marks im zs"
  by (simp_all add: marks_def)

text \<open>\<open>header\<close> is the header page, \<open>q\<close> the next page id; the path is given from the leaf's parent on.\<close>

fun climb :: "page_id \<Rightarrow> page_id \<Rightarrow> mark list \<Rightarrow> request list" where
  "climb header q [] = [Alloc, Take q, Drop q, Take header, Drop header]"
| "climb header q ((p, spare) # ms) =
     (if spare then [Drop p] else Alloc # Take q # Drop q # Drop p # climb header (q + 1) ms)"

section \<open>The stack of guards\<close>

abbreviation guards_of :: "path_frame list \<Rightarrow> nat multiset" where
  "guards_of stack \<equiv> mset (map (\<lambda>fr. g_frame (pf_guard fr)) stack)"

definition guards_live :: "path_frame list \<Rightarrow> bpm \<Rightarrow> bool" where
  "guards_live stack s \<longleftrightarrow> (\<forall>fr \<in> set stack. guard_on (pf_guard fr) s)"

lemma guards_live_simps [simp]:
  "guards_live [] s" "guards_live (fr # stack) s \<longleftrightarrow> guard_on (pf_guard fr) s \<and> guards_live stack s"
  by (simp_all add: guards_live_def)

abbreviation pages_of :: "path_frame list \<Rightarrow> page_id list" where
  "pages_of stack \<equiv> map (\<lambda>fr. g_page_id (pf_guard fr)) stack"

lemma guards_live_stays:
  assumes "guards_live stack s" and "stays (guards_of stack + G) s s'"
  shows "guards_live stack s'"
  unfolding guards_live_def
proof
  fix fr assume fr: "fr \<in> set stack"
  then have "g_frame (pf_guard fr) \<in># guards_of stack + G" by simp
  moreover have "guard_on (pf_guard fr) s" using assms(1) fr by (simp add: guards_live_def)
  ultimately show "guard_on (pf_guard fr) s'" using guard_on_stays assms(2) by blast
qed

lemma guards_live_same: "guards_live stack s \<Longrightarrow> same_pool s s' \<Longrightarrow> guards_live stack s'"
  unfolding guards_live_def using guard_on_same by blast

text \<open>The frames on the stack are those of the innermost contexts; it ends at the root, or at a node with
  room for one more entry.\<close>

fun covers :: "nat \<Rightarrow> path_frame list \<Rightarrow> ctx list \<Rightarrow> bool" where
  "covers m [] zs \<longleftrightarrow> zs = []"
| "covers m (fr # stack) [] \<longleftrightarrow> False"
| "covers m (fr # stack) ((p, ls, k, rs) # zs) \<longleftrightarrow>
     g_page_id (pf_guard fr) = p \<and> (if length ls + length rs + 2 \<le> m then stack = [] else covers m stack zs)"

text \<open>What the loop is given: the split halves, the contexts of the node that was split, and a header page
  that still names the old root.\<close>

definition rising :: "page_id \<Rightarrow> page_id \<Rightarrow> nat \<Rightarrow> path_frame list \<Rightarrow> shape \<Rightarrow> shape \<Rightarrow> ctx list \<Rightarrow> bpm \<Rightarrow> bool" where
  "rising header root im stack L R zs s \<longleftrightarrow>
     guards_live stack s \<and> covers im stack zs
     \<and> stored (pool_view s) L \<and> stored (pool_view s) R \<and> ctx_stored (pool_view s) (root_of L) zs
     \<and> distinct (header # page_ids L @ page_ids R @ ctx_pages zs)
     \<and> (\<exists>hb. pool_view s header = Some hb \<and> get_root_page_id hb = Inr root) \<and> root = root_of (plug L zs)
     \<and> unat (next_page_id s) + new_pages im zs < 2 ^ 32"

text \<open>What it leaves: the grown tree, its root in the header page, guards it did not need.\<close>

definition risen :: "page_id \<Rightarrow> shape \<Rightarrow> page_id \<Rightarrow> bpm \<Rightarrow> bool" where
  "risen header T root s \<longleftrightarrow> stored (pool_view s) T \<and> root = root_of T
     \<and> (\<exists>hb. pool_view s header = Some hb \<and> get_root_page_id hb = Inr root)"
context request_pool
begin

lemma drop_frames_ok:
  assumes "carries (guards_of stack + G) L (map Drop (rev (pages_of stack)) @ es) s" and "guards_live stack s"
    and "\<forall>fr \<in> set stack. g_frame (pf_guard fr) \<notin> L"
  obtains s' where "drop_frames stack s = Inr s'" and "carries G L es s'" and "pool_view s' = pool_view s" and "same_pool s s'"
  using assms
proof (induction stack arbitrary: G es thesis)
  case Nil
  then show ?case by (intro Nil.prems(1) [of s]) simp_all
next
  case (Cons fr stack)
  let ?g = "pf_guard fr"
  have w: "carries (guards_of stack + add_mset (g_frame ?g) G) L (map Drop (rev (pages_of stack)) @ Drop (g_page_id ?g) # es) s"
    using Cons.prems(2) by simp
  obtain s1 where D: "drop_frames stack s = Inr s1" "carries (add_mset (g_frame ?g) G) L (Drop (g_page_id ?g) # es) s1"
    "pool_view s1 = pool_view s" "same_pool s s1"
    by (rule Cons.IH [OF _ w]) (use Cons.prems(3,4) in simp_all)
  have on: "guard_on ?g s1" using Cons.prems(3) guard_on_same [OF _ D(4)] by simp
  obtain s2 where E: "write_guard_drop ?g s1 = Inr s2" "carries (add_mset (g_frame ?g) G - {#g_frame ?g#}) L es s2"
    "pool_view s2 = pool_view s1" "same_pool s1 s2"
    by (rule serve_drop [OF D(2) refl on]) (use Cons.prems(4) in simp_all)
  show ?case
    by (rule Cons.prems(1) [of s2]) (use D(1,3) E same_pool_trans [OF D(4) E(4)] in simp_all)
qed

lemma propagate_root:
  assumes w: "carries {#} {} (climb header (next_page_id s) [] @ es) s" and r: "rising header root im [] L R [] s"
  shows "\<exists>root' s'. propagate header im root [] (sep, root_of R) (root_of L) s = Inr ([], root', s')
    \<and> carries {#} {} es s' \<and> risen header (grow_up im (next_page_id s) L sep R []) root' s'
    \<and> unat (next_page_id s') = unat (next_page_id s) + 1 \<and> num_frames s' = num_frames s"
proof -
  let ?q = "next_page_id s" and ?kcs = "[(INVALID_KEY, L), (sep, R)]"
  from r obtain hb where hb: "pool_view s header = Some hb" and st: "stored (pool_view s) L" "stored (pool_view s) R"
    and dis: "header \<notin> set (page_ids L)" "header \<notin> set (page_ids R)" and spare: "unat ?q + 1 < 2 ^ 32"
    by (auto simp: rising_def)
  have w0: "carries {#} {} (Alloc # Take ?q # Drop ?q # Take header # Drop header # es) s" using w by simp
  obtain s1 where N: "new_page s = Inr (?q, s1)" "carries {#} {} (Take ?q # Drop ?q # Take header # Drop header # es) s1"
    "pool_view s1 = (pool_view s)(?q \<mapsto> replicate PAGE_SIZE 0)" "pool_view s ?q = None" "page_table s1 = page_table s"
    "num_frames s1 = num_frames s" "next_page_id s1 = ?q + 1" "unat (next_page_id s1) = unat ?q + 1" by (rule serve_alloc [OF w0 spare])
  have q: "?q \<noteq> header" "?q \<notin> set (page_ids L)" "?q \<notin> set (page_ids R)"
    using N(4) hb fresh_not_stored [OF st(1)] fresh_not_stored [OF st(2)] by auto
  obtain nb where nb: "internal_encode \<lparr>in_entries = child_ids ?kcs\<rparr> (replicate PAGE_SIZE 0) = Inr nb" "length nb = PAGE_SIZE"
    "\<And>v. v ?q = Some nb \<Longrightarrow> internal_page v ?q (child_ids ?kcs)"
    by (rule internal_write [of "replicate PAGE_SIZE 0" ?kcs ?q]) simp_all
  have ow: "overwrite (internal_encode \<lparr>in_entries = [(INVALID_KEY, root_of L), (sep, root_of R)]\<rparr>) (replicate PAGE_SIZE 0) = Inr ((), nb)"
    using nb(1) by (simp add: overwrite_def)
  have b1: "pool_view s1 ?q = Some (replicate PAGE_SIZE 0)" using N(3) by simp
  obtain s2 where A: "with_write_page ?q (overwrite (internal_encode \<lparr>in_entries = [(INVALID_KEY, root_of L), (sep, root_of R)]\<rparr>)) s1 = Inr ((), s2)"
    "carries {#} {} (Take header # Drop header # es) s2" "pool_view s2 = (pool_view s1)(?q \<mapsto> nb)" "stays {#} s1 s2" "next_page_id s2 = next_page_id s1"
    by (rule serve_write [where k = "overwrite (internal_encode \<lparr>in_entries = [(INVALID_KEY, root_of L), (sep, root_of R)]\<rparr>)", OF N(2) b1 ow nb(2) unborrowed_none])
  obtain hb' where hb': "overwrite (set_root_page_id ?q) hb = Inr ((), hb')" "length hb' = PAGE_SIZE" "get_root_page_id hb' = Inr ?q"
    by (rule set_root_ok [OF serve_length [OF w hb]])
  have b2: "pool_view s2 header = Some hb" using A(3) N(3) hb q(1) by simp
  obtain s3 where B: "with_write_page header (overwrite (set_root_page_id ?q)) s2 = Inr ((), s3)"
    "carries {#} {} es s3" "pool_view s3 = (pool_view s2)(header \<mapsto> hb')" "stays {#} s2 s3" "next_page_id s3 = next_page_id s2"
    by (rule serve_write [where k = "overwrite (set_root_page_id ?q)", OF A(2) b2 hb'(1,2) unborrowed_none])
  have run: "propagate header im root [] (sep, root_of R) (root_of L) s = Inr ([], ?q, s3)"
    using N(1) A(1) B(1) by simp
  have view: "pool_view s3 = (pool_view s)(?q \<mapsto> replicate PAGE_SIZE 0, ?q \<mapsto> nb, header \<mapsto> hb')" using N(3) A(3) B(3) by simp
  have "stored (pool_view s3) L" "stored (pool_view s3) R" unfolding view using st q dis by simp_all
  moreover have "internal_page (pool_view s3) ?q (child_ids ?kcs)" using q(1) by (intro nb(3)) (simp add: view)
  ultimately have "stored (pool_view s3) (NodeAt ?q ?kcs)" by simp
  then have "risen header (grow_up im ?q L sep R []) ?q s3" using hb'(3) by (simp add: risen_def view)
  with run B(2,5) A(5) N(6,8) stays_frames [OF A(4)] stays_frames [OF B(4)] show ?thesis by simp
qed

text \<open>One guarded parent: the separator goes in, and the bytes are written if the node is not too large.\<close>

lemma propagate_parent:
  fixes sep :: i64
  assumes w: "carries (guards_of (fr # stack)) {} es s" and r: "rising header root im (fr # stack) L R ((p, ls, k, rs) # zs) s"
  defines "g \<equiv> pf_guard fr" and "kcs \<equiv> ls @ (k, L) # (sep, R) # rs"
  obtains s1 where "guard_borrow_mut g s = Inr s1" and "carries (guards_of (fr # stack)) {g_frame g} es s1"
    and "pool_view s1 = pool_view s" and "same_pool s s1" and "guard_on g s1"
    and "internal_decode (guard_bytes g s1) = Inr \<lparr>in_entries = child_ids ls @ (k, root_of L) # child_ids rs\<rparr>"
    and "add_child (root_of L) (sep, root_of R) (child_ids ls @ (k, root_of L) # child_ids rs) = Inr (child_ids kcs)"
proof -
  have on: "guard_on g s" and pg: "g_page_id g = p" using r by (simp_all add: rising_def g_def)
  from r obtain b where b: "pool_view s p = Some b" "internal_decode b = Inr \<lparr>in_entries = child_ids ls @ (k, root_of L) # child_ids rs\<rparr>"
    by (auto simp: rising_def internal_page_def)
  have "root_of L \<notin> set (subpages ls)" using r root_in_pages [of L] by (auto simp: rising_def)
  then have ac: "add_child (root_of L) (sep, root_of R) (child_ids ls @ (k, root_of L) # child_ids rs) = Inr (child_ids kcs)"
    using add_child_ok [OF child_ids_roots] by (simp add: kcs_def)
  have live: "g_frame g \<in># guards_of (fr # stack)" "g_frame g \<notin> {}" by (simp_all add: g_def)
  have bg: "pool_view s (g_page_id g) = Some b" using b(1) pg by simp
  obtain s1 where B: "guard_borrow_mut g s = Inr s1" "carries (guards_of (fr # stack)) (insert (g_frame g) {}) es s1" "guard_bytes g s1 = b"
    "pool_view s1 = pool_view s" "same_pool s s1"
    by (rule serve_borrow [OF w on live bg])
  show ?thesis using that [OF B(1)] B b(2) ac guard_on_same [OF on B(5)] by simp
qed

text \<open>The parent has room.\<close>

lemma propagate_fits:
  assumes w: "carries (guards_of (fr # stack)) {} (Drop p # es) s" and r: "rising header root im (fr # stack) L R ((p, ls, k, rs) # zs) s"
    and fits: "length ls + length rs + 2 \<le> im" and im: "im \<le> 681"
  shows "\<exists>s'. propagate header im root (fr # stack) (sep, root_of R) (root_of L) s = Inr (stack, root, s')
    \<and> carries (guards_of stack) {} es s' \<and> guards_live stack s'
    \<and> risen header (grow_up im (next_page_id s) L sep R ((p, ls, k, rs) # zs)) root s'
    \<and> next_page_id s' = next_page_id s \<and> num_frames s' = num_frames s"
proof -
  let ?g = "pf_guard fr"
  define kcs where "kcs = ls @ (k, L) # (sep, R) # rs"
  have len: "length kcs \<le> im" using fits by (simp add: kcs_def)
  obtain s1 where B: "guard_borrow_mut ?g s = Inr s1" "carries (guards_of (fr # stack)) {g_frame ?g} (Drop p # es) s1"
    "pool_view s1 = pool_view s" "same_pool s s1" "guard_on ?g s1"
    "internal_decode (guard_bytes ?g s1) = Inr \<lparr>in_entries = child_ids ls @ (k, root_of L) # child_ids rs\<rparr>"
    "add_child (root_of L) (sep, root_of R) (child_ids ls @ (k, root_of L) # child_ids rs) = Inr (child_ids kcs)"
    unfolding kcs_def by (rule propagate_parent [OF w r])
  have pg: "g_page_id ?g = p" using r by (simp add: rising_def)
  have blen: "length (guard_bytes ?g s1) = PAGE_SIZE" using serve_length [OF B(2) serve_bytes [OF B(2,5)]] .
  obtain bs where bs: "internal_encode \<lparr>in_entries = child_ids kcs\<rparr> (guard_bytes ?g s1) = Inr bs" "length bs = PAGE_SIZE"
    "\<And>v. v p = Some bs \<Longrightarrow> internal_page v p (child_ids kcs)" using internal_write [OF blen, of kcs p] len im by auto
  obtain s2 where D: "write_guard_drop ?g (guard_release_mut ?g (guard_set_bytes ?g bs s1)) = Inr s2"
    "carries (guards_of (fr # stack) - {#g_frame ?g#}) ({g_frame ?g} - {g_frame ?g}) es s2"
    "pool_view s2 = (pool_view s1)(p \<mapsto> bs)" "same_pool s1 s2"
    by (rule serve_write_end [OF B(2) pg [symmetric] B(5) _ _ bs(2)]) simp_all
  have run: "propagate header im root (fr # stack) (sep, root_of R) (root_of L) s = Inr (stack, root, s2)"
    using B(1,6,7) len bs(1) D(1) by (simp add: Let_def)
  have view: "pool_view s2 = (pool_view s)(p \<mapsto> bs)" using D(3) B(3) by simp
  have rr: "stored (pool_view s) L" "stored (pool_view s) R" "\<forall>kc \<in> set ls \<union> set rs. stored (pool_view s) (snd kc)"
    "ctx_stored (pool_view s) p zs" "p \<notin> set (page_ids L)" "p \<notin> set (page_ids R)" "p \<notin> set (ctx_pages zs)"
    "\<forall>kc \<in> set ls \<union> set rs. p \<notin> set (page_ids (snd kc))" "header \<noteq> p" "root = root_of (plug L ((p, ls, k, rs) # zs))"
    using r by (auto simp: rising_def)
  have "stored (pool_view s2) (snd kc)" if "kc \<in> set kcs" for kc
    using that rr(1-3,5,6,8) unfolding view by (auto simp: kcs_def)
  moreover have "internal_page (pool_view s2) p (child_ids kcs)" by (intro bs(3)) (simp add: view)
  moreover have "ctx_stored (pool_view s2) p zs" unfolding view using rr(4,7) by simp
  ultimately have "stored (pool_view s2) (plug (NodeAt p kcs) zs)" by (simp add: plug_stored)
  moreover have "root = root_of (plug (NodeAt p kcs) zs)" using rr(10) root_of_plug [of "NodeAt p kcs" "NodeAt p (ls @ (k, L) # rs)" zs] by simp
  moreover have "\<exists>hb. pool_view s2 header = Some hb \<and> get_root_page_id hb = Inr root"
    using r rr(9) by (auto simp: view rising_def)
  ultimately have "risen header (grow_up im (next_page_id s) L sep R ((p, ls, k, rs) # zs)) root s2"
    using len unfolding grow_up.simps Let_def kcs_def [symmetric] by (simp add: risen_def)
  moreover have "guards_live stack s2" using r guards_live_same [OF _ same_pool_trans [OF B(4) D(4)]] by (simp add: rising_def)
  ultimately show ?thesis using run D(2) same_pool_trans [OF B(4) D(4)] by (simp add: same_pool_def)
qed

text \<open>The parent is full: it is split in turn, and the right half goes to a fresh page.\<close>

lemma propagate_splits:
  fixes sep :: i64
  assumes w: "carries (guards_of (fr # stack)) {} (Alloc # Take (next_page_id s) # Drop (next_page_id s) # Drop p # es) s"
    and r: "rising header root im (fr # stack) L R ((p, ls, k, rs) # zs) s"
    and full: "\<not> length ls + length rs + 2 \<le> im" and im: "im \<le> 681" and old: "length ls + length rs + 1 \<le> im"
  defines "kcs \<equiv> ls @ (k, L) # (sep, R) # rs"
  defines "mid \<equiv> length kcs div 2"
  defines "L' \<equiv> NodeAt p (take mid kcs)"
    and "R' \<equiv> NodeAt (next_page_id s) ((INVALID_KEY, snd (kcs ! mid)) # drop (Suc mid) kcs)"
  shows "\<exists>s'. propagate header im root (fr # stack) (sep, root_of R) (root_of L) s
      = propagate header im root stack (fst (kcs ! mid), root_of R') (root_of L') s'
    \<and> carries (guards_of stack) {} es s' \<and> rising header root im stack L' R' zs s'
    \<and> next_page_id s' = next_page_id s + 1 \<and> unat (next_page_id s') = unat (next_page_id s) + 1 \<and> num_frames s' = num_frames s"
proof -
  let ?g = "pf_guard fr" and ?q = "next_page_id s" and ?G = "guards_of (fr # stack)" and ?v = "pool_view s"
  have len: "length kcs = length ls + length rs + 2" "\<not> length kcs \<le> im" "length kcs \<le> 682" using full old im by (simp_all add: kcs_def)
  have mid: "mid < length kcs" "0 < mid" "mid \<le> 341" "length kcs - mid \<le> 341" using len unfolding mid_def by linarith+
  have pg: "g_page_id ?g = p" using r by (simp add: rising_def)
  have rr: "stored ?v L" "stored ?v R" "\<forall>kc \<in> set ls \<union> set rs. stored ?v (snd kc)" "ctx_stored ?v p zs"
    "header \<noteq> p" "guards_live stack s" "covers im stack zs" "root = root_of (plug L ((p, ls, k, rs) # zs))"
    "distinct (header # page_ids L @ page_ids R @ p # subpages ls @ subpages rs @ ctx_pages zs)"
    "unat ?q + Suc (new_pages im zs) < 2 ^ 32" "ctx_stored ?v (root_of L) ((p, ls, k, rs) # zs)"
    using r full by (auto simp: rising_def)
  from r obtain hb where hb: "?v header = Some hb" "get_root_page_id hb = Inr root" by (auto simp: rising_def)
  obtain s1 where B: "guard_borrow_mut ?g s = Inr s1" "carries ?G {g_frame ?g} (Alloc # Take ?q # Drop ?q # Drop p # es) s1"
    "pool_view s1 = ?v" "same_pool s s1" "guard_on ?g s1"
    "internal_decode (guard_bytes ?g s1) = Inr \<lparr>in_entries = child_ids ls @ (k, root_of L) # child_ids rs\<rparr>"
    "add_child (root_of L) (sep, root_of R) (child_ids ls @ (k, root_of L) # child_ids rs) = Inr (child_ids kcs)"
    unfolding kcs_def by (rule propagate_parent [OF w r])
  have nx1: "next_page_id s1 = ?q" by (rule same_pool_next [OF B(4)])
  have "unat (next_page_id s1) + 1 < 2 ^ 32" using rr(10) nx1 by simp
  from serve_alloc [OF B(2) this] obtain s2 where N: "new_page s1 = Inr (?q, s2)" "carries ?G {g_frame ?g} (Take ?q # Drop ?q # Drop p # es) s2"
    "pool_view s2 = ?v(?q \<mapsto> replicate PAGE_SIZE 0)" "?v ?q = None" "page_table s2 = page_table s1" "num_frames s2 = num_frames s1"
    "next_page_id s2 = ?q + 1" "unat (next_page_id s2) = unat ?q + 1"
    unfolding B(3) nx1 by blast
  note st12 = same_table_stays [OF N(5,6), of ?G]
  have on2: "guard_on ?g s2" by (rule guard_on_stays [OF B(5) _ st12]) simp
  have q: "?q \<noteq> header" "?q \<noteq> p" "?q \<notin> set (ctx_pages zs)"
    "\<And>kc. kc \<in> set kcs \<Longrightarrow> ?q \<notin> set (page_ids (snd kc))"
  proof -
    show "?q \<noteq> header" using N(4) hb(1) by auto
    have "?q \<notin> set (ctx_pages ((p, ls, k, rs) # zs))" by (rule fresh_not_ctx [OF rr(11) N(4)])
    then show "?q \<noteq> p" "?q \<notin> set (ctx_pages zs)" by simp_all
    show "?q \<notin> set (page_ids (snd kc))" if "kc \<in> set kcs" for kc
      using that rr(1-3) N(4) by (intro fresh_not_stored [of ?v]) (auto simp: kcs_def)
  qed
  let ?right = "(INVALID_KEY, snd (kcs ! mid)) # drop (Suc mid) kcs"
  obtain rb where rb: "internal_encode \<lparr>in_entries = child_ids ?right\<rparr> (replicate PAGE_SIZE 0) = Inr rb" "length rb = PAGE_SIZE"
    "\<And>v. v ?q = Some rb \<Longrightarrow> internal_page v ?q (child_ids ?right)"
    by (rule internal_write [of "replicate PAGE_SIZE 0" ?right ?q]) (use mid in simp_all)
  have ow: "overwrite (internal_encode \<lparr>in_entries = child_ids ?right\<rparr>) (replicate PAGE_SIZE 0) = Inr ((), rb)"
    using rb(1) by (simp add: overwrite_def)
  have b2: "pool_view s2 ?q = Some (replicate PAGE_SIZE 0)" by (simp add: N(3))
  have un: "unborrowed {g_frame ?g} ?q s2" using unborrowed_guard [OF carries_inv [OF N(2)] on2] q(2) pg by simp
  obtain s3 where W: "with_write_page ?q (overwrite (internal_encode \<lparr>in_entries = child_ids ?right\<rparr>)) s2 = Inr ((), s3)"
    "carries ?G {g_frame ?g} (Drop p # es) s3" "pool_view s3 = (pool_view s2)(?q \<mapsto> rb)" "stays ?G s2 s3" "next_page_id s3 = next_page_id s2"
    by (rule serve_write [where k = "overwrite (internal_encode \<lparr>in_entries = child_ids ?right\<rparr>)", OF N(2) b2 ow rb(2) un])
  have on3: "guard_on ?g s3" by (rule guard_on_stays [OF on2 _ W(4)]) simp
  have blen: "length (guard_bytes ?g s3) = PAGE_SIZE" by (rule serve_length [OF W(2) serve_bytes [OF W(2) on3]])
  have tk: "length (take mid kcs) \<le> 681" using mid by simp
  obtain lb where lb: "internal_encode \<lparr>in_entries = child_ids (take mid kcs)\<rparr> (guard_bytes ?g s3) = Inr lb" "length lb = PAGE_SIZE"
    "\<And>v. v p = Some lb \<Longrightarrow> internal_page v p (child_ids (take mid kcs))" using internal_write [where p = p, OF blen tk] by blast
  obtain s4 where D: "write_guard_drop ?g (guard_release_mut ?g (guard_set_bytes ?g lb s3)) = Inr s4"
    "carries (?G - {#g_frame ?g#}) ({g_frame ?g} - {g_frame ?g}) es s4"
    "pool_view s4 = (pool_view s3)(p \<mapsto> lb)" "same_pool s3 s4"
    by (rule serve_write_end [OF W(2) pg [symmetric] on3 _ _ lb(2)]) simp_all
  note cr = child_ids_right [OF mid(1)]
  have run: "propagate header im root (fr # stack) (sep, root_of R) (root_of L) s
      = propagate header im root stack (fst (kcs ! mid), root_of R') (root_of L') s4"
    using B(1,6,7) len(2) N(1) W(1) lb(1) D(1) cr pg
    by (simp add: Let_def mid_def [symmetric] child_ids_take L'_def R'_def)
  have view: "pool_view s4 = ?v(?q \<mapsto> replicate PAGE_SIZE 0, ?q \<mapsto> rb, p \<mapsto> lb)" using D(3) W(3) N(3) by simp
  have gr: "stays ?G s s4"
    by (rule stays_trans [OF same_pool_stays [OF B(4)] stays_trans [OF st12 stays_trans [OF W(4) same_pool_stays [OF D(4)]]]])
  have sub: "stored (pool_view s4) (snd kc)" if kc: "kc \<in> set kcs" for kc
  proof -
    have "p \<notin> set (page_ids (snd kc))" "stored ?v (snd kc)" using kc rr(1-3,9) by (auto simp: kcs_def)
    with q(4) [OF kc] show ?thesis by (simp add: view)
  qed
  have "stored (pool_view s4) L'" unfolding L'_def stored.simps
    by (intro conjI ballI lb(3) sub) (auto simp: view dest: in_set_takeD)
  moreover have "stored (pool_view s4) R'" unfolding R'_def stored.simps
  proof (intro conjI ballI rb(3))
    show "pool_view s4 ?q = Some rb" using q(2) by (simp add: view)
    show "stored (pool_view s4) (snd kc)" if "kc \<in> set ?right" for kc
      using that sub [OF nth_mem [OF mid(1)]] sub [of kc] in_set_dropD [of kc "Suc mid" kcs] by auto
  qed
  moreover have "ctx_stored (pool_view s4) (root_of L') zs" using rr(4,9) q(3) by (simp add: view L'_def)
  moreover have "distinct (header # page_ids L' @ page_ids R' @ ctx_pages zs)"
  proof -
    have "mset (page_ids L' @ page_ids R') = add_mset p (add_mset ?q (mset (subpages kcs)))"
      using subpages_split [OF mid(1)] by (simp add: L'_def R'_def add.assoc)
    then have "mset (header # page_ids L' @ page_ids R' @ ctx_pages zs) = mset (header # ?q # p # subpages kcs @ ctx_pages zs)" by simp
    moreover have "mset (p # subpages kcs) = mset (page_ids L @ page_ids R @ p # subpages ls @ subpages rs)" by (simp add: kcs_def)
    then have "mset (header # p # subpages kcs @ ctx_pages zs) = mset (header # page_ids L @ page_ids R @ p # subpages ls @ subpages rs @ ctx_pages zs)"
      by simp
    then have "distinct (header # p # subpages kcs @ ctx_pages zs)" using rr(9) by (metis distinct_mset_cong)
    then have "distinct (header # ?q # p # subpages kcs @ ctx_pages zs)" using q by auto
    ultimately show ?thesis by (metis distinct_mset_cong)
  qed
  moreover have "guards_live stack s4" by (rule guards_live_stays [OF rr(6), of "{#g_frame ?g#}"]) (use gr in simp)
  moreover have "pool_view s4 header = Some hb" using hb(1) q(1) rr(5) by (simp add: view)
  moreover have "root = root_of (plug L' zs)"
    using rr(8) root_of_plug [of L' "NodeAt p (ls @ (k, L) # rs)" zs] by (simp add: L'_def)
  moreover have nx: "unat (next_page_id s4) = unat ?q + 1" "num_frames s4 = num_frames s"
    using same_pool_next [OF D(4)] W(5) N(8) stays_frames [OF gr] by simp_all
  ultimately have "rising header root im stack L' R' zs s4"
    using hb(2) rr(7,10) unfolding rising_def by auto
  moreover have "next_page_id s4 = ?q + 1" using same_pool_next [OF D(4)] W(5) N(7) by simp
  ultimately show ?thesis using run D(2) nx by auto
qed

lemma propagate_ok:
  assumes "carries (guards_of stack) {} (climb header (next_page_id s) (marks im zs) @ es) s" and "rising header root im stack L R zs s"
    and "ctx_sized lm im zs" and "im \<le> 681"
  obtains root' s' where "propagate header im root stack (sep, root_of R) (root_of L) s = Inr ([], root', s')"
    and "carries {#} {} es s'" and "risen header (grow_up im (next_page_id s) L sep R zs) root' s'"
    and "unat (next_page_id s') = unat (next_page_id s) + new_pages im zs" and "num_frames s' = num_frames s"
  using assms
proof (induction stack arbitrary: s L R sep zs thesis)
  case Nil
  have zs: "zs = []" using Nil.prems(3) by (simp add: rising_def)
  have "carries {#} {} (climb header (next_page_id s) [] @ es) s" using Nil.prems(2) by (simp only: zs marks_simps list.map mset.simps)
  from propagate_root [OF this Nil.prems(3) [unfolded zs], of sep] obtain root' s' where
    R: "propagate header im root [] (sep, root_of R) (root_of L) s = Inr ([], root', s')" "carries {#} {} es s'"
      "risen header (grow_up im (next_page_id s) L sep R []) root' s'"
      "unat (next_page_id s') = unat (next_page_id s) + 1" "num_frames s' = num_frames s" by blast
  show ?case by (rule Nil.prems(1) [OF R(1,2)]) (use R zs in simp_all)
next
  case (Cons fr stack)
  from Cons.prems(3) obtain p ls k rs zs' where zs: "zs = (p, ls, k, rs) # zs'"
    by (cases zs) (auto simp: rising_def)
  show ?case
  proof (cases "length ls + length rs + 2 \<le> im")
    case True
    have st: "stack = []" using Cons.prems(3) True by (simp add: rising_def zs)
    have "carries (guards_of (fr # stack)) {} (Drop p # es) s" using Cons.prems(2) True by (simp add: zs)
    from propagate_fits [OF this Cons.prems(3) [unfolded zs] True Cons.prems(5), of sep] obtain s' where
      R: "propagate header im root (fr # stack) (sep, root_of R) (root_of L) s = Inr (stack, root, s')"
        "carries (guards_of stack) {} es s'" "guards_live stack s'"
        "risen header (grow_up im (next_page_id s) L sep R ((p, ls, k, rs) # zs')) root s'"
        "next_page_id s' = next_page_id s" "num_frames s' = num_frames s" by blast
    show ?thesis by (rule Cons.prems(1) [of root s']) (use R zs True st in simp_all)
  next
    case False
    have w: "carries (guards_of (fr # stack)) {} (Alloc # Take (next_page_id s) # Drop (next_page_id s) # Drop p
        # climb header (next_page_id s + 1) (marks im zs') @ es) s"
      using Cons.prems(2) False by (simp add: zs)
    have old: "length ls + length rs + 1 \<le> im" "ctx_sized lm im zs'" using Cons.prems(4) zs by simp_all
    define kcs where "kcs = ls @ (k, L) # (sep, R) # rs"
    let ?mid = "length kcs div 2"
    let ?L = "NodeAt p (take ?mid kcs)"
      and ?R = "NodeAt (next_page_id s) ((INVALID_KEY, snd (kcs ! ?mid)) # drop (Suc ?mid) kcs)"
    from propagate_splits [OF w Cons.prems(3) [unfolded zs] False Cons.prems(5) old(1), of sep, folded kcs_def]
    obtain s1 where S: "propagate header im root (fr # stack) (sep, root_of R) (root_of L) s
        = propagate header im root stack (fst (kcs ! ?mid), root_of ?R) (root_of ?L) s1"
      "carries (guards_of stack) {} (climb header (next_page_id s + 1) (marks im zs') @ es) s1" "rising header root im stack ?L ?R zs' s1"
      "next_page_id s1 = next_page_id s + 1" "unat (next_page_id s1) = unat (next_page_id s) + 1" "num_frames s1 = num_frames s"
      by blast
    obtain root' s' where T: "propagate header im root stack (fst (kcs ! ?mid), root_of ?R) (root_of ?L) s1 = Inr ([], root', s')"
      "carries {#} {} es s'" "risen header (grow_up im (next_page_id s1) ?L (fst (kcs ! ?mid)) ?R zs') root' s'"
      "unat (next_page_id s') = unat (next_page_id s1) + new_pages im zs'" "num_frames s' = num_frames s1"
      by (rule Cons.IH [OF _ S(2) [folded S(4)] S(3) old(2) Cons.prems(5)])
    have "\<not> length kcs \<le> im" using False by (simp add: kcs_def)
    then have "grow_up im (next_page_id s) L sep R zs = grow_up im (next_page_id s1) ?L (fst (kcs ! ?mid)) ?R zs'"
      unfolding zs grow_up.simps Let_def kcs_def [symmetric] S(4) by simp
    moreover have "new_pages im zs = Suc (new_pages im zs')" using False zs by simp
    ultimately show ?thesis using Cons.prems(1) [of root' s'] S(1,5,6) T by simp
  qed
qed

end

end
