(* ===== verification/BTreeDescend.thy ===== *)
theory BTreeDescend
  imports BTreeClimb
begin

text \<open>
  The way down of an insertion: the walk to the leaf with its stack of guards, which lets go of the nodes
  above one that has room. Again for any pool that carries its requests, which the tree and the key give.
\<close>

section \<open>The requests of a walk\<close>

text \<open>The nodes from the root to the leaf of a key; the child to descend into is the last one whose separator is not
  above the key.\<close>

function (sequential) route :: "i64 \<Rightarrow> nat \<Rightarrow> nat \<Rightarrow> shape \<Rightarrow> mark list"
  and route_in :: "i64 \<Rightarrow> nat \<Rightarrow> nat \<Rightarrow> (i64 \<times> shape) list \<Rightarrow> mark list" where
  "route key lm im (LeafAt q m) = [(q, length (ln_entries m) < lm)]"
| "route key lm im (NodeAt p kcs) = (p, length kcs < im) # route_in key lm im kcs"
| "route_in key lm im [] = []"
| "route_in key lm im [kc] = route key lm im (snd kc)"
| "route_in key lm im (kc # r # rs) = (if fst r \<le> key then route_in key lm im (r # rs) else route key lm im (snd kc))"
  by pat_completeness auto

termination
  by (relation "measure (case_sum (\<lambda>(key, lm, im, T). 2 * size T) (\<lambda>(key, lm, im, kcs). Suc (2 * size_list (\<lambda>x. Suc (size (snd x))) kcs)))")
    (auto simp: size_prod_simp)

text \<open>\<open>ps\<close> are the pages guarded so far, the last one taken first. A child is looked at, then guarded; if it has room, the
  guards above it go, from the root down.\<close>

fun walk :: "page_id list \<Rightarrow> mark list \<Rightarrow> request list" where
  "walk ps [] = []"
| "walk ps ((p, spare) # ms) =
     Take p # Drop p # Take p # (if spare then map Drop (rev ps) else []) @ walk (p # (if spare then [] else ps)) ms"

lemma separators_below: "ordered_children lo hi (kc # kcs) \<Longrightarrow> \<forall>x \<in> set kcs. below (fst x) hi"
proof (induction kcs arbitrary: lo kc)
  case (Cons r rs)
  from Cons.IH [of "fst r" r] Cons.prems show ?case by simp
qed simp

lemma route_in_descends:
  "\<forall>x \<in> set (tl (ls @ [(k, c)])). fst x \<le> key \<Longrightarrow> (case rs of [] \<Rightarrow> True | r # _ \<Rightarrow> key < fst r) \<Longrightarrow>
     route_in key lm im (ls @ (k, c) # rs) = route key lm im c"
proof (induction ls)
  case Nil
  then show ?case by (cases rs) auto
next
  case (Cons l ls)
  obtain r ys where r: "ls @ (k, c) # rs = r # ys" by (cases "ls @ (k, c) # rs") auto
  have le: "fst r \<le> key" using Cons.prems(1) r by (cases ls) auto
  have tl: "\<forall>x \<in> set (tl (ls @ [(k, c)])). fst x \<le> key" using Cons.prems(1) by (cases ls) auto
  from Cons.IH [OF tl Cons.prems(2)] le show ?case by (simp add: r)
qed

lemma route_node:
  assumes fr: "frame_ok lo0 hi0 ls k rs lo hi" and key: "lo \<le> key" "below key hi"
  shows "route key lm im (NodeAt p (ls @ (k, c) # rs)) = (p, length ls + length rs + 2 \<le> im) # route key lm im c"
proof -
  have rs: "case rs of [] \<Rightarrow> True | r # _ \<Rightarrow> key < fst r" using fr key(2) by (auto simp: frame_ok_def split: list.splits)
  have "\<forall>x \<in> set (tl (ls @ [(k, c)])). fst x \<le> key"
  proof (cases ls)
    case (Cons l ls')
    then have "lo = k" "ordered_children lo0 (Some k) (l # ls')" using fr by (simp_all add: frame_ok_def)
    with separators_below [OF this(2)] key(1) Cons show ?thesis by auto
  qed simp
  from route_in_descends [OF this rs] show ?thesis by auto
qed

text \<open>The route ends with the leaf, and its other nodes are those of the leaf's contexts.\<close>

lemma route_plug:
  "hole lo hi zs \<Longrightarrow> lo \<le> key \<Longrightarrow> below key hi \<Longrightarrow> route key lm im (plug c zs) = rev (marks im zs) @ route key lm im c"
proof (induction c zs arbitrary: lo hi rule: plug.induct)
  case (2 c p ls k rs zs)
  from 2(2) obtain lo0 hi0 where z: "hole lo0 hi0 zs" "frame_ok lo0 hi0 ls k rs lo hi" by auto
  have "lo0 \<le> key" using frame_lo [OF z(2)] 2(3) by (rule order_trans)
  moreover have "below key hi0"
    using z(2) 2(4) below_less by (auto simp: frame_ok_def split: list.splits)
  ultimately show ?case using 2(1) [OF z(1)] route_node [OF z(2) 2(3,4)] by simp
qed simp

lemma route_leaf:
  assumes "at_leaf key T q m zs"
  shows "route key lm im T = rev (marks im zs) @ [(q, length (ln_entries m) < lm)]"
  using assms route_plug [of _ _ zs key lm im "LeafAt q m"] by (auto simp: at_leaf_def)

lemma route_root: "route key lm im T = (root_of T, case T of LeafAt q m \<Rightarrow> length (ln_entries m) < lm | NodeAt p kcs \<Rightarrow> length kcs < im)
    # tl (route key lm im T)"
  by (cases T) simp_all

section \<open>The walk\<close>

lemma child_context:
  assumes ord: "ordered lo hi (NodeAt p kcs)" and lo: "lo \<le> key" and hi: "below key hi"
  obtains i lo' hi' where "find_child_index \<lparr>in_entries = child_ids kcs\<rparr> key = Inr i" and "i < length kcs"
    and "frame_ok lo hi (take i kcs) (fst (kcs ! i)) (drop (Suc i) kcs) lo' hi'"
    and "ordered lo' hi' (snd (kcs ! i))" and "lo' \<le> key" and "below key hi'"
proof -
  note srt = sorted_child_ids [OF ord]
  have ne: "kcs \<noteq> []" "fst (hd kcs) = INVALID_KEY" using ord by simp_all
  have key_of: "fst (child_ids kcs ! j) = fst (kcs ! j)" if "j < length kcs" for j using that by (simp add: child_ids_def)
  have "\<not> (child_ids kcs = [] \<or> key < fst (hd (child_ids kcs)))"
    using ne by (cases kcs) (auto simp: not_less)
  with find_child_index_sorted [of "\<lparr>in_entries = child_ids kcs\<rparr>" key] sorted_less_distinct [OF srt(1)] srt(2) key_of
  obtain i where i: "find_child_index \<lparr>in_entries = child_ids kcs\<rparr> key = Inr i" "i < length kcs" "fst (kcs ! i) \<le> key"
    "\<And>j. i < j \<Longrightarrow> j < length kcs \<Longrightarrow> key < fst (kcs ! j)" by auto
  have split: "kcs = take i kcs @ (fst (kcs ! i), snd (kcs ! i)) # drop (Suc i) kcs" using id_take_nth_drop [OF i(2)] by simp
  with ord have "ordered lo hi (NodeAt p (take i kcs @ (fst (kcs ! i), snd (kcs ! i)) # drop (Suc i) kcs))" by simp
  then obtain lo' hi' where f: "frame_ok lo hi (take i kcs) (fst (kcs ! i)) (drop (Suc i) kcs) lo' hi'"
    "ordered lo' hi' (snd (kcs ! i))" by (rule frame_down)
  have "lo' \<le> key" using f(1) lo i(3) by (auto simp: frame_ok_def split: if_splits)
  moreover have "below key hi'"
  proof (cases "drop (Suc i) kcs")
    case Nil
    with f(1) hi show ?thesis by (simp add: frame_ok_def)
  next
    case (Cons r rs)
    then have "Suc i < length kcs" by (metis drop_all leI list.distinct(1))
    with Cons i(4) [of "Suc i"] have "key < fst r" by (simp add: Cons_nth_drop_Suc [symmetric])
    with Cons f(1) show ?thesis by (simp add: frame_ok_def)
  qed
  ultimately show ?thesis using that [OF i(1,2) f] by blast
qed

text \<open>The state in which the walk ends: the leaf is guarded, and unless it has room so are the ancestors that a split may reach.\<close>

definition landed :: "nat \<Rightarrow> nat \<Rightarrow> path_frame list \<Rightarrow> page_id \<Rightarrow> leaf_node \<Rightarrow> ctx list \<Rightarrow> bpm \<Rightarrow> bool" where
  "landed lm im stack q m zs s \<longleftrightarrow> (\<exists>fr st. stack = fr # st \<and> g_page_id (pf_guard fr) = q \<and> guards_live stack s
     \<and> (if length (ln_entries m) < lm then st = [] else covers im st zs))"

definition descended :: "(nat multiset \<Rightarrow> nat set \<Rightarrow> request list \<Rightarrow> bpm \<Rightarrow> bool) \<Rightarrow> i64 \<Rightarrow> nat \<Rightarrow> nat \<Rightarrow> shape \<Rightarrow> request list \<Rightarrow> bpm
    \<Rightarrow> (path_frame list \<times> bpm) res option \<Rightarrow> bool" where
  "descended carries key lm im T es s r \<longleftrightarrow> (\<exists>stack s' q m zs. r = Some (Inr (stack, s')) \<and> at_leaf key T q m zs
     \<and> landed lm im stack q m zs s' \<and> carries (guards_of stack) {} es s'
     \<and> pool_view s' = pool_view s \<and> num_frames s' = num_frames s \<and> next_page_id s' = next_page_id s)"

lemma descended_step:
  assumes "descended carries key lm im T es s1 r" and "pool_view s1 = pool_view s" and "num_frames s1 = num_frames s"
    and "next_page_id s1 = next_page_id s"
  shows "descended carries key lm im T es s r"
  using assms unfolding descended_def by metis

lemma ctx_heads: "set (map fst zs) \<subseteq> set (ctx_pages zs)"
  by (induction zs rule: ctx_pages.induct) auto

context request_pool
begin

text \<open>Guarding the child, and letting the guards above it go when it has room.\<close>

lemma guard_child_ok:
  fixes limit :: nat
  assumes w: "carries (guards_of stack) {} (Take p # (if c < limit then map Drop (rev (pages_of stack)) else []) @ es) s"
    and live: "guards_live stack s" and b: "pool_view s p = Some b" and c: "count_entries b = Inr c"
    and other: "\<forall>fr \<in> set stack. g_page_id (pf_guard fr) \<noteq> p"
  defines "stack' \<equiv> if c < limit then [] else stack"
  obtains g s' where "guard_child p count_entries limit stack s = Inr (g, stack', s')"
    and "carries (add_mset (g_frame g) (guards_of stack')) {} es s'" and "guards_live stack' s'"
    and "guard_on g s'" and "g_page_id g = p" and "pool_view s' = pool_view s" and "num_frames s' = num_frames s"
    and "next_page_id s' = next_page_id s"
proof -
  let ?ds = "if c < limit then map Drop (rev (pages_of stack)) else []"
  obtain g s1 where T: "check_write_page p s = Inr (g, s1)" "carries (add_mset (g_frame g) (guards_of stack)) {} (?ds @ es) s1"
    "guard_on g s1" "g_page_id g = p" "pool_view s1 = pool_view s" "stays (guards_of stack) s s1" "next_page_id s1 = next_page_id s"
    by (rule serve_take [OF w b])
  have b1: "pool_view s1 (g_page_id g) = Some b" using T(4,5) b by simp
  obtain s2 where B: "guard_borrow_mut g s1 = Inr s2" "carries (add_mset (g_frame g) (guards_of stack)) (insert (g_frame g) {}) (?ds @ es) s2"
    "guard_bytes g s2 = b" "pool_view s2 = pool_view s1" "same_pool s1 s2"
    by (rule serve_borrow [OF T(2,3) _ _ b1]) simp_all
  have live1: "guards_live stack s1" by (rule guards_live_stays [OF live, of "{#}"]) (use T(6) in simp)
  have on2: "guard_on g s2" and live2: "guards_live stack s2"
    by (rule guard_on_same [OF T(3) B(5)], rule guards_live_same [OF live1 B(5)])
  obtain s3 where D: "(if c < limit then seq (drop_frames stack s2) (\<lambda>s3. Inr ([], s3)) else Inr (stack, s2)) = Inr (stack', s3)"
    "carries (add_mset (g_frame g) (guards_of stack')) {g_frame g} es s3" "pool_view s3 = pool_view s2" "same_pool s2 s3"
  proof (cases "c < limit")
    case True
    have "g_frame (pf_guard fr) \<notin> {g_frame g}" if "fr \<in> set stack" for fr
      using guard_frames_differ [OF carries_inv [OF B(2)] _ on2, of "pf_guard fr"] live2 other that T(4)
      by (auto simp: guards_live_def)
    moreover have "carries (guards_of stack + {#g_frame g#}) {g_frame g} (map Drop (rev (pages_of stack)) @ es) s2" using B(2) True by simp
    ultimately obtain s3 where "drop_frames stack s2 = Inr s3" "carries {#g_frame g#} {g_frame g} es s3"
      "pool_view s3 = pool_view s2" "same_pool s2 s3"
      using drop_frames_ok [OF _ live2] by metis
    with True that [of s3] show ?thesis by (simp add: stack'_def)
  next
    case False
    with B(2) that [of s2] show ?thesis by (simp add: stack'_def)
  qed
  have on3: "guard_on g s3" by (rule guard_on_same [OF on2 D(4)])
  note R = serve_release [OF D(2) on3]
  have run: "guard_child p count_entries limit stack s = Inr (g, stack', guard_release_mut g s3)"
    using T(1) B(1,3) c D(1) by (simp add: guard_child_def)
  have same: "same_pool s1 (guard_release_mut g s3)"
    by (rule same_pool_trans [OF B(5) same_pool_trans [OF D(4) R(3)]])
  have "guards_live stack' (guard_release_mut g s3)" using guards_live_same [OF live1 same] by (simp add: stack'_def)
  moreover have "carries (add_mset (g_frame g) (guards_of stack')) {} es (guard_release_mut g s3)" using R(1) by simp
  moreover have "num_frames (guard_release_mut g s3) = num_frames s" "next_page_id (guard_release_mut g s3) = next_page_id s"
    using same stays_frames [OF T(6)] T(7) by (simp_all add: same_pool_def)
  ultimately show ?thesis using that [OF run] R(2) T(4,5) B(4) D(3) guard_on_same [OF on3 R(3)] by simp
qed

text \<open>One turn of the walk, for a leaf and for an internal child.\<close>

lemma descend_step_ok:
  fixes cnt limit :: nat
  assumes w: "carries (guards_of stack) {}
      (Take (root_of c) # Drop (root_of c) # Take (root_of c) # (if cnt < limit then map Drop (rev (pages_of stack)) else []) @ es) s"
    and live: "guards_live stack s"
    and i: "index (in_entries internal) slot = Inr (k, root_of c)" and st: "stored (pool_view s) c"
    and other: "\<forall>fr \<in> set stack. g_page_id (pf_guard fr) \<noteq> root_of c"
    and leaf: "\<And>q m. c = LeafAt q m \<Longrightarrow> cnt = length (ln_entries m) \<and> limit = lm"
    and node: "\<And>q kcs. c = NodeAt q kcs \<Longrightarrow> cnt = length kcs \<and> limit = im \<and> find_child_index \<lparr>in_entries = child_ids kcs\<rparr> key = Inr slot'"
  defines "stack' \<equiv> if cnt < limit then [] else stack"
  obtains fr s' where "descend_step key lm im stack internal slot s = Inr (case c of
      LeafAt q m \<Rightarrow> Arrived (fr # stack') | NodeAt q kcs \<Rightarrow> Further (fr # stack') \<lparr>in_entries = child_ids kcs\<rparr> slot', s')"
    and "carries (guards_of (fr # stack')) {} es s'" and "guards_live (fr # stack') s'"
    and "g_page_id (pf_guard fr) = root_of c" and "pool_view s' = pool_view s" and "num_frames s' = num_frames s" and "next_page_id s' = next_page_id s"
proof -
  let ?ds = "if cnt < limit then map Drop (rev (pages_of stack)) else []"
  show ?thesis
  proof (cases c)
  case c_eq: (LeafAt q m)
  note LeafAt = c_eq
  from st LeafAt obtain b where b: "pool_view s q = Some b" "index b 0 = Inr LEAF_NODE" "leaf_decode b = Inr m"
    by (auto simp: leaf_page_def)
  have wq: "carries (guards_of stack) {} (Take q # Drop q # Take q # ?ds @ es) s" using w by (simp only: c_eq root_of.simps)
  have cs: "child_step_of key internal slot b = Inr (LEAF_NODE, internal, slot)" using b by (simp add: child_step_of_def)
  obtain s1 where R: "with_read_page q (child_step_of key internal slot) s = Inr ((LEAF_NODE, internal, slot), s1)"
    "carries (guards_of stack) {} (Take q # ?ds @ es) s1" "pool_view s1 = pool_view s" "stays (guards_of stack) s s1" "next_page_id s1 = next_page_id s"
    by (rule serve_read [where k = "child_step_of key internal slot", OF wq b(1) cs unborrowed_none])
  have live1: "guards_live stack s1" by (rule guards_live_stays [OF live, of "{#}"]) (use R(4) in simp)
  have b1: "pool_view s1 q = Some b" using b(1) R(3) by simp
  have cnt_eq: "seq (leaf_decode b) (\<lambda>n. Inr (length (ln_entries n))) = Inr cnt" using b(3) leaf [OF LeafAt] by simp
  have oth: "\<forall>fr \<in> set stack. g_page_id (pf_guard fr) \<noteq> q" using other LeafAt by simp
  obtain g s2 where G: "guard_child q (\<lambda>bs. seq (leaf_decode bs) (\<lambda>n. Inr (length (ln_entries n)))) limit stack s1 = Inr (g, stack', s2)"
    "carries (add_mset (g_frame g) (guards_of stack')) {} es s2" "guards_live stack' s2" "guard_on g s2" "g_page_id g = q"
    "pool_view s2 = pool_view s1" "num_frames s2 = num_frames s1" "next_page_id s2 = next_page_id s1" unfolding stack'_def
    by (rule guard_child_ok [where count_entries = "\<lambda>bs. seq (leaf_decode bs) (\<lambda>n. Inr (length (ln_entries n)))" and limit = limit,
          OF R(2) live1 b1 cnt_eq oth])
  show ?thesis
  proof (rule that [of "\<lparr>pf_slot = unat INVALID_PAGE_ID, pf_guard = g\<rparr>" s2])
    show "descend_step key lm im stack internal slot s = Inr (case c of
      LeafAt q m \<Rightarrow> Arrived (\<lparr>pf_slot = unat INVALID_PAGE_ID, pf_guard = g\<rparr> # stack')
      | NodeAt q kcs \<Rightarrow> Further (\<lparr>pf_slot = unat INVALID_PAGE_ID, pf_guard = g\<rparr> # stack') \<lparr>in_entries = child_ids kcs\<rparr> slot', s2)"
      using i LeafAt R(1) G(1) leaf [OF LeafAt] by (simp add: descend_step_def Let_def)
    show "num_frames s2 = num_frames s" using G(7) stays_frames [OF R(4)] by simp
  qed (use G R LeafAt in simp_all)
next
  case c_eq: (NodeAt q kcs)
  note NodeAt = c_eq
  from st NodeAt obtain b where b: "pool_view s q = Some b" "index b 0 = Inr INTERNAL_NODE" "internal_decode b = Inr \<lparr>in_entries = child_ids kcs\<rparr>"
    by (auto simp: internal_page_def)
  let ?r = "(INTERNAL_NODE, \<lparr>in_entries = child_ids kcs\<rparr>, slot')"
  have wq: "carries (guards_of stack) {} (Take q # Drop q # Take q # ?ds @ es) s" using w by (simp only: c_eq root_of.simps)
  have cs: "child_step_of key internal slot b = Inr ?r" using b node [OF NodeAt] by (simp add: child_step_of_def)
  obtain s1 where R: "with_read_page q (child_step_of key internal slot) s = Inr (?r, s1)"
    "carries (guards_of stack) {} (Take q # ?ds @ es) s1" "pool_view s1 = pool_view s" "stays (guards_of stack) s s1" "next_page_id s1 = next_page_id s"
    by (rule serve_read [where k = "child_step_of key internal slot", OF wq b(1) cs unborrowed_none])
  have live1: "guards_live stack s1" by (rule guards_live_stays [OF live, of "{#}"]) (use R(4) in simp)
  have b1: "pool_view s1 q = Some b" using b(1) R(3) by simp
  have cnt_eq: "seq (internal_decode b) (\<lambda>n. Inr (length (in_entries n))) = Inr cnt" using b(3) node [OF NodeAt] by simp
  have oth: "\<forall>fr \<in> set stack. g_page_id (pf_guard fr) \<noteq> q" using other NodeAt by simp
  obtain g s2 where G: "guard_child q (\<lambda>bs. seq (internal_decode bs) (\<lambda>n. Inr (length (in_entries n)))) limit stack s1 = Inr (g, stack', s2)"
    "carries (add_mset (g_frame g) (guards_of stack')) {} es s2" "guards_live stack' s2" "guard_on g s2" "g_page_id g = q"
    "pool_view s2 = pool_view s1" "num_frames s2 = num_frames s1" "next_page_id s2 = next_page_id s1" unfolding stack'_def
    by (rule guard_child_ok [where count_entries = "\<lambda>bs. seq (internal_decode bs) (\<lambda>n. Inr (length (in_entries n)))" and limit = limit,
          OF R(2) live1 b1 cnt_eq oth])
  show ?thesis
  proof (rule that [of "\<lparr>pf_slot = slot', pf_guard = g\<rparr>" s2])
    show "descend_step key lm im stack internal slot s = Inr (case c of
      LeafAt q m \<Rightarrow> Arrived (\<lparr>pf_slot = slot', pf_guard = g\<rparr> # stack')
      | NodeAt q kcs \<Rightarrow> Further (\<lparr>pf_slot = slot', pf_guard = g\<rparr> # stack') \<lparr>in_entries = child_ids kcs\<rparr> slot', s2)"
      using i NodeAt R(1) G(1) node [OF NodeAt] by (simp add: descend_step_def Let_def)
    show "num_frames s2 = num_frames s" using G(7) stays_frames [OF R(4)] by simp
  qed (use G R NodeAt in simp_all)
qed
qed

lemma descend_ok:
  "carries (guards_of (fr # st)) {} (walk (pages_of (fr # st)) (tl (route key lm im c)) @ es) s \<Longrightarrow> guards_live (fr # st) s
   \<Longrightarrow> c = NodeAt p kcs \<Longrightarrow> hole lo hi zs \<Longrightarrow> ordered lo hi c \<Longrightarrow> lo \<le> key \<Longrightarrow> below key hi \<Longrightarrow> stored (pool_view s) c
   \<Longrightarrow> g_page_id (pf_guard fr) = p \<Longrightarrow> (if length kcs < im then st = [] else covers im st zs) \<Longrightarrow> distinct (page_ids c @ ctx_pages zs)
   \<Longrightarrow> \<forall>f \<in> set (fr # st). g_page_id (pf_guard f) \<in> set (p # map fst zs)
   \<Longrightarrow> find_child_index \<lparr>in_entries = child_ids kcs\<rparr> key = Inr slot
   \<Longrightarrow> descended carries key lm im (plug c zs) es s (descend_loop key lm im (fr # st) \<lparr>in_entries = child_ids kcs\<rparr> slot s)"
proof (induction c arbitrary: p kcs fr st s lo hi zs slot)
  case (LeafAt q m)
  then show ?case by simp
next
  case (NodeAt q kcs0)
  note P = NodeAt.prems
  have eq: "q = p" "kcs0 = kcs" using P(3) by simp_all
  from child_context [OF P(5) [unfolded eq] P(6,7)] obtain i lo' hi' where
    i: "find_child_index \<lparr>in_entries = child_ids kcs\<rparr> key = Inr i" "i < length kcs"
      "frame_ok lo hi (take i kcs) (fst (kcs ! i)) (drop (Suc i) kcs) lo' hi'" "ordered lo' hi' (snd (kcs ! i))" "lo' \<le> key" "below key hi'" .
  have slot: "slot = i" using i(1) P(13) by simp
  define c' where "c' = snd (kcs ! i)"
  define zs' where "zs' = (p, take i kcs, fst (kcs ! i), drop (Suc i) kcs) # zs"
  have mem: "kcs ! i \<in> set kcs" using i(2) by simp
  have kcs_eq: "take i kcs @ (fst (kcs ! i), c') # drop (Suc i) kcs = kcs"
    using id_take_nth_drop [OF i(2)] by (simp add: c'_def)
  then have pl: "plug c' zs' = plug (NodeAt p kcs) zs" by (simp add: zs'_def)
  have hl: "hole lo' hi' zs'" using P(4) i(3) by (auto simp: zs'_def)
  have dis: "distinct (page_ids c' @ ctx_pages zs')"
  proof -
    have "mset (subpages kcs) = mset (subpages (take i kcs)) + mset (page_ids c') + mset (subpages (drop (Suc i) kcs))"
      using subpages_split [OF i(2)] unfolding c'_def by (rule sym)
    moreover have "X = A + B + C \<Longrightarrow> B + add_mset p (A + (C + D)) = add_mset p (X + D)" for A B C D X :: "page_id multiset"
      by (simp add: ac_simps)
    ultimately have "mset (page_ids c' @ ctx_pages zs') = mset (page_ids (NodeAt p kcs) @ ctx_pages zs)"
      unfolding zs'_def ctx_pages.simps page_ids.simps mset_append mset.simps append_Cons by blast
    with P(11) eq show ?thesis using distinct_mset_cong by metis
  qed
  have stc: "stored (pool_view s) c'" using P(8) mem eq by (auto simp: c'_def)
  have pages: "\<forall>f \<in> set (fr # st). g_page_id (pf_guard f) \<in> set (map fst zs')" using P(12) by (simp add: zs'_def)
  have other: "\<forall>f \<in> set (fr # st). g_page_id (pf_guard f) \<noteq> root_of c'"
    using pages dis root_in_pages [of c'] ctx_heads [of zs'] by fastforce
  have ie: "index (in_entries \<lparr>in_entries = child_ids kcs\<rparr>) slot = Inr (fst (kcs ! i), root_of c')"
    using child_ids_right(2) [OF i(2)] by (simp add: slot c'_def)
  have cov: "covers im (fr # st) zs'" using P(9,10) i(2) by (auto simp: zs'_def)
  have route: "tl (route key lm im (NodeAt q kcs0)) = route key lm im c'"
    using route_node [OF i(3,5,6), of lm im p c'] unfolding kcs_eq eq by simp
  let ?ps = "pages_of (fr # st)"
  show ?case
  proof (cases c')
    case (LeafAt q' m)
    let ?st = "if length (ln_entries m) < lm then [] else fr # st"
    have w: "carries (guards_of (fr # st)) {} (Take (root_of c') # Drop (root_of c') # Take (root_of c')
        # (if length (ln_entries m) < lm then map Drop (rev ?ps) else []) @ es) s"
      using P(1) unfolding route LeafAt by (auto split: if_splits)
    obtain fr' s1 where S: "descend_step key lm im (fr # st) \<lparr>in_entries = child_ids kcs\<rparr> slot s = Inr (case c' of
        LeafAt q m \<Rightarrow> Arrived (fr' # ?st) | NodeAt q kcs \<Rightarrow> Further (fr' # ?st) \<lparr>in_entries = child_ids kcs\<rparr> 0, s1)"
      "carries (guards_of (fr' # ?st)) {} es s1" "guards_live (fr' # ?st) s1"
      "g_page_id (pf_guard fr') = root_of c'" "pool_view s1 = pool_view s" "num_frames s1 = num_frames s" "next_page_id s1 = next_page_id s"
      by (rule descend_step_ok [where cnt = "length (ln_entries m)" and limit = lm and lm = lm and im = im and key = key and slot' = 0,
            OF w P(2) ie stc other]) (simp_all add: LeafAt)
    have run: "descend_loop key lm im (fr # st) \<lparr>in_entries = child_ids kcs\<rparr> slot s = Some (Inr (fr' # ?st, s1))"
      by (subst descend_loop.simps) (simp add: S(1) LeafAt)
    have "at_leaf key (plug (NodeAt p kcs) zs) q' m zs'"
      using pl hl i(4-6) LeafAt by (auto simp: at_leaf_def c'_def)
    moreover have "landed lm im (fr' # ?st) q' m zs' s1" using S(3,4) LeafAt cov by (auto simp: landed_def)
    ultimately show ?thesis unfolding eq run descended_def using S(2,5-7) by blast
  next
    case (NodeAt q' kcs')
    from child_context [of lo' hi' q' kcs' key] i(4-6) NodeAt obtain j where
      j: "find_child_index \<lparr>in_entries = child_ids kcs'\<rparr> key = Inr j" by (auto simp: c'_def)
    let ?st = "if length kcs' < im then [] else fr # st"
    let ?es = "walk (root_of c' # pages_of ?st) (tl (route key lm im c')) @ es"
    have w: "carries (guards_of (fr # st)) {} (Take (root_of c') # Drop (root_of c') # Take (root_of c')
        # (if length kcs' < im then map Drop (rev ?ps) else []) @ ?es) s"
      using P(1) unfolding route NodeAt by (auto split: if_splits)
    obtain fr' s1 where S: "descend_step key lm im (fr # st) \<lparr>in_entries = child_ids kcs\<rparr> slot s = Inr (case c' of
        LeafAt q m \<Rightarrow> Arrived (fr' # ?st) | NodeAt q kcs \<Rightarrow> Further (fr' # ?st) \<lparr>in_entries = child_ids kcs\<rparr> j, s1)"
      "carries (guards_of (fr' # ?st)) {} ?es s1" "guards_live (fr' # ?st) s1"
      "g_page_id (pf_guard fr') = root_of c'" "pool_view s1 = pool_view s" "num_frames s1 = num_frames s" "next_page_id s1 = next_page_id s"
      by (rule descend_step_ok [where cnt = "length kcs'" and limit = im and lm = lm and im = im and key = key and slot' = j,
            OF w P(2) ie stc other]) (simp_all add: NodeAt j)
    have run: "descend_loop key lm im (fr # st) \<lparr>in_entries = child_ids kcs\<rparr> slot s
        = descend_loop key lm im (fr' # ?st) \<lparr>in_entries = child_ids kcs'\<rparr> j s1"
      by (subst descend_loop.simps) (simp add: S(1) NodeAt)
    have IH: "descended carries key lm im (plug c' zs') es s1 (descend_loop key lm im (fr' # ?st) \<lparr>in_entries = child_ids kcs'\<rparr> j s1)"
    proof (rule NodeAt.IH [of "kcs ! i" c'])
      show "kcs ! i \<in> set kcs0" "c' \<in> Basic_BNFs.snds (kcs ! i)" using mem eq by (simp_all add: c'_def snds.simps)
      show "carries (guards_of (fr' # ?st)) {} (walk (pages_of (fr' # ?st)) (tl (route key lm im c')) @ es) s1"
        using S(2,4) by simp
      show "\<forall>f \<in> set (fr' # ?st). g_page_id (pf_guard f) \<in> set (q' # map fst zs')" using S(4) NodeAt pages by auto
      show "if length kcs' < im then ?st = [] else covers im ?st zs'" using cov by simp
    qed (use S(3,4,5) NodeAt hl i(4-6) stc dis j in \<open>simp_all add: c'_def\<close>)
    then show ?thesis unfolding eq run pl [symmetric] by (rule descended_step [OF _ S(5-7)])
  qed
qed

section \<open>From the root\<close>

lemma walk_down_ok:
  assumes w: "carries {#} {} (Take (root_of T) # walk [root_of T] (tl (route key lm im T)) @ es) s" and ord: "ordered INVALID_KEY None T"
    and st: "stored (pool_view s) T" and dis: "distinct (page_ids T)"
  shows "descended carries key lm im T es s (walk_down key lm im (root_of T) s)"
proof -
  let ?es = "walk [root_of T] (tl (route key lm im T)) @ es"
  have "root_of T \<in> set (page_ids T)" by (rule root_in_pages)
  then obtain b where b: "pool_view s (root_of T) = Some b" using stored_exists [OF st] by blast
  obtain g s1 where G: "check_write_page (root_of T) s = Inr (g, s1)" "carries (add_mset (g_frame g) {#}) {} ?es s1"
    "guard_on g s1" "g_page_id g = root_of T" "pool_view s1 = pool_view s" "stays {#} s s1" "next_page_id s1 = next_page_id s"
    by (rule serve_take [OF w b])
  have b1: "pool_view s1 (g_page_id g) = Some b" using b G(4,5) by simp
  define ty where "ty = (case T of LeafAt _ _ \<Rightarrow> LEAF_NODE | NodeAt _ _ \<Rightarrow> INTERNAL_NODE)"
  have "index b 0 = Inr ty" using st b by (cases T) (auto simp: leaf_page_def internal_page_def ty_def)
  then have nt: "node_type_of b = Inr (ty, b)" by (simp add: node_type_of_def)
  obtain s2 where W: "with_data_mut g node_type_of s1 = Inr (ty, s2)" "carries (add_mset (g_frame g) {#}) {} ?es s2"
    "pool_view s2 = (pool_view s1)(g_page_id g \<mapsto> b)" "same_pool s1 s2"
    by (rule serve_write_on [where k = node_type_of, OF G(2,3) _ b1 nt serve_length [OF w b]]) simp
  have on2: "guard_on g s2" by (rule guard_on_same [OF G(3) W(4)])
  have v2: "pool_view s2 = pool_view s" using W(3) G(4,5) b by (simp add: fun_upd_idem)
  have gr: "num_frames s2 = num_frames s" "next_page_id s2 = next_page_id s"
    using W(4) stays_frames [OF G(6)] G(7) by (simp_all add: same_pool_def)
  show ?thesis
  proof (cases T)
    case (LeafAt q m)
    let ?fr = "\<lparr>pf_slot = 2 ^ 64 - 1, pf_guard = g\<rparr>"
    have run: "walk_down key lm im (root_of T) s = Some (Inr ([?fr], s2))"
      using G(1) W(1) LeafAt by (simp add: walk_down_def ty_def)
    have "at_leaf key T q m []" using ord LeafAt by (simp add: at_leaf_def)
    moreover have "landed lm im [?fr] q m [] s2" using on2 G(4) LeafAt by (simp add: landed_def)
    moreover have "carries (guards_of [?fr]) {} es s2" using W(2) LeafAt by simp
    ultimately show ?thesis unfolding run descended_def using v2 gr by blast
  next
    case (NodeAt p kcs)
    obtain slot where slot: "find_child_index \<lparr>in_entries = child_ids kcs\<rparr> key = Inr slot"
      using child_context [OF ord [unfolded NodeAt], of key] by auto
    let ?fr = "\<lparr>pf_slot = slot, pf_guard = g\<rparr>"
    have dec: "internal_decode b = Inr \<lparr>in_entries = child_ids kcs\<rparr>"
      using st b NodeAt by (auto simp: internal_page_def)
    have b2: "pool_view s2 (g_page_id g) = Some b" using b v2 G(4) by simp
    have "with_data g internal_decode s2 = Inr (\<lparr>in_entries = child_ids kcs\<rparr>, s2)"
      using serve_read_on [where k = internal_decode, OF W(2) on2 _ b2 dec] by simp
    then have run: "walk_down key lm im (root_of T) s = descend_loop key lm im [?fr] \<lparr>in_entries = child_ids kcs\<rparr> slot s2"
      using G(1) W(1) slot NodeAt by (simp add: walk_down_def ty_def)
    have "descended carries key lm im (plug T []) es s2 (descend_loop key lm im [?fr] \<lparr>in_entries = child_ids kcs\<rparr> slot s2)"
    proof (rule descend_ok)
      show "carries (guards_of [?fr]) {} (walk (pages_of [?fr]) (tl (route key lm im T)) @ es) s2" using W(2) G(4) by simp
      show "hole INVALID_KEY None []" by simp
      show "\<forall>f \<in> set [?fr]. g_page_id (pf_guard f) \<in> set (p # map fst ([] :: ctx list))" using G(4) NodeAt by simp
    qed (use ord st dis on2 v2 G(4) NodeAt slot in simp_all)
    then show ?thesis unfolding run by (intro descended_step [OF _ v2 gr]) simp
  qed
qed

end

end
