(* ===== verification/BTreeInsert.thy ===== *)
theory BTreeInsert
  imports BTreeDescend
begin

text \<open>
  Insertion into a stored tree: the walk down with its stack of guards, the insertion into the leaf or its
  split, and the way up, for any pool that carries the insertion's requests. The pages end up holding the tree
  that the functions on shapes describe. A pool in which every page has a frame carries them.
\<close>

section \<open>The requests of an insertion\<close>

text \<open>\<open>f\<close> is the next page id. After the walk the leaf is let go; a full one is split, and the climb begins.\<close>

definition at_the_leaf :: "page_id \<Rightarrow> page_id \<Rightarrow> mark list \<Rightarrow> request list" where
  "at_the_leaf header f ms = (case ms of
       [] \<Rightarrow> []
     | (q, spare) # up \<Rightarrow>
         Drop q # (if spare then [] else Alloc # Take q # Take f # Drop f # Drop q # climb header (f + 1) up))"

definition insertion_requests :: "page_id \<Rightarrow> page_id \<Rightarrow> mark list \<Rightarrow> request list" where
  "insertion_requests header f ms =
     Take (fst (hd ms)) # walk [fst (hd ms)] (tl ms) @ at_the_leaf header f (rev ms)"

section \<open>The leaf\<close>

lemma risen_view: "risen header T root s \<Longrightarrow> pool_view s' = pool_view s \<Longrightarrow> risen header T root s'"
  unfolding risen_def by metis

context request_pool
begin

text \<open>Splitting a leaf, with both halves guarded and borrowed.\<close>

lemma split_leaf_ok:
  fixes e :: leaf_kv
  assumes w: "carries G {} (Take q # Take r # Drop r # Drop q # rest) s" and lp: "leaf_page (pool_view s) q m"
    and r: "pool_view s r = Some b'" and ne: "q \<noteq> r"
    and len: "length (ln_entries m) \<le> 511" and pos: "0 < length (ln_entries m)"
  defines "es \<equiv> add_entry e (ln_entries m)" and "mid \<equiv> Suc (length (ln_entries m)) div 2"
  obtains lb rb s' where "split_leaf e q r s = Inr (es ! mid, s')" and "carries G {} rest s'"
    and "pool_view s' = (pool_view s)(r \<mapsto> rb, q \<mapsto> lb)"
    and "\<And>v. v q = Some lb \<Longrightarrow> leaf_page v q \<lparr>ln_next_page_id = r, ln_entries = take mid es\<rparr>"
    and "\<And>v. v r = Some rb \<Longrightarrow> leaf_page v r \<lparr>ln_next_page_id = ln_next_page_id m, ln_entries = drop mid es\<rparr>"
    and "stays G s s'" and "next_page_id s' = next_page_id s"
proof -
  let ?right = "\<lparr>ln_next_page_id = ln_next_page_id m, ln_entries = drop mid es\<rparr>" and ?left = "\<lparr>ln_next_page_id = r, ln_entries = take mid es\<rparr>"
  have mid: "mid < length es" "length es div 2 = mid" "length (take mid es) \<le> 511" "length (drop mid es) \<le> 511"
    using len pos by (auto simp: es_def mid_def)
  from lp obtain b where b: "pool_view s q = Some b" "leaf_decode b = Inr m" by (auto simp: leaf_page_def)
  obtain gl s1 where A: "check_write_page q s = Inr (gl, s1)" "carries (add_mset (g_frame gl) G) {} (Take r # Drop r # Drop q # rest) s1"
    "guard_on gl s1" "g_page_id gl = q" "pool_view s1 = pool_view s" "stays G s s1" "next_page_id s1 = next_page_id s"
    by (rule serve_take [OF w b(1)])
  have b1: "pool_view s1 (g_page_id gl) = Some b" using b A(4,5) by simp
  obtain s2 where B: "guard_borrow_mut gl s1 = Inr s2" "carries (add_mset (g_frame gl) G) {g_frame gl} (Take r # Drop r # Drop q # rest) s2"
    "guard_bytes gl s2 = b" "pool_view s2 = pool_view s1" "same_pool s1 s2"
    by (rule serve_borrow [OF A(2,3) _ _ b1]) simp_all
  have onl2: "guard_on gl s2" by (rule guard_on_same [OF A(3) B(5)])
  have r2: "pool_view s2 r = Some b'" using r A(5) B(4) by simp
  obtain gr s3 where C: "check_write_page r s2 = Inr (gr, s3)"
    "carries (add_mset (g_frame gr) (add_mset (g_frame gl) G)) {g_frame gl} (Drop r # Drop q # rest) s3"
    "guard_on gr s3" "g_page_id gr = r" "pool_view s3 = pool_view s2" "stays (add_mset (g_frame gl) G) s2 s3" "next_page_id s3 = next_page_id s2"
    by (rule serve_take [OF B(2) r2])
  have onl3: "guard_on gl s3" by (rule guard_on_stays [OF onl2 _ C(6)]) simp
  have neq: "g_frame gr \<noteq> g_frame gl" using guard_frames_differ [OF carries_inv [OF C(2)] C(3) onl3] A(4) C(4) ne by simp
  have r3: "pool_view s3 (g_page_id gr) = Some b'" using r2 C(4,5) by simp
  obtain s4 where D: "guard_borrow_mut gr s3 = Inr s4"
    "carries (add_mset (g_frame gr) (add_mset (g_frame gl) G)) (insert (g_frame gr) {g_frame gl}) (Drop r # Drop q # rest) s4"
    "guard_bytes gr s4 = b'" "pool_view s4 = pool_view s3" "same_pool s3 s4"
    by (rule serve_borrow [OF C(2,3) _ _ r3]) (simp_all add: neq)
  have onr4: "guard_on gr s4" and onl4: "guard_on gl s4" by (rule guard_on_same [OF C(3) D(5)], rule guard_on_same [OF onl3 D(5)])
  have blen: "length b' = PAGE_SIZE" by (rule serve_length [OF w r])
  obtain rb where rb: "leaf_encode ?right b' = Inr rb" "length rb = PAGE_SIZE" "\<And>v. v r = Some rb \<Longrightarrow> leaf_page v r ?right"
    using leaf_write_ok [OF blen, of ?right r] mid(4) by (simp only: leaf_node.select_convs) blast
  define s5 where "s5 = guard_set_bytes gr rb s4"
  note S5 = serve_set [OF D(2) onr4 insertI1 rb(2), folded s5_def]
  have onr5: "guard_on gr s5" and onl5: "guard_on gl s5" by (rule guard_on_same [OF onr4 S5(3)], rule guard_on_same [OF onl4 S5(3)])
  have blen5: "length (guard_bytes gl s5) = PAGE_SIZE" by (rule serve_length [OF S5(1) serve_bytes [OF S5(1) onl5]])
  obtain lb where lb: "leaf_encode ?left (guard_bytes gl s5) = Inr lb" "length lb = PAGE_SIZE" "\<And>v. v q = Some lb \<Longrightarrow> leaf_page v q ?left"
    using leaf_write_ok [OF blen5, of ?left q] mid(3) by (simp only: leaf_node.select_convs) blast
  define s6 where "s6 = guard_set_bytes gl lb s5"
  have inL: "g_frame gl \<in> insert (g_frame gr) {g_frame gl}" by simp
  note S6 = serve_set [OF S5(1) onl5 inL lb(2), folded s6_def]
  have onr6: "guard_on gr s6" and onl6: "guard_on gl s6" by (rule guard_on_same [OF onr5 S6(3)], rule guard_on_same [OF onl5 S6(3)])
  obtain s7 where E: "write_guard_drop gr (guard_release_mut gr s6) = Inr s7"
    "carries (add_mset (g_frame gr) (add_mset (g_frame gl) G) - {#g_frame gr#}) (insert (g_frame gr) {g_frame gl} - {g_frame gr}) (Drop q # rest) s7"
    "pool_view s7 = pool_view s6" "same_pool s6 s7"
    by (rule serve_end [OF S6(1) C(4) [symmetric] onr6]) simp_all
  have w7: "carries (add_mset (g_frame gl) G) {g_frame gl} (Drop q # rest) s7" using E(2) neq by (simp add: insert_Diff_if)
  obtain s8 where F: "write_guard_drop gl (guard_release_mut gl s7) = Inr s8"
    "carries (add_mset (g_frame gl) G - {#g_frame gl#}) ({g_frame gl} - {g_frame gl}) rest s8"
    "pool_view s8 = pool_view s7" "same_pool s7 s8"
    by (rule serve_end [OF w7 A(4) [symmetric] guard_on_same [OF onl6 E(4)]]) simp_all
  have ix: "index es mid = Inr (es ! mid)" using mid(1) by simp
  have run: "split_leaf e q r s = Inr (es ! mid, s8)"
    using A(1) B(1,3) b(2) C(1) D(1,3) rb(1) lb(1) E(1) F(1) ix
    by (simp add: split_leaf_def Let_def es_def [symmetric] mid_def [symmetric] s5_def [symmetric] s6_def [symmetric])
  note same = same_pool_trans [OF D(5) same_pool_trans [OF S5(3) same_pool_trans [OF S6(3) same_pool_trans [OF E(4) F(4)]]]]
  have "stays G s2 s3" using C(6) by (simp add: stays_def keeps_pinned_def)
  note st = stays_trans [OF A(6) stays_trans [OF same_pool_stays [OF B(5)] stays_trans [OF this same_pool_stays [OF same]]]]
  show ?thesis
  proof (rule that [OF run])
    show "carries G {} rest s8" using F(2) by simp
    show "pool_view s8 = (pool_view s)(r \<mapsto> rb, q \<mapsto> lb)"
      using F(3) E(3) S6(2) S5(2) D(4) C(4,5) B(4) A(4,5) by simp
    show "next_page_id s8 = next_page_id s" using A(7) same_pool_next [OF B(5)] C(7) same_pool_next [OF same] by simp
  qed (fact lb(3), fact rb(3), fact st)
qed

text \<open>A leaf with room takes the entry; a full one is let go, and the guards above it stay.\<close>

lemma insert_fits:
  assumes w: "carries (guards_of stack) {} (Drop q # rest) s" and land: "landed lm im stack q m zs s"
    and st: "stored (pool_view s) (plug (LeafAt q m) zs)" and dis: "distinct (page_ids (LeafAt q m) @ ctx_pages zs)"
    and fits: "length (ln_entries m) < lm" and lm: "lm \<le> 511"
  obtains s' where "insert_into_leaf e lm stack s = Inr (INVALID_PAGE_ID, [], s')" and "carries {#} {} rest s'"
    and "stored (pool_view s') (plug (LeafAt q (m\<lparr>ln_entries := add_entry e (ln_entries m)\<rparr>)) zs)"
    and "\<And>p. p \<noteq> q \<Longrightarrow> pool_view s' p = pool_view s p" and "same_pool s s'"
proof -
  let ?m = "m\<lparr>ln_entries := add_entry e (ln_entries m)\<rparr>"
  from land fits obtain fr where fr: "stack = [fr]" "g_page_id (pf_guard fr) = q" "guard_on (pf_guard fr) s"
    by (auto simp: landed_def)
  let ?g = "pf_guard fr"
  from st obtain b where b: "pool_view s q = Some b" "leaf_decode b = Inr m" and ctx: "ctx_stored (pool_view s) q zs"
    by (auto simp: plug_stored leaf_page_def)
  have bg: "pool_view s (g_page_id ?g) = Some b" using b(1) fr(2) by simp
  have "length (ln_entries ?m) \<le> 511" using fits lm by simp
  then obtain bs where bs: "leaf_encode ?m b = Inr bs" "length bs = PAGE_SIZE" "\<And>v. v q = Some bs \<Longrightarrow> leaf_page v q ?m"
    using leaf_write_ok [OF serve_length [OF w b(1)], of ?m q] by blast
  have k: "leaf_insert_of e lm q b = Inr (INVALID_PAGE_ID, bs)"
    using b(2) bs(1) fits by (simp add: leaf_insert_of_def Let_def)
  obtain s1 where W: "with_data_mut ?g (leaf_insert_of e lm q) s = Inr (INVALID_PAGE_ID, s1)" "carries (guards_of stack) {} (Drop q # rest) s1"
    "pool_view s1 = (pool_view s)(g_page_id ?g \<mapsto> bs)" "same_pool s s1"
    by (rule serve_write_on [where k = "leaf_insert_of e lm q", OF w fr(3) _ bg k bs(2)]) simp
  obtain s2 where D: "write_guard_drop ?g s1 = Inr s2" "carries (guards_of stack - {#g_frame ?g#}) {} rest s2"
    "pool_view s2 = pool_view s1" "same_pool s1 s2"
    by (rule serve_drop [OF W(2) fr(2) [symmetric] guard_on_same [OF fr(3) W(4)]]) (simp_all add: fr(1))
  have view: "pool_view s2 = (pool_view s)(q \<mapsto> bs)" using D(3) W(3) fr(2) by simp
  show ?thesis
  proof (rule that)
    show "insert_into_leaf e lm stack s = Inr (INVALID_PAGE_ID, [], s2)" using W(1) D(1) fr(1,2) by (simp add: insert_into_leaf_def Let_def)
    show "carries {#} {} rest s2" using D(2) fr(1) by simp
    show "same_pool s s2" by (rule same_pool_trans [OF W(4) D(4)])
    have "leaf_page (pool_view s2) q ?m" by (intro bs(3)) (simp add: view)
    moreover have "ctx_stored (pool_view s2) q zs" using ctx dis by (simp add: view)
    ultimately show "stored (pool_view s2) (plug (LeafAt q ?m) zs)" by (simp add: plug_stored)
    show "pool_view s2 p = pool_view s p" if "p \<noteq> q" for p using that by (simp add: view)
  qed
qed

lemma insert_full:
  assumes w: "carries (guards_of stack) {} (Drop q # rest) s" and land: "landed lm im stack q m zs s"
    and st: "stored (pool_view s) (plug (LeafAt q m) zs)" and full: "\<not> length (ln_entries m) < lm"
  obtains st' s' where "insert_into_leaf e lm stack s = Inr (q, st', s')" and "carries (guards_of st') {} rest s'"
    and "guards_live st' s'" and "covers im st' zs" and "pool_view s' = pool_view s" and "same_pool s s'"
proof -
  from land full obtain fr st' where fr: "stack = fr # st'" "g_page_id (pf_guard fr) = q" "guard_on (pf_guard fr) s" "guards_live st' s"
    "covers im st' zs" by (auto simp: landed_def)
  let ?g = "pf_guard fr"
  from st obtain b where b: "pool_view s q = Some b" "leaf_decode b = Inr m" by (auto simp: plug_stored leaf_page_def)
  have bg: "pool_view s (g_page_id ?g) = Some b" using b(1) fr(2) by simp
  have k: "leaf_insert_of e lm q b = Inr (q, b)" using b(2) full by (simp add: leaf_insert_of_def Let_def)
  obtain s1 where W: "with_data_mut ?g (leaf_insert_of e lm q) s = Inr (q, s1)" "carries (guards_of stack) {} (Drop q # rest) s1"
    "pool_view s1 = (pool_view s)(g_page_id ?g \<mapsto> b)" "same_pool s s1"
    by (rule serve_write_on [where k = "leaf_insert_of e lm q", OF w fr(3) _ bg k serve_length [OF w b(1)]]) simp
  obtain s2 where D: "write_guard_drop ?g s1 = Inr s2" "carries (guards_of stack - {#g_frame ?g#}) {} rest s2"
    "pool_view s2 = pool_view s1" "same_pool s1 s2"
    by (rule serve_drop [OF W(2) fr(2) [symmetric] guard_on_same [OF fr(3) W(4)]]) (simp_all add: fr(1))
  note same = same_pool_trans [OF W(4) D(4)]
  show ?thesis
  proof (rule that)
    show "insert_into_leaf e lm stack s = Inr (q, st', s2)" using W(1) D(1) fr(1,2) by (simp add: insert_into_leaf_def Let_def)
    show "carries (guards_of st') {} rest s2" using D(2) fr(1) by simp
    show "guards_live st' s2" by (rule guards_live_same [OF fr(4) same])
    show "pool_view s2 = pool_view s" using D(3) W(3) fr(2) b(1) by (simp add: fun_upd_idem)
  qed (fact fr(5), fact same)
qed

section \<open>After the walk\<close>

text \<open>The leaf is split and the separator goes up.\<close>

lemma insert_at_splits:
  fixes e :: leaf_kv
  assumes w: "carries (guards_of stack) {} (at_the_leaf header (next_page_id s) ((q, False) # marks im zs) @ rest) s"
    and land: "landed lm im stack q m zs s"
    and st: "stored (pool_view s) (plug (LeafAt q m) zs)" and dis: "distinct (header # page_ids (LeafAt q m) @ ctx_pages zs)"
    and hb: "pool_view s header = Some hb" "get_root_page_id hb = Inr root" "root = root_of (plug (LeafAt q m) zs)"
    and sz: "ctx_sized lm im zs" "length (ln_entries m) \<le> lm" "1 \<le> lm" "lm \<le> 511" "im \<le> 681"
    and full: "\<not> length (ln_entries m) < lm" and spare: "unat (next_page_id s) + Suc (new_pages im zs) < 2 ^ 32"
  defines "es \<equiv> add_entry e (ln_entries m)" and "mid \<equiv> Suc (length (ln_entries m)) div 2"
  obtains st1 s1 s2 s3 root' s4 where "insert_into_leaf e lm stack s = Inr (q, st1, s1)"
    and "new_page s1 = Inr (next_page_id s, s2)" and "split_leaf e q (next_page_id s) s2 = Inr (es ! mid, s3)"
    and "propagate header im root st1 (fst (es ! mid), next_page_id s) q s3 = Inr ([], root', s4)"
    and "carries {#} {} rest s4" and "risen header (insert_shape lm im e (next_page_id s) q m zs) root' s4"
    and "unat (next_page_id s4) = unat (next_page_id s) + Suc (new_pages im zs)" and "num_frames s4 = num_frames s"
proof -
  let ?r = "next_page_id s" and ?v = "pool_view s"
  let ?L = "LeafAt q \<lparr>ln_next_page_id = ?r, ln_entries = take mid es\<rparr>"
    and ?R = "LeafAt ?r \<lparr>ln_next_page_id = ln_next_page_id m, ln_entries = drop mid es\<rparr>"
  let ?up = "climb header (?r + 1) (marks im zs) @ rest"
  have w0: "carries (guards_of stack) {} (Drop q # Alloc # Take q # Take ?r # Drop ?r # Drop q # ?up) s"
    using w by (simp add: at_the_leaf_def)
  obtain st1 s1 where A: "insert_into_leaf e lm stack s = Inr (q, st1, s1)"
    "carries (guards_of st1) {} (Alloc # Take q # Take ?r # Drop ?r # Drop q # ?up) s1" "guards_live st1 s1" "covers im st1 zs"
    "pool_view s1 = ?v" "same_pool s s1" by (rule insert_full [OF w0 land st full])
  have nx1: "next_page_id s1 = ?r" by (rule same_pool_next [OF A(6)])
  have spare1: "unat (next_page_id s1) + 1 < 2 ^ 32" using spare nx1 by simp
  from serve_alloc [OF A(2) spare1] obtain s2 where N: "new_page s1 = Inr (?r, s2)"
    "carries (guards_of st1) {} (Take q # Take ?r # Drop ?r # Drop q # ?up) s2"
    "pool_view s2 = ?v(?r \<mapsto> replicate PAGE_SIZE 0)" "?v ?r = None" "page_table s2 = page_table s1" "num_frames s2 = num_frames s1"
    "next_page_id s2 = ?r + 1" "unat (next_page_id s2) = unat ?r + 1" unfolding A(5) nx1 by blast
  have stq: "leaf_page ?v q m" "ctx_stored ?v q zs" using st by (simp_all add: plug_stored)
  have fresh: "?r \<noteq> q" "?r \<noteq> header" "?r \<notin> set (ctx_pages zs)"
    using N(4) stq(1) hb(1) fresh_not_ctx [OF stq(2) N(4)] by (auto simp: leaf_page_def)
  have lp: "leaf_page (pool_view s2) q m" using stq(1) fresh(1) by (simp add: leaf_page_def N(3))
  have rv: "pool_view s2 ?r = Some (replicate PAGE_SIZE 0)" by (simp add: N(3))
  have len: "length (ln_entries m) \<le> 511" "0 < length (ln_entries m)" using sz full by auto
  obtain lb rb s3 where P: "split_leaf e q ?r s2 = Inr (es ! mid, s3)" "carries (guards_of st1) {} ?up s3"
    "pool_view s3 = (pool_view s2)(?r \<mapsto> rb, q \<mapsto> lb)"
    "\<And>v. v q = Some lb \<Longrightarrow> leaf_page v q \<lparr>ln_next_page_id = ?r, ln_entries = take mid es\<rparr>"
    "\<And>v. v ?r = Some rb \<Longrightarrow> leaf_page v ?r \<lparr>ln_next_page_id = ln_next_page_id m, ln_entries = drop mid es\<rparr>"
    "stays (guards_of st1) s2 s3" "next_page_id s3 = next_page_id s2"
    unfolding es_def mid_def by (rule split_leaf_ok [where e = e, OF N(2) lp rv fresh(1) [symmetric] len]) blast
  have view: "pool_view s3 = ?v(?r \<mapsto> replicate PAGE_SIZE 0, ?r \<mapsto> rb, q \<mapsto> lb)" using P(3) N(3) by simp
  have st13: "stays (guards_of st1) s1 s3" by (rule stays_trans [OF same_table_stays [OF N(5,6)] P(6)])
  have nf: "num_frames s3 = num_frames s" using stays_frames [OF st13] A(6) by (simp add: same_pool_def)
  have rising: "rising header root im st1 ?L ?R zs s3" unfolding rising_def
  proof (intro conjI)
    show "guards_live st1 s3" by (rule guards_live_stays [OF A(3), of "{#}"]) (use st13 in simp)
    show "stored (pool_view s3) ?L" unfolding stored.simps by (rule P(4)) (simp add: view)
    show "stored (pool_view s3) ?R" unfolding stored.simps by (rule P(5)) (use fresh(1) in \<open>simp add: view\<close>)
    show "ctx_stored (pool_view s3) (root_of ?L) zs" using stq(2) dis fresh(3) by (simp add: view)
    show "distinct (header # page_ids ?L @ page_ids ?R @ ctx_pages zs)" using dis fresh by auto
    show "\<exists>hb. pool_view s3 header = Some hb \<and> get_root_page_id hb = Inr root" using hb dis fresh(2) by (simp add: view)
    show "root = root_of (plug ?L zs)" unfolding hb(3) by (rule root_of_plug) simp
    show "unat (next_page_id s3) + new_pages im zs < 2 ^ 32" using P(7) N(8) spare by simp
  qed (fact A(4))
  have w3: "carries (guards_of st1) {} (climb header (next_page_id s3) (marks im zs) @ rest) s3" using P(2,7) N(7) by simp
  obtain root' s4 where Q: "propagate header im root st1 (fst (es ! mid), root_of ?R) (root_of ?L) s3 = Inr ([], root', s4)"
    "carries {#} {} rest s4" "risen header (grow_up im (next_page_id s3) ?L (fst (es ! mid)) ?R zs) root' s4"
    "unat (next_page_id s4) = unat (next_page_id s3) + new_pages im zs" "num_frames s4 = num_frames s3"
    by (rule propagate_ok [OF w3 rising sz(1,5)])
  have shape: "insert_shape lm im e ?r q m zs = grow_up im (next_page_id s3) ?L (fst (es ! mid)) ?R zs"
    using full P(7) N(7) by (simp add: insert_shape_def Let_def es_def mid_def not_less_eq_eq)
  show ?thesis
  proof (rule that [OF A(1) N(1) P(1)])
    show "propagate header im root st1 (fst (es ! mid), ?r) q s3 = Inr ([], root', s4)" using Q(1) by simp
    show "risen header (insert_shape lm im e ?r q m zs) root' s4" unfolding shape by (rule Q(3))
    show "unat (next_page_id s4) = unat ?r + Suc (new_pages im zs)" using Q(4) P(7) N(8) by simp
    show "num_frames s4 = num_frames s" using Q(5) nf by simp
  qed (fact Q(2))
qed

lemma insert_at_ok:
  fixes t :: btree
  defines "header \<equiv> bt_header_page_id t" and "root \<equiv> bt_root_page_id t" and "lm \<equiv> unat (bt_leaf_max t)" and "im \<equiv> unat (bt_internal_max t)"
  assumes w: "carries (guards_of stack) {} (at_the_leaf header (next_page_id s) ((q, length (ln_entries m) < lm) # marks im zs) @ rest) s"
    and land: "landed lm im stack q m zs s"
    and st: "stored (pool_view s) (plug (LeafAt q m) zs)" and dis: "distinct (header # page_ids (LeafAt q m) @ ctx_pages zs)"
    and hb: "pool_view s header = Some hb" "get_root_page_id hb = Inr root" "root = root_of (plug (LeafAt q m) zs)"
    and sz: "ctx_sized lm im zs" "length (ln_entries m) \<le> lm" "1 \<le> lm" "lm \<le> 511" "im \<le> 681"
    and spare: "unat (next_page_id s) + insert_pages lm im m zs < 2 ^ 32"
  obtains root' s' where "insert_at e stack s t = Inr (t\<lparr>bt_root_page_id := root', bt_pool := s'\<rparr>)" and "carries {#} {} rest s'"
    and "risen header (insert_shape lm im e (next_page_id s) q m zs) root' s'"
    and "unat (next_page_id s') = unat (next_page_id s) + insert_pages lm im m zs" and "num_frames s' = num_frames s"
proof (cases "length (ln_entries m) < lm")
  case True
  have "distinct (page_ids (LeafAt q m) @ ctx_pages zs)" using dis by simp
  moreover have "carries (guards_of stack) {} (Drop q # rest) s" using w True by (simp add: at_the_leaf_def)
  ultimately obtain s1 where A: "insert_into_leaf e lm stack s = Inr (INVALID_PAGE_ID, [], s1)" "carries {#} {} rest s1"
      "stored (pool_view s1) (plug (LeafAt q (m\<lparr>ln_entries := add_entry e (ln_entries m)\<rparr>)) zs)"
      "\<And>p. p \<noteq> q \<Longrightarrow> pool_view s1 p = pool_view s p" "same_pool s s1"
    using insert_fits [OF _ land st _ True sz(4), of rest e] by metis
  have shape: "insert_shape lm im e (next_page_id s) q m zs = plug (LeafAt q (m\<lparr>ln_entries := add_entry e (ln_entries m)\<rparr>)) zs"
    using True by (simp add: insert_shape_def Let_def)
  have "header \<noteq> q" using dis by auto
  then have "risen header (insert_shape lm im e (next_page_id s) q m zs) root s1"
    unfolding risen_def shape using A(3,4) hb root_of_plug [of "LeafAt q m" "LeafAt q (m\<lparr>ln_entries := add_entry e (ln_entries m)\<rparr>)" zs] by simp
  moreover have "insert_at e stack s t = Inr (t\<lparr>bt_root_page_id := root, bt_pool := s1\<rparr>)"
    using A(1) by (simp add: insert_at_def lm_def root_def)
  moreover have "insert_pages lm im m zs = 0" using True by (simp add: insert_pages_def)
  ultimately show ?thesis using that [where root' = root and s' = s1] A(2,5) by (simp add: same_pool_def)
next
  case False
  have sp: "unat (next_page_id s) + Suc (new_pages im zs) < 2 ^ 32" using spare False by (simp add: insert_pages_def)
  let ?mid = "Suc (length (ln_entries m)) div 2" and ?es = "add_entry e (ln_entries m)"
  have w': "carries (guards_of stack) {} (at_the_leaf header (next_page_id s) ((q, False) # marks im zs) @ rest) s" using w False by simp
  obtain st1 s1 s2 s3 root' s4 where B: "insert_into_leaf e lm stack s = Inr (q, st1, s1)"
    "new_page s1 = Inr (next_page_id s, s2)" "split_leaf e q (next_page_id s) s2 = Inr (?es ! ?mid, s3)"
    "propagate header im root st1 (fst (?es ! ?mid), next_page_id s) q s3 = Inr ([], root', s4)"
    "carries {#} {} rest s4" "risen header (insert_shape lm im e (next_page_id s) q m zs) root' s4"
    "unat (next_page_id s4) = unat (next_page_id s) + Suc (new_pages im zs)" "num_frames s4 = num_frames s"
    by (rule insert_at_splits [where e = e, OF w' land st dis hb sz False sp])
  have "q \<noteq> INVALID_PAGE_ID" using st serve_valid [OF w] by (auto simp: plug_stored leaf_page_def)
  then have "insert_at e stack s t = Inr (t\<lparr>bt_root_page_id := root', bt_pool := s4\<rparr>)"
    using B(1-4) by (simp add: insert_at_def lm_def root_def im_def header_def)
  moreover have "insert_pages lm im m zs = Suc (new_pages im zs)" using False by (simp add: insert_pages_def)
  ultimately show ?thesis using that [where root' = root' and s' = s4] B(5-8) by simp
qed

end

section \<open>The whole insertion\<close>

text \<open>A tree object that insertion keeps: it holds a well-formed shape under the node sizes it was given, and
  these are such that every node fits its page.\<close>

definition tree_inv :: "btree \<Rightarrow> shape \<Rightarrow> bool" where
  "tree_inv t T \<longleftrightarrow> represents t T \<and> well_formed (unat (bt_leaf_max t)) (unat (bt_internal_max t)) T
     \<and> bt_header_page_id t \<notin> set (page_ids T)
     \<and> 1 \<le> unat (bt_leaf_max t) \<and> unat (bt_leaf_max t) \<le> 511 \<and> 2 \<le> unat (bt_internal_max t) \<and> unat (bt_internal_max t) \<le> 681"

lemma room_working: "pool_idle s \<Longrightarrow> room n s \<Longrightarrow> working {#} {} n s"
  by (simp add: room_def working_def)

lemma working_room: "working {#} {} n s \<Longrightarrow> pool_idle s \<and> room n s"
  by (simp add: room_def working_def)

text \<open>An insertion takes at most one page for each level, and one for a new root.\<close>

lemma insert_pages_bound:
  assumes "tree_inv t T" and "at_leaf key T q m zs"
  shows "insert_pages lm im m zs \<le> height T + 1"
proof -
  obtain h where h: "balanced h T" using assms(1) by (auto simp: tree_inv_def well_formed_def)
  have "h = 1 + length zs" using plug_balancedD [of h "LeafAt q m" zs] h assms(2) by (auto simp: at_leaf_def)
  then show ?thesis using balanced_height [OF h] new_pages_le [of im zs] by (simp add: insert_pages_def)
qed

lemma insert_pages_spare:
  assumes "tree_inv t T" and "n + height T + 1 \<le> F"
  shows "\<forall>q m zs. at_leaf key T q m zs \<longrightarrow> n + insert_pages lm im m zs \<le> F"
proof (intro allI impI)
  fix q m zs assume "at_leaf key T q m zs"
  from insert_pages_bound [OF assms(1) this, of lm im] assms(2) show "n + insert_pages lm im m zs \<le> F" by linarith
qed

context request_pool
begin

text \<open>The insertion, with the leaf it reaches and the pages it takes.\<close>

lemma btree_insert_runs:
  fixes p :: page_id and slot_num :: u32
  assumes inv: "tree_inv t T" and new: "key \<notin> fst ` set (contents T)"
    and w: "carries {#} {} (insertion_requests (bt_header_page_id t) (next_page_id (bt_pool t))
      (route key (unat (bt_leaf_max t)) (unat (bt_internal_max t)) T) @ rest) (bt_pool t)"
    and small: "unat (next_page_id (bt_pool t)) + height T + 1 < 2 ^ 32"
  defines "e \<equiv> (key, \<lparr>rid_page_id = p, rid_slot_num = slot_num\<rparr>)"
  obtains t' T' q m zs where "btree_insert key p slot_num t = Some (Inr t')" and "tree_inv t' T'" and "contents T' = add_entry e (contents T)"
    and "carries {#} {} rest (bt_pool t')" and "height T' \<le> Suc (height T)" and "num_frames (bt_pool t') = num_frames (bt_pool t)"
    and "t' = t\<lparr>bt_root_page_id := root_of T', bt_pool := bt_pool t'\<rparr>" and "at_leaf key T q m zs"
    and "T' = insert_shape (unat (bt_leaf_max t)) (unat (bt_internal_max t)) e (next_page_id (bt_pool t)) q m zs"
    and "unat (next_page_id (bt_pool t')) = unat (next_page_id (bt_pool t)) + insert_pages (unat (bt_leaf_max t)) (unat (bt_internal_max t)) m zs"
proof -
  let ?s = "bt_pool t" and ?lm = "unat (bt_leaf_max t)" and ?im = "unat (bt_internal_max t)" and ?header = "bt_header_page_id t"
  let ?rt = "route key ?lm ?im T"
  from inv obtain hb where R: "pool_idle ?s" "0 < num_frames ?s" "bt_root_page_id t = root_of T" "pool_view ?s ?header = Some hb"
    "get_root_page_id hb = Inr (root_of T)" "ordered INVALID_KEY None T" "stored (pool_view ?s) T"
    by (auto simp: tree_inv_def represents_def pool_ready_def)
  have I: "well_formed ?lm ?im T" "?header \<notin> set (page_ids T)" "1 \<le> ?lm" "?lm \<le> 511" "2 \<le> ?im" "?im \<le> 681"
    using inv by (simp_all add: tree_inv_def)
  have dis: "distinct (page_ids T)" "sized ?lm ?im T" using I(1) by (simp_all add: well_formed_def)
  have "fst (hd ?rt) = root_of T" by (subst route_root) simp
  then have w0: "carries {#} {} (Take (root_of T) # walk [root_of T] (tl ?rt) @ at_the_leaf ?header (next_page_id ?s) (rev ?rt) @ rest) ?s"
    using w by (simp add: insertion_requests_def)
  from walk_down_ok [OF w0 R(6,7) dis(1)] obtain stack s1 q m zs where
    D: "walk_down key ?lm ?im (root_of T) ?s = Some (Inr (stack, s1))" "at_leaf key T q m zs" "landed ?lm ?im stack q m zs s1"
      "carries (guards_of stack) {} (at_the_leaf ?header (next_page_id ?s) (rev ?rt) @ rest) s1" "pool_view s1 = pool_view ?s"
      "num_frames s1 = num_frames ?s" "next_page_id s1 = next_page_id ?s" by (auto simp: descended_def)
  have T: "plug (LeafAt q m) zs = T" using D(2) by (simp add: at_leaf_def)
  have fits: "unat (next_page_id ?s) + insert_pages ?lm ?im m zs < 2 ^ 32" using insert_pages_bound [OF inv D(2), of ?lm ?im] small by linarith
  have below_next: "r < next_page_id ?s" if "pool_view ?s r \<noteq> None" for r
    using pool_view_dom [OF R(1)] that by (auto simp: dom_def)
  have old: "\<forall>r \<in> set (page_ids T). r < next_page_id ?s" using stored_exists [OF R(7)] below_next by blast
  define T' where "T' = insert_shape ?lm ?im e (next_page_id ?s) q m zs"
  have "fst e = key" by (simp add: e_def)
  note S = insert_shape_ok [OF D(2) this new I(1) R(6) I(3,5) old fits, folded T'_def]
  have w1: "carries (guards_of stack) {} (at_the_leaf ?header (next_page_id s1) ((q, length (ln_entries m) < ?lm) # marks ?im zs) @ rest) s1"
    using D(4) unfolding route_leaf [OF D(2)] D(7) by simp
  have st1: "stored (pool_view s1) (plug (LeafAt q m) zs)" using R(7) D(5) T by simp
  have dz: "distinct (?header # page_ids (LeafAt q m) @ ctx_pages zs)"
  proof -
    have "mset (page_ids T) = mset (page_ids (LeafAt q m) @ ctx_pages zs)" using plug_pages [of "LeafAt q m" zs] T by simp
    from distinct_mset_cong [OF this] dis(1) I(2) show ?thesis by auto
  qed
  have hb1: "pool_view s1 ?header = Some hb" "get_root_page_id hb = Inr (bt_root_page_id t)" "bt_root_page_id t = root_of (plug (LeafAt q m) zs)"
    using R(3-5) D(5) T by simp_all
  have sz: "ctx_sized ?lm ?im zs" "length (ln_entries m) \<le> ?lm" using dis(2) T plug_sized [of ?lm ?im "LeafAt q m" zs] by simp_all
  have sp1: "unat (next_page_id s1) + insert_pages ?lm ?im m zs < 2 ^ 32" using fits D(7) by simp
  obtain root' s' where A: "insert_at e stack s1 t = Inr (t\<lparr>bt_root_page_id := root', bt_pool := s'\<rparr>)" "carries {#} {} rest s'"
    "risen ?header (insert_shape ?lm ?im e (next_page_id s1) q m zs) root' s'"
    "unat (next_page_id s') = unat (next_page_id s1) + insert_pages ?lm ?im m zs" "num_frames s' = num_frames s1"
    by (rule insert_at_ok [where e = e, OF w1 D(3) st1 dz hb1 sz I(3,4,6) sp1])
  let ?t' = "t\<lparr>bt_root_page_id := root', bt_pool := s'\<rparr>"
  have ris: "risen ?header T' root' s'" using A(3) D(7) by (simp add: T'_def)
  have root: "root' = root_of T'" using ris by (simp add: risen_def)
  have fin: "pool_idle s'" by (rule carries_inv [OF A(2)])
  have fr: "num_frames s' = num_frames ?s" "unat (next_page_id s') = unat (next_page_id ?s) + insert_pages ?lm ?im m zs"
    using A(4,5) D(6,7) by simp_all
  have "?header \<notin> set (page_ids T')" using S(4) I(2) below_next [of ?header] R(4) by fastforce
  moreover obtain hb' where hb': "pool_view s' ?header = Some hb'" "get_root_page_id hb' = Inr (root_of T')"
    using ris root by (auto simp: risen_def)
  have "stored (pool_view s') T'" using ris by (simp add: risen_def)
  with hb' fin R(2) fr(1) S(1) root have "represents ?t' T'" by (simp add: represents_def pool_ready_def)
  ultimately have "tree_inv ?t' T'" using S(2) I by (simp add: tree_inv_def)
  moreover have "bt_root_page_id t \<noteq> INVALID_PAGE_ID"
  proof -
    obtain b where "pool_view ?s (root_of T) = Some b" using stored_exists [OF R(7) root_in_pages] by blast
    with ready_page_valid [of ?s "root_of T"] R(1-3) show ?thesis by (simp add: pool_ready_def)
  qed
  then have "btree_insert key p slot_num t = Some (Inr ?t')" using D(1) A(1) R(3) by (simp add: btree_insert_def Let_def e_def)
  ultimately show ?thesis using S(3,5) A(2) fr root D(2) by (intro that [of ?t' T' q m zs]) (simp_all add: T'_def)
qed

end

section \<open>While every page has a frame\<close>

text \<open>The guards an insertion takes, and the pages.\<close>

lemma takes_drops [simp]: "takes (map Drop ps) = 0" "count_list (map Drop ps) Alloc = 0"
  by (induction ps) simp_all

lemma takes_walk: "takes (walk ps ms) = 2 * length ms" and allocs_walk: "count_list (walk ps ms) Alloc = 0"
  by (induction ps ms rule: walk.induct) simp_all

lemma takes_climb: "takes (climb header f ms) \<le> length ms + 2"
  and allocs_climb: "count_list (climb header f (marks im zs)) Alloc = new_pages im zs"
proof -
  show "takes (climb header f ms) \<le> length ms + 2"
    by (induction header f ms rule: climb.induct) simp_all
  show "count_list (climb header f (marks im zs)) Alloc = new_pages im zs"
    by (induction im zs arbitrary: f rule: new_pages.induct) simp_all
qed

lemma insertion_counts:
  assumes "at_leaf key T q m zs"
  shows "takes (insertion_requests header f (route key lm im T)) \<le> 3 * length zs + 5"
    and "count_list (insertion_requests header f (route key lm im T)) Alloc = insert_pages lm im m zs"
proof -
  have "length (tl (route key lm im T)) = length zs" by (simp add: route_leaf [OF assms] marks_def)
  with takes_climb [of header "f + 1" "marks im zs"]
  show "takes (insertion_requests header f (route key lm im T)) \<le> 3 * length zs + 5"
    by (simp add: insertion_requests_def at_the_leaf_def takes_walk) (simp add: route_leaf [OF assms] marks_def)
  show "count_list (insertion_requests header f (route key lm im T)) Alloc = insert_pages lm im m zs"
    by (simp add: insertion_requests_def at_the_leaf_def allocs_walk) (simp add: route_leaf [OF assms] insert_pages_def allocs_climb)
qed

lemma leaf_below:
  "hole lo hi zs \<Longrightarrow> ordered lo hi c \<Longrightarrow> lo \<le> key \<Longrightarrow> below key hi \<Longrightarrow> \<exists>q m zs'. at_leaf key (plug c zs) q m zs'"
proof (induction c arbitrary: lo hi zs)
  case (LeafAt q m)
  then show ?case unfolding at_leaf_def by blast
next
  case (NodeAt p kcs)
  from child_context [OF NodeAt.prems(2-4)] obtain i lo' hi' where
    i: "i < length kcs" "frame_ok lo hi (take i kcs) (fst (kcs ! i)) (drop (Suc i) kcs) lo' hi'"
      "ordered lo' hi' (snd (kcs ! i))" "lo' \<le> key" "below key hi'" .
  have "take i kcs @ (fst (kcs ! i), snd (kcs ! i)) # drop (Suc i) kcs = kcs" using id_take_nth_drop [OF i(1)] by simp
  moreover have "hole lo' hi' ((p, take i kcs, fst (kcs ! i), drop (Suc i) kcs) # zs)" using NodeAt.prems(1) i(2) by auto
  moreover have "kcs ! i \<in> set kcs" "snd (kcs ! i) \<in> Basic_BNFs.snds (kcs ! i)" using i(1) by (simp_all add: snds.simps)
  ultimately show ?case
    using NodeAt.IH [of "kcs ! i" "snd (kcs ! i)" lo' hi' "(p, take i kcs, fst (kcs ! i), drop (Suc i) kcs) # zs"] i(3-5) by simp
qed

lemma at_leaf_exists: "ordered INVALID_KEY None T \<Longrightarrow> \<exists>q m zs. at_leaf key T q m zs"
  using leaf_below [of INVALID_KEY None "[]" T key] by simp

text \<open>A pool that has a frame for the pages the insertion takes carries it.\<close>

lemma resident_carries:
  assumes inv: "tree_inv t T" and rm: "room (n + 6 * height T + 10) (bt_pool t)"
    and spare: "\<forall>q m zs. at_leaf key T q m zs \<longrightarrow>
      unat (next_page_id (bt_pool t)) + insert_pages lm im m zs \<le> num_frames (bt_pool t)"
  shows "has_frames {#} {} (insertion_requests header f (route key lm im T) @ replicate (Suc n div 2) (Take 0)) (bt_pool t)"
proof -
  have idle: "pool_idle (bt_pool t)" and ord: "ordered INVALID_KEY None T"
    using inv by (auto simp: tree_inv_def represents_def pool_ready_def)
  from at_leaf_exists [OF ord] obtain q m zs where at: "at_leaf key T q m zs" by blast
  obtain h where h: "balanced h T" using inv by (auto simp: tree_inv_def well_formed_def)
  have "h = 1 + length zs" using plug_balancedD [of h "LeafAt q m" zs] h at by (auto simp: at_leaf_def)
  then have ht: "height T = Suc (length zs)" using balanced_height [OF h] by simp
  have rep: "takes (replicate k (Take 0)) = k" "count_list (replicate k (Take 0)) Alloc = 0" for k by (induction k) simp_all
  have "working {#} {} (n + 6 * height T + 10) (bt_pool t)" by (rule room_working [OF idle rm])
  then have "working {#} {} (2 * takes (insertion_requests header f (route key lm im T) @ replicate (Suc n div 2) (Take 0))) (bt_pool t)"
    by (rule working_less) (use insertion_counts(1) [OF at, of header f lm im] ht rep in simp)
  then show ?thesis using spare at insertion_counts(2) [OF at, of header f lm im] rep by (simp add: has_frames_def)
qed

lemma btree_insert_exact:
  fixes p :: page_id and slot_num :: u32
  assumes inv: "tree_inv t T" and rm: "room (n + 6 * height T + 10) (bt_pool t)"
    and spare: "\<forall>q m zs. at_leaf key T q m zs \<longrightarrow>
      unat (next_page_id (bt_pool t)) + insert_pages (unat (bt_leaf_max t)) (unat (bt_internal_max t)) m zs \<le> num_frames (bt_pool t)"
    and new: "key \<notin> fst ` set (contents T)"
  defines "e \<equiv> (key, \<lparr>rid_page_id = p, rid_slot_num = slot_num\<rparr>)"
  obtains t' T' q m zs where "btree_insert key p slot_num t = Some (Inr t')" and "tree_inv t' T'" and "contents T' = add_entry e (contents T)"
    and "room n (bt_pool t')" and "height T' \<le> Suc (height T)" and "num_frames (bt_pool t') = num_frames (bt_pool t)"
    and "t' = t\<lparr>bt_root_page_id := root_of T', bt_pool := bt_pool t'\<rparr>" and "at_leaf key T q m zs"
    and "T' = insert_shape (unat (bt_leaf_max t)) (unat (bt_internal_max t)) e (next_page_id (bt_pool t)) q m zs"
    and "unat (next_page_id (bt_pool t')) = unat (next_page_id (bt_pool t)) + insert_pages (unat (bt_leaf_max t)) (unat (bt_internal_max t)) m zs"
proof -
  have "height T < 2 ^ 30" using rm by (simp add: room_def)
  moreover have "unat (next_page_id (bt_pool t)) \<le> num_frames (bt_pool t)" "num_frames (bt_pool t) < 2 ^ 30"
    using inv rm by (auto simp: room_def resident_def tree_inv_def represents_def pool_ready_def pool_inv_def replacer_ok_def arc_inv_def)
  ultimately have small: "unat (next_page_id (bt_pool t)) + height T + 1 < 2 ^ 32" by simp
  note w = resident_carries [OF inv rm spare]
  have rm': "room n s" if "has_frames {#} {} (replicate (Suc n div 2) (Take 0)) s" for s
  proof -
    have "takes (replicate k (Take 0)) = k" for k by (induction k) simp_all
    with that have "working {#} {} (2 * (Suc n div 2)) s" by (simp add: has_frames_def)
    then have "working {#} {} n s" by (rule working_less) simp
    then show ?thesis using working_room by blast
  qed
  show ?thesis
    by (rule resident.btree_insert_runs [OF inv new w small, of p slot_num, folded e_def]) (rule that, assumption+, erule rm', assumption+)
qed

lemma btree_insert_ok:
  fixes p :: page_id and slot_num :: u32
  assumes "tree_inv t T" and "room (n + 6 * height T + 10) (bt_pool t)"
    and spare: "unat (next_page_id (bt_pool t)) + height T + 1 \<le> num_frames (bt_pool t)"
    and "key \<notin> fst ` set (contents T)"
  obtains t' T' where "btree_insert key p slot_num t = Some (Inr t')" and "tree_inv t' T'"
    and "contents T' = add_entry (key, \<lparr>rid_page_id = p, rid_slot_num = slot_num\<rparr>) (contents T)" and "height T' \<le> Suc (height T)"
  by (rule btree_insert_exact [OF assms(1,2) insert_pages_spare [OF assms(1) spare] assms(4), of p slot_num]) (rule that)

lemma find_resident:
  assumes "represents t T" and "room (Suc (height T)) (bt_pool t)"
  obtains t' where "btree_find key t = Some (Inr (map_option (Pair key) (map_of (contents T) key), t'))"
proof -
  from find_leaf_ok [OF assms(1), of key] assms(2) obtain n p t' where
    f: "find_leaf key t = Some (Inr (Some (n, p), t'))" "leaf_for key (leaves T) p n"
    by (auto split: option.splits sum.splits)
  from leaf_for_find [OF f(2)] that f(1) show ?thesis by (simp add: btree_find_def)
qed

section \<open>Properties\<close>

text \<open>C2: Insertion. While every page has a frame, inserting a new key into a tree always succeeds, whatever
  splits it takes, up to a new root: the result is again an ordered, balanced tree with bounded nodes
  and linked leaves, its header page names its root, its contents are the old entries with the
  new one in its place, and it is at most one level higher.\<close>

theorem insert_adds_entry:
  assumes "tree_inv t T" and "room (6 * height T + 10) (bt_pool t)"
    and "unat (next_page_id (bt_pool t)) + height T + 1 \<le> num_frames (bt_pool t)" and "key \<notin> fst ` set (contents T)"
  shows "\<exists>t' T'. btree_insert key p slot_num t = Some (Inr t') \<and> tree_inv t' T'
    \<and> contents T' = add_entry (key, \<lparr>rid_page_id = p, rid_slot_num = slot_num\<rparr>) (contents T)
    \<and> map_of (contents T') = (map_of (contents T))(key \<mapsto> \<lparr>rid_page_id = p, rid_slot_num = slot_num\<rparr>)
    \<and> height T' \<le> Suc (height T)"
proof -
  let ?r = "\<lparr>rid_page_id = p, rid_slot_num = slot_num\<rparr>"
  have "room (0 + 6 * height T + 10) (bt_pool t)" using assms(2) by simp
  from btree_insert_ok [OF assms(1) this assms(3,4), of p slot_num] obtain t' T' where
    I: "btree_insert key p slot_num t = Some (Inr t')" "tree_inv t' T'" "contents T' = add_entry (key, ?r) (contents T)"
      "height T' \<le> Suc (height T)" by metis
  have "sorted_wrt (<) (map fst (contents T'))" using I(2) ordered_sorted(1) by (auto simp: tree_inv_def represents_def)
  then have d': "distinct (map fst (contents T'))" by (simp add: strict_sorted_iff)
  have "sorted_wrt (<) (map fst (contents T))" using assms(1) ordered_sorted(1) by (auto simp: tree_inv_def represents_def)
  then have d: "distinct (map fst ((key, ?r) # contents T))" using assms(4) by (simp add: strict_sorted_iff)
  have "map_of (contents T') = map_of ((key, ?r) # contents T)"
    by (rule map_of_inject_set [THEN iffD2, OF d' d]) (simp add: I(3))
  with I show ?thesis by auto
qed

lemma one_leaf_tree_inv:
  obtains t where "tree_inv (set_leaf_max_size 1 t) (LeafAt 1 \<lparr>ln_next_page_id = INVALID_PAGE_ID, ln_entries = [(I64 7, \<lparr>rid_page_id = 8, rid_slot_num = 9\<rparr>)]\<rparr>)"
    and "room 100 (bt_pool t)" and "next_page_id (bt_pool t) = 2" and "num_frames (bt_pool t) = 10"
proof -
  let ?T = "LeafAt 1 \<lparr>ln_next_page_id = INVALID_PAGE_ID, ln_entries = [(I64 7, \<lparr>rid_page_id = 8, rid_slot_num = 9\<rparr>)]\<rparr>"
  obtain t where t: "represents t ?T" "room 100 (bt_pool t)" "bt_header_page_id t = 0"
    "bt_internal_max t = DEFAULT_INTERNAL_NODE_MAX_SIZE" "next_page_id (bt_pool t) = 2" "num_frames (bt_pool t) = 10"
    by (rule one_leaf_tree)
  have "tree_inv (set_leaf_max_size 1 t) ?T"
    using t by (simp add: tree_inv_def set_leaf_max_size_def represents_def well_formed_def DEFAULT_INTERNAL_NODE_MAX_SIZE_def)
  with that t show ?thesis by blast
qed

theorem insert_adds_entry_witness:
  "\<exists>t t' T'. btree_insert (I64 3) 4 5 t = Some (Inr t') \<and> tree_inv t' T'
    \<and> contents T' = [(I64 3, \<lparr>rid_page_id = 4, rid_slot_num = 5\<rparr>), (I64 7, \<lparr>rid_page_id = 8, rid_slot_num = 9\<rparr>)]"
proof -
  obtain t where t: "tree_inv (set_leaf_max_size 1 t) (LeafAt 1 \<lparr>ln_next_page_id = INVALID_PAGE_ID, ln_entries = [(I64 7, \<lparr>rid_page_id = 8, rid_slot_num = 9\<rparr>)]\<rparr>)"
    (is "tree_inv ?t ?T") "room 100 (bt_pool t)" "next_page_id (bt_pool t) = 2" "num_frames (bt_pool t) = 10" by (rule one_leaf_tree_inv)
  have pool: "bt_pool ?t = bt_pool t" by (simp add: set_leaf_max_size_def)
  have "room (6 * height ?T + 10) (bt_pool ?t)" unfolding pool using t(2) by (rule room_mono) simp
  moreover have "unat (next_page_id (bt_pool ?t)) + height ?T + 1 \<le> num_frames (bt_pool ?t)" by (simp add: pool t(3,4))
  moreover have "I64 3 \<notin> fst ` set (contents ?T)" by simp
  moreover have "add_entry (I64 3, \<lparr>rid_page_id = 4, rid_slot_num = 5\<rparr>) (contents ?T)
      = [(I64 3, \<lparr>rid_page_id = 4, rid_slot_num = 5\<rparr>), (I64 7, \<lparr>rid_page_id = 8, rid_slot_num = 9\<rparr>)]"
    by (simp add: add_entry_def less_eq_i64_def i64_val_def)
  ultimately show ?thesis using insert_adds_entry [OF t(1), of "I64 3" 4 5] by metis
qed

end
