(* ===== verification/BTreeGrow.thy ===== *)
theory BTreeGrow
  imports BTreeInsert
begin

text \<open>
  Filling a tree by insertions, from the file on. The pages a tree of one or two levels takes are counted
  against the entries it holds: a leaf that came out of a split is at least half full, so the ten
  frames of \<open>BTree::new\<close> are enough for eight halves. Then what a leaf size larger than a page does.
\<close>

section \<open>Many insertions\<close>

text \<open>A client that inserts one record after the other.\<close>

fun insert_all :: "leaf_kv list \<Rightarrow> btree \<Rightarrow> btree res option" where
  "insert_all [] t = Some (Inr t)"
| "insert_all ((key, r) # es) t = (case btree_insert key (rid_page_id r) (rid_slot_num r) t of
      None \<Rightarrow> None
    | Some (Inl e) \<Rightarrow> Some (Inl e)
    | Some (Inr t') \<Rightarrow> insert_all es t')"

lemma add_entry_merge:
  assumes "distinct (map fst (xs @ e # es))"
  shows "sort_key fst (add_entry e xs @ es) = sort_key fst (xs @ e # es :: leaf_kv list)"
proof (rule sorted_entries_unique)
  have "mset (map fst (add_entry e xs @ es)) = mset (map fst (xs @ e # es))" by simp
  then have "distinct (map fst (add_entry e xs @ es))" using assms distinct_mset_cong by metis
  then have "distinct (map fst (sort_key fst (add_entry e xs @ es)))" by (metis distinct_mset_cong mset_map mset_sort)
  then show "sorted_wrt (<) (map fst (sort_key fst (add_entry e xs @ es)))" by (simp add: strict_sorted_iff)
  have "distinct (map fst (sort_key fst (xs @ e # es)))" using assms by (metis distinct_mset_cong mset_map mset_sort)
  then show "sorted_wrt (<) (map fst (sort_key fst (xs @ e # es)))" by (simp add: strict_sorted_iff)
qed simp

section \<open>The pages of a tree of at most two levels\<close>

text \<open>\<open>n\<close> pages have been handed out: the header page, and those of the tree, whose leaves have at least
  \<open>half\<close> entries each as soon as there are several.\<close>

fun accounted :: "nat \<Rightarrow> nat \<Rightarrow> shape \<Rightarrow> bool" where
  "accounted half n (LeafAt q m) \<longleftrightarrow> n = 2"
| "accounted half n (NodeAt p kcs) \<longleftrightarrow> n = length kcs + 2 \<and> 2 \<le> length kcs
     \<and> (\<forall>c \<in> snd ` set kcs. height c = 1 \<and> half \<le> length (contents c))"

lemma height_pos [simp]: "0 < height T"
  by (cases T) auto

lemma accounted_contents:
  assumes "accounted half n T" and "2 < n"
  shows "half * (n - 2) \<le> length (contents T)"
proof (cases T)
  case (NodeAt p kcs)
  have "half * length kcs \<le> length (concat (map (\<lambda>kc. contents (snd kc)) kcs))"
    if "\<forall>c \<in> snd ` set kcs. half \<le> length (contents c)" for kcs :: "(i64 \<times> shape) list"
    using that by (induction kcs) auto
  with assms NodeAt show ?thesis by auto
qed (use assms in simp)

lemma accounted_height: "accounted half n T \<Longrightarrow> height T \<le> 2"
proof (cases T)
  case (NodeAt p kcs)
  have "foldr max (map (\<lambda>kc. height (snd kc)) kcs) 0 \<le> 1" if "\<forall>c \<in> snd ` set kcs. height c = 1" for kcs :: "(i64 \<times> shape) list"
    using that by (induction kcs) auto
  moreover assume "accounted half n T"
  ultimately show ?thesis using NodeAt by auto
qed simp

lemma leaves_short: "height T \<le> 1 \<Longrightarrow> length (leaves T) \<le> 1"
proof (cases T)
  case (NodeAt p kcs)
  assume "height T \<le> 1"
  then have "foldr max (map (\<lambda>kc. height (snd kc)) kcs) 0 = 0" using NodeAt by simp
  moreover have "height c \<noteq> 0" for c using height_pos [of c] by linarith
  ultimately have "kcs = []" by (cases kcs) auto
  then show ?thesis using NodeAt by simp
qed simp

lemma accounted_leaves:
  assumes "accounted half n T"
  shows "length (leaves T) \<le> n"
proof (cases T)
  case (NodeAt p kcs)
  have "length (concat (map (\<lambda>kc. leaves (snd kc)) kcs)) \<le> length kcs" if "\<forall>c \<in> snd ` set kcs. height c = 1" for kcs :: "(i64 \<times> shape) list"
    using that
  proof (induction kcs)
    case (Cons x kcs)
    then show ?case using leaves_short [of "snd x"] by simp
  qed simp
  with assms NodeAt show ?thesis by fastforce
qed (use assms in simp)

text \<open>A leaf of such a tree is the root or right under it.\<close>

lemma accounted_leaf:
  assumes "accounted half n (plug (LeafAt q m) zs)" and "balanced h (plug (LeafAt q m) zs)"
  obtains "zs = []" | p ls k rs where "zs = [(p, ls, k, rs)]"
proof -
  have "h \<le> 2" using accounted_height [OF assms(1)] balanced_height [OF assms(2)] by simp
  then have "length zs \<le> 1" using plug_balancedD [OF assms(2)] by auto
  then show ?thesis using that by (cases zs) auto
qed

text \<open>An insertion takes at most one page, two for the first split, and keeps the account.\<close>

lemma accounted_insert:
  assumes at: "at_leaf key T q m zs" and acc: "accounted half n T" and bal: "balanced h T"
    and half: "half \<le> Suc lm div 2" and im: "n < im" "2 \<le> im"
  shows "accounted half (n + insert_pages lm im m zs) (insert_shape lm im e f q m zs)"
    and "insert_pages lm im m zs \<le> (if n = 2 then 2 else 1)"
proof -
  have T: "plug (LeafAt q m) zs = T" using at by (simp add: at_leaf_def)
  define es where "es = add_entry e (ln_entries m)"
  have len: "length es = Suc (length (ln_entries m))" by (simp add: es_def)
  let ?mid = "length es div 2"
  have halves: "half \<le> length (take ?mid es) \<and> half \<le> length (drop ?mid es)" if "lm \<le> length (ln_entries m)"
    using half len that by simp linarith
  consider "zs = []" | p ls k rs where "zs = [(p, ls, k, rs)]"
    using accounted_leaf [of half n q m zs h] acc bal T by metis
  then have "accounted half (n + insert_pages lm im m zs) (insert_shape lm im e f q m zs)
      \<and> insert_pages lm im m zs \<le> (if n = 2 then 2 else 1)"
  proof cases
    case 1
    with T acc halves len show ?thesis
      by (auto simp: insert_shape_def insert_pages_def Let_def es_def [symmetric])
  next
    case 2
    then have kcs: "T = NodeAt p (ls @ (k, LeafAt q m) # rs)" using T by simp
    with acc have A: "n = length ls + length rs + 3" "2 \<le> Suc (length ls + length rs)" "half \<le> length (ln_entries m)"
      "\<forall>c \<in> snd ` (set ls \<union> set rs). height c = 1 \<and> half \<le> length (contents c)" by auto
    have fits: "length ls + length rs + 2 \<le> im" using A(1) im(1) by simp
    show ?thesis
    proof (cases "length (ln_entries m) < lm")
      case True
      with 2 A len show ?thesis by (auto simp: insert_shape_def insert_pages_def Let_def es_def [symmetric])
    next
      case False
      with halves have "half \<le> length (take ?mid es)" "half \<le> length (drop ?mid es)" by simp_all
      with False 2 A fits len show ?thesis by (auto simp: insert_shape_def insert_pages_def Let_def es_def [symmetric])
    qed
  qed
  then show "accounted half (n + insert_pages lm im m zs) (insert_shape lm im e f q m zs)"
    "insert_pages lm im m zs \<le> (if n = 2 then 2 else 1)" by simp_all
qed

section \<open>Many insertions succeed\<close>

text \<open>One insertion: the tree's invariant and the account of its pages together. A budget of 22 covers the unpins
  of one insertion.\<close>

definition tree_account :: "nat \<Rightarrow> btree \<Rightarrow> shape \<Rightarrow> bool" where
  "tree_account half t T \<longleftrightarrow> tree_inv t T \<and> accounted half (unat (next_page_id (bt_pool t))) T
     \<and> half \<le> Suc (unat (bt_leaf_max t)) div 2 \<and> num_frames (bt_pool t) \<le> unat (bt_internal_max t)"

lemma insert_account:
  assumes "tree_account half t T" and rm: "room (n + 22) (bt_pool t)" and "4 \<le> num_frames (bt_pool t)"
    and few: "length (contents T) < half * (num_frames (bt_pool t) - 2)" and new: "key \<notin> fst ` set (contents T)"
  obtains t' T' where "btree_insert key (rid_page_id r) (rid_slot_num r) t = Some (Inr t')" and "tree_account half t' T'"
    and "contents T' = add_entry (key, r) (contents T)" and "room n (bt_pool t')" and "num_frames (bt_pool t') = num_frames (bt_pool t)"
proof -
  let ?n = "unat (next_page_id (bt_pool t))" and ?F = "num_frames (bt_pool t)"
    and ?lm = "unat (bt_leaf_max t)" and ?im = "unat (bt_internal_max t)"
  have A: "tree_inv t T" "accounted half ?n T" "half \<le> Suc ?lm div 2" "?F \<le> ?im" using assms(1) by (simp_all add: tree_account_def)
  obtain h where h: "balanced h T" using A(1) by (auto simp: tree_inv_def well_formed_def)
  have im: "2 \<le> ?im" using A(1) by (simp add: tree_inv_def)
  have n: "?n < ?F \<and> (?n = 2 \<or> ?n + 1 \<le> ?F)"
  proof (cases "2 < ?n")
    case True
    have "half * (?n - 2) < half * (?F - 2)" by (rule le_less_trans [OF accounted_contents [OF A(2) True] few])
    then have "?n - 2 < ?F - 2" by simp
    with True show ?thesis by arith
  next
    case False
    with A(2) have "?n = 2" by (cases T) auto
    with assms(3) show ?thesis by simp
  qed
  then have nim: "?n < ?im" using A(4) by simp
  have pages: "?n + insert_pages ?lm ?im m zs \<le> ?F" if "at_leaf key T q m zs" for q m zs
    using accounted_insert(2) [OF that A(2) h A(3) nim im] n assms(3) by (auto split: if_splits)
  then have spare: "\<forall>q m zs. at_leaf key T q m zs \<longrightarrow> ?n + insert_pages ?lm ?im m zs \<le> ?F" by blast
  have "height T \<le> 2" by (rule accounted_height [OF A(2)])
  then have rm': "room (n + 6 * height T + 10) (bt_pool t)" by (intro room_mono [OF rm]) simp
  obtain t' T' q m zs where I: "btree_insert key (rid_page_id r) (rid_slot_num r) t = Some (Inr t')" "tree_inv t' T'"
    "contents T' = add_entry (key, \<lparr>rid_page_id = rid_page_id r, rid_slot_num = rid_slot_num r\<rparr>) (contents T)"
    "room n (bt_pool t')" "height T' \<le> Suc (height T)" "num_frames (bt_pool t') = ?F"
    "t' = t\<lparr>bt_root_page_id := root_of T', bt_pool := bt_pool t'\<rparr>" "at_leaf key T q m zs"
    "T' = insert_shape ?lm ?im (key, \<lparr>rid_page_id = rid_page_id r, rid_slot_num = rid_slot_num r\<rparr>) (next_page_id (bt_pool t)) q m zs"
    "unat (next_page_id (bt_pool t')) = ?n + insert_pages ?lm ?im m zs"
    by (rule btree_insert_exact [OF A(1) rm' spare new, of "rid_page_id r" "rid_slot_num r"])
  have "accounted half (unat (next_page_id (bt_pool t'))) T'"
    unfolding I(10) unfolding I(9) by (rule accounted_insert(1) [OF I(8) A(2) h A(3) nim im])
  moreover have "bt_leaf_max t' = bt_leaf_max t" "bt_internal_max t' = bt_internal_max t"
    by (metis I(7) btree.select_convs(4,5) btree.surjective btree.update_convs(2,3))+
  ultimately have "tree_account half t' T'" using I(2,6) A(3,4) by (simp add: tree_account_def)
  moreover have "contents T' = add_entry (key, r) (contents T)" using I(3) by (cases r) simp
  ultimately show ?thesis using that [OF I(1)] I(4,6) by blast
qed

lemma insert_all_ok:
  assumes "tree_account half t T" and "room (n + 22 * length es) (bt_pool t)" and "4 \<le> num_frames (bt_pool t)"
    and "length (contents T) + length es \<le> half * (num_frames (bt_pool t) - 2)" and "distinct (map fst (contents T @ es))"
  obtains t' T' where "insert_all es t = Some (Inr t')" and "tree_account half t' T'" and "room n (bt_pool t')"
    and "contents T' = sort_key fst (contents T @ es)"
  using assms
proof (induction es arbitrary: t T thesis)
  case Nil
  have "sorted (map fst (contents T))" using Nil.prems(2) ordered_sorted(1) [of INVALID_KEY None T]
    by (simp add: tree_account_def tree_inv_def represents_def strict_sorted_iff)
  then have "sort_key fst (contents T) = contents T" by (rule sort_key_id_if_sorted)
  with Nil.prems show ?case by (intro Nil.prems(1) [of t T]) simp_all
next
  case (Cons kr es)
  obtain key r where kr: "kr = (key, r)" by (cases kr)
  have rm: "room (n + 22 * length es + 22) (bt_pool t)" by (rule room_mono [OF Cons.prems(3)]) simp
  have few: "length (contents T) < half * (num_frames (bt_pool t) - 2)" using Cons.prems(5) by simp
  have new: "key \<notin> fst ` set (contents T)" using Cons.prems(6) kr by auto
  obtain t1 T1 where I: "btree_insert key (rid_page_id r) (rid_slot_num r) t = Some (Inr t1)" "tree_account half t1 T1"
    "contents T1 = add_entry (key, r) (contents T)" "room (n + 22 * length es) (bt_pool t1)" "num_frames (bt_pool t1) = num_frames (bt_pool t)"
    by (rule insert_account [OF Cons.prems(2) rm Cons.prems(4) few new])
  have d: "distinct (map fst (contents T @ kr # es))" using Cons.prems(6) by simp
  have "mset (map fst (contents T1 @ es)) = mset (map fst (contents T @ kr # es))" by (simp add: I(3) kr)
  then have d1: "distinct (map fst (contents T1 @ es))" using d distinct_mset_cong by metis
  obtain t' T' where J: "insert_all es t1 = Some (Inr t')" "tree_account half t' T'" "room n (bt_pool t')"
    "contents T' = sort_key fst (contents T1 @ es)"
    by (rule Cons.IH [OF _ I(2,4) _ _ d1]) (use Cons.prems(4,5) I(3,5) in simp_all)
  show ?case
  proof (rule Cons.prems(1))
    show "insert_all (kr # es) t = Some (Inr t')" using I(1) J(1) by (simp add: kr)
    show "contents T' = sort_key fst (contents T @ kr # es)" using J(4) add_entry_merge [OF d] by (simp add: I(3) kr)
  qed (fact J(2), fact J(3))
qed

text \<open>From a file to a tree of at most eight leaves.\<close>

lemma new_tree_filled:
  assumes "faults f = []" and "es \<noteq> []" and "length es \<le> 2048" and "distinct (map fst es)"
  obtains t t' T where "btree_new (Some f) = Inr t" and "insert_all es t = Some (Inr t')" and "tree_account 256 t' T"
    and "room 100 (bt_pool t')" and "contents T = sort_key fst es" and "map_of (contents T) = map_of es"
proof -
  obtain k r es' where es: "es = (k, r) # es'" using assms(2) by (cases es) auto
  let ?n = "\<lparr>ln_next_page_id = INVALID_PAGE_ID, ln_entries = [(k, \<lparr>rid_page_id = rid_page_id r, rid_slot_num = rid_slot_num r\<rparr>)]\<rparr>"
  obtain t where t: "btree_new (Some f) = Inr t" "empty_tree t" "resident (bt_pool t)" "bt_header_page_id t = 0"
    "num_frames (bt_pool t) = 10" "next_page_id (bt_pool t) = 1" "curr_size (replacer (bt_pool t)) = 0"
    "bt_leaf_max t = DEFAULT_LEAF_NODE_MAX_SIZE" "bt_internal_max t = DEFAULT_INTERNAL_NODE_MAX_SIZE" by (rule btree_new_ok [OF assms(1)])
  have "unat (next_page_id (bt_pool t)) + 1 < 2 ^ 32" by (simp add: t(6))
  note F = insert_first_ok [OF t(2) this, of k "rid_page_id r" "rid_slot_num r"]
  have rm: "room 2 (bt_pool t) \<and> unat (next_page_id (bt_pool t)) + 1 \<le> num_frames (bt_pool t)" using t by (simp add: room_def)
  obtain t1 where t1: "btree_insert k (rid_page_id r) (rid_slot_num r) t = Some (Inr t1)" "represents t1 (LeafAt 1 ?n)"
    "bt_header_page_id t1 = 0" "bt_leaf_max t1 = DEFAULT_LEAF_NODE_MAX_SIZE" "bt_internal_max t1 = DEFAULT_INTERNAL_NODE_MAX_SIZE"
    "next_page_id (bt_pool t1) = 2" "num_frames (bt_pool t1) = 10" "unat (curr_size (replacer (bt_pool t1))) \<le> 2" "resident (bt_pool t1)"
    using F rm t by (cases "btree_insert k (rid_page_id r) (rid_slot_num r) t") (auto split: sum.splits)
  have c1: "contents (LeafAt 1 ?n) = [(k, r)]" by (cases r) simp
  have acc1: "tree_account 256 t1 (LeafAt 1 ?n)"
    using t1 by (simp add: tree_account_def tree_inv_def well_formed_def DEFAULT_INTERNAL_NODE_MAX_SIZE_def DEFAULT_LEAF_NODE_MAX_SIZE_def)
  have rm1: "room (100 + 22 * length es') (bt_pool t1)" using t1(8,9) assms(3) es by (simp add: room_def)
  have ln1: "length (contents (LeafAt 1 ?n)) + length es' \<le> 256 * (num_frames (bt_pool t1) - 2)"
    using assms(3) es t1(7) by (simp add: c1)
  have d1: "distinct (map fst (contents (LeafAt 1 ?n) @ es'))" using assms(4) es by (simp only: c1) simp
  obtain t' T' where J: "insert_all es' t1 = Some (Inr t')" "tree_account 256 t' T'" "room 100 (bt_pool t')"
    "contents T' = sort_key fst (contents (LeafAt 1 ?n) @ es')"
    by (rule insert_all_ok [OF acc1 rm1 _ ln1 d1]) (simp add: t1(7))
  have cont: "contents T' = sort_key fst es" using J(4) unfolding c1 es by simp
  have all: "insert_all es t = Some (Inr t')" using t1(1) J(1) es by simp
  have "map_of (contents T') = map_of es" unfolding cont
  proof (rule map_of_inject_set [THEN iffD2])
    show "distinct (map fst (sort_key fst es))" using assms(4) by (metis distinct_mset_cong mset_map mset_sort)
    show "distinct (map fst es)" by (rule assms(4))
  qed simp
  then show ?thesis by (rule that [OF t(1) all J(2,3) cont])
qed

section \<open>A leaf size beyond the page\<close>

lemma leaf_insert_oversized:
  assumes "length bs = PAGE_SIZE" and "leaf_decode bs = Inr n" and "length (ln_entries n) = 511" and "511 < m"
  shows "leaf_insert_of e m q bs = Inl IndexError"
proof -
  let ?n = "n\<lparr>ln_entries := add_entry e (ln_entries n)\<rparr>"
  have len: "HEADER_SIZE \<le> length bs" using assms(1) by (simp add: HEADER_SIZE_def PAGE_SIZE_def)
  have "leaf_encode ?n bs = Inl IndexError" by (rule leaf_encode_overflow) (use assms(1,3) in simp_all)
  with assms(2-4) show ?thesis by (simp add: leaf_insert_of_def Let_def)
qed

section \<open>Properties\<close>

text \<open>C5: A tree from a file. Opening a tree with the default sizes on a file without faults and inserting up to
  2048 records with distinct keys, in any order, succeeds, however the leaves split on the way; afterwards
  the tree has its invariant, its contents are the records sorted by key, and a lookup of any key finds its
  record, or nothing if it was not inserted.\<close>

theorem fill_new_tree:
  assumes "faults f = []" and "es \<noteq> []" and "length es \<le> 2048" and "distinct (map fst es)"
  shows "\<exists>t t' T. btree_new (Some f) = Inr t \<and> insert_all es t = Some (Inr t') \<and> tree_inv t' T \<and> contents T = sort_key fst es
    \<and> (\<exists>t''. btree_find key t' = Some (Inr (map_option (Pair key) (map_of es key), t'')))"
proof -
  obtain t t' T where F: "btree_new (Some f) = Inr t" "insert_all es t = Some (Inr t')" "tree_account 256 t' T"
    "room 100 (bt_pool t')" "contents T = sort_key fst es" "map_of (contents T) = map_of es" by (rule new_tree_filled [OF assms])
  have inv: "tree_inv t' T" and ht: "height T \<le> 2" using F(3) accounted_height by (auto simp: tree_account_def)
  have "room (Suc (height T)) (bt_pool t')" by (rule room_mono [OF F(4)]) (use ht in simp)
  moreover have "represents t' T" using inv by (simp add: tree_inv_def)
  ultimately obtain t'' where "btree_find key t' = Some (Inr (map_option (Pair key) (map_of (contents T) key), t''))"
    using find_resident by metis
  with F inv show ?thesis by auto
qed

theorem fill_new_tree_witness:
  "\<exists>t t' t''. btree_new (Some \<lparr>fbytes = [], fpos = 0, faults = []\<rparr>) = Inr t
    \<and> insert_all [(I64 9, \<lparr>rid_page_id = 1, rid_slot_num = 1\<rparr>), (I64 2, \<lparr>rid_page_id = 2, rid_slot_num = 2\<rparr>)] t = Some (Inr t')
    \<and> btree_find (I64 2) t' = Some (Inr (Some (I64 2, \<lparr>rid_page_id = 2, rid_slot_num = 2\<rparr>), t''))"
  using fill_new_tree [of "\<lparr>fbytes = [], fpos = 0, faults = []\<rparr>"
      "[(I64 9, \<lparr>rid_page_id = 1, rid_slot_num = 1\<rparr>), (I64 2, \<lparr>rid_page_id = 2, rid_slot_num = 2\<rparr>)]" "I64 2"] by fastforce


text \<open>C6: Sorted iteration. A scan of a tree filled this way, from any key on, comes to an end and yields the records
  in the order of their keys, leaf by leaf: what it leaves out is a prefix of the sorted records, all with keys
  below the key, and after the first leaf all keys are above the key. From the smallest key on it yields every record.\<close>

theorem filled_tree_scans_sorted:
  assumes "faults f = []" and "es \<noteq> []" and "length es \<le> 2048" and "distinct (map fst es)"
  shows "\<exists>t t' ns t'' pre. btree_new (Some f) = Inr t \<and> insert_all es t = Some (Inr t') \<and> scan_from key t' = Some (Inr (ns, t''))
    \<and> sort_key fst es = pre @ concat (map ln_entries ns) \<and> (\<forall>k \<in> fst ` set pre. k < key)
    \<and> ns \<noteq> [] \<and> (\<forall>k \<in> fst ` set (concat (map ln_entries (tl ns))). key < k)"
proof -
  obtain t t' T where F: "btree_new (Some f) = Inr t" "insert_all es t = Some (Inr t')" "tree_account 256 t' T"
    "room 100 (bt_pool t')" "contents T = sort_key fst es" by (rule new_tree_filled [OF assms])
  have rep: "represents t' T" and lk: "linked (leaves T)" and acc: "accounted 256 (unat (next_page_id (bt_pool t'))) T"
    using F(3) by (simp_all add: tree_account_def tree_inv_def well_formed_def)
  let ?n = "unat (next_page_id (bt_pool t'))"
  have "256 * (?n - 2) \<le> 2048" using accounted_contents [OF acc] F(5) assms(3) by (cases "2 < ?n") simp_all
  then have "length (leaves T) \<le> 10" using accounted_leaves [OF acc] by simp
  moreover have "height T \<le> 2" by (rule accounted_height [OF acc])
  ultimately have "room (Suc (height T) + length (leaves T)) (bt_pool t')" by (intro room_mono [OF F(4)]) simp
  with scan_from_ok [OF rep lk, of key] obtain pre ls t'' where sc: "scan_from key t' = Some (Inr (map snd ls, t''))"
    and L: "leaves T = pre @ ls" "ls \<noteq> []" "keys_below key pre" "keys_above key (tl ls)"
    by (auto split: option.splits sum.splits)
  have "contents T = concat (map (\<lambda>l. ln_entries (snd l)) pre) @ concat (map ln_entries (map snd ls))"
    by (simp add: contents_def L(1) comp_def)
  moreover have "\<forall>k \<in> fst ` set (concat (map (\<lambda>l. ln_entries (snd l)) pre)). k < key"
    using L(3) by (fastforce simp: keys_below_def)
  moreover have "\<forall>k \<in> fst ` set (concat (map ln_entries (tl (map snd ls)))). key < k"
    using L(4) unfolding map_tl [symmetric] keys_above_def by fastforce
  moreover have "map snd ls \<noteq> []" using L(2) by simp
  ultimately show ?thesis using F(1,2,5) sc by metis
qed

theorem filled_tree_scans_sorted_witness:
  "\<exists>t t' ns t''. btree_new (Some \<lparr>fbytes = [], fpos = 0, faults = []\<rparr>) = Inr t
    \<and> insert_all [(I64 9, \<lparr>rid_page_id = 1, rid_slot_num = 1\<rparr>), (I64 2, \<lparr>rid_page_id = 2, rid_slot_num = 2\<rparr>)] t = Some (Inr t')
    \<and> scan_from (I64 2) t' = Some (Inr (ns, t''))
    \<and> concat (map ln_entries ns) = [(I64 2, \<lparr>rid_page_id = 2, rid_slot_num = 2\<rparr>), (I64 9, \<lparr>rid_page_id = 1, rid_slot_num = 1\<rparr>)]"
proof -
  let ?es = "[(I64 9, \<lparr>rid_page_id = 1, rid_slot_num = 1\<rparr>), (I64 2, \<lparr>rid_page_id = 2, rid_slot_num = 2\<rparr>)] :: leaf_kv list"
  have "faults \<lparr>fbytes = [], fpos = 0, faults = []\<rparr> = []" "?es \<noteq> []" "length ?es \<le> 2048" "distinct (map fst ?es)" by simp_all
  from filled_tree_scans_sorted [OF this, of "I64 2"] obtain t t' ns t'' pre where
    W: "btree_new (Some \<lparr>fbytes = [], fpos = 0, faults = []\<rparr>) = Inr t" "insert_all ?es t = Some (Inr t')"
      "scan_from (I64 2) t' = Some (Inr (ns, t''))" "sort_key fst ?es = pre @ concat (map ln_entries ns)" "\<forall>k \<in> fst ` set pre. k < I64 2"
    by metis
  have srt: "sort_key fst ?es = [(I64 2, \<lparr>rid_page_id = 2, rid_slot_num = 2\<rparr>), (I64 9, \<lparr>rid_page_id = 1, rid_slot_num = 1\<rparr>)]"
    by (simp add: less_eq_i64_def i64_val_def)
  have "pre = []" using W(4,5) unfolding srt by (cases pre) auto
  with W(1-4) srt show ?thesis by auto
qed

text \<open>C18: Leaf sizes. A leaf maximum above 511, which the setter accepts, is more than a page holds: inserting
  into a leaf of 511 entries is not a split but an index panic.\<close>

theorem oversized_leaf_panics:
  assumes "represents t (LeafAt q n)" and "length (ln_entries n) = 511" and "511 < unat m" and "room 16 (bt_pool t)"
  shows "btree_insert key p slot_num (set_leaf_max_size m t) = Some (Inl IndexError)"
proof -
  let ?s = "bt_pool t" and ?im = "unat (bt_internal_max t)" and ?e = "(key, \<lparr>rid_page_id = p, rid_slot_num = slot_num\<rparr>)"
  have R: "pool_idle ?s" "bt_root_page_id t = q" "ordered INVALID_KEY None (LeafAt q n)" "stored (pool_view ?s) (LeafAt q n)"
    using assms(1) by (auto simp: represents_def pool_ready_def)
  have w: "has_frames {#} {} (Take (root_of (LeafAt q n)) # walk [root_of (LeafAt q n)] (tl (route key (unat m) ?im (LeafAt q n))) @ []) ?s"
    using working_less [OF room_working [OF R(1) assms(4)], of 2] assms(4) by (simp add: has_frames_def room_def resident_def)
  have "distinct (page_ids (LeafAt q n))" by simp
  from resident.walk_down_ok [OF w R(3,4) this] obtain stack s1 q' n' zs where
    D: "walk_down key (unat m) ?im q ?s = Some (Inr (stack, s1))" "at_leaf key (LeafAt q n) q' n' zs" "landed (unat m) ?im stack q' n' zs s1"
      "has_frames (guards_of stack) {} [] s1" "pool_view s1 = pool_view ?s" by (auto simp: descended_def)
  have plug: "plug (LeafAt q' n') zs = LeafAt q n" using D(2) by (simp add: at_leaf_def)
  have "zs = []" using plug_balancedD [of 1 "LeafAt q' n'" zs] plug by auto
  with plug have eq: "q' = q" "n' = n" by simp_all
  from D(3) eq obtain fr st' where fr: "stack = fr # st'" "g_page_id (pf_guard fr) = q" "guard_on (pf_guard fr) s1"
    by (auto simp: landed_def)
  from R(4) obtain b where b: "pool_view ?s q = Some b" "leaf_decode b = Inr n" by (auto simp: leaf_page_def)
  have "length b = PAGE_SIZE" using pool_view_length [OF R(1) b(1)] .
  from leaf_insert_oversized [OF this b(2) assms(2,3)]
  have "with_data_mut (pf_guard fr) (leaf_insert_of ?e (unat m) q) s1 = Inl IndexError"
    using resident.serve_write_panics [where k = "leaf_insert_of ?e (unat m) q", OF D(4) fr(3), of b IndexError] fr(1,2) b(1) D(5) by simp
  then have "insert_into_leaf ?e (unat m) stack s1 = Inl IndexError" using fr(1,2) by (simp add: insert_into_leaf_def Let_def)
  moreover have "q \<noteq> INVALID_PAGE_ID" using resident.serve_valid [OF w b(1)] .
  ultimately show ?thesis using D(1) R(2) by (simp add: btree_insert_def set_leaf_max_size_def insert_at_def Let_def)
qed

theorem oversized_leaf_panics_witness:
  "\<exists>t. btree_insert (I64 600) 4 5 (set_leaf_max_size 512 t) = Some (Inl IndexError)"
proof -
  let ?r = "\<lparr>rid_page_id = 1, rid_slot_num = 1\<rparr>"
  let ?es = "map (\<lambda>i. (I64 (of_nat i), ?r)) [0..<511]"
  have "inj_on (\<lambda>i. I64 (of_nat i)) {0..<511}"
  proof (rule inj_onI)
    fix i j :: nat assume b: "i \<in> {0..<511}" "j \<in> {0..<511}" and e: "I64 (of_nat i) = I64 (of_nat j)"
    have "unat (of_nat i :: u64) = i" "unat (of_nat j :: u64) = j" using b by (simp_all add: unat_of_nat)
    with e show "i = j" by (metis i64.inject)
  qed
  then have d: "distinct (map fst ?es)" by (simp add: distinct_map comp_def)
  have "faults \<lparr>fbytes = [], fpos = 0, faults = []\<rparr> = []" "?es \<noteq> []" "length ?es \<le> 2048" by simp_all
  then obtain t' t T where t: "btree_new (Some \<lparr>fbytes = [], fpos = 0, faults = []\<rparr>) = Inr t'" "insert_all ?es t' = Some (Inr t)"
    "tree_account 256 t T" "room 100 (bt_pool t)" "contents T = sort_key fst ?es" "map_of (contents T) = map_of ?es"
    by (rule new_tree_filled [OF _ _ _ d])
  have len: "length (contents T) = 511" using t(5) by simp
  have acc: "accounted 256 (unat (next_page_id (bt_pool t))) T" using t(3) by (simp add: tree_account_def)
  obtain q n where T: "T = LeafAt q n"
  proof (cases T)
    case (NodeAt p kcs)
    then have "4 \<le> unat (next_page_id (bt_pool t))" using acc by simp
    moreover from this have "256 * (unat (next_page_id (bt_pool t)) - 2) \<le> 511" using accounted_contents [OF acc] len by simp
    ultimately show ?thesis by simp
  qed
  have "represents t (LeafAt q n)" using t(3) T by (simp add: tree_account_def tree_inv_def)
  moreover have "length (ln_entries n) = 511" using len T by simp
  moreover have "room 16 (bt_pool t)" by (rule room_mono [OF t(4)]) simp
  ultimately show ?thesis using oversized_leaf_panics [of t q n 512 "I64 600" 4 5] by auto
qed

end
