(* ===== verification/BTreeReference.thy ===== *)
theory BTreeReference
  imports BTreeGrow
begin

text \<open>
  Insertion as a textbook writes it: a recursive function on trees that returns the new subtree or its two
  halves. The code walks down with a stack of guards and comes back up in a loop; it computes the same
  tree, page for page.
\<close>

section \<open>Recursive insertion\<close>

text \<open>What an insertion makes of a subtree: one tree, or two with the separator between them; and the next fresh
  page.\<close>

datatype grown = Whole shape page_id | Halves shape i64 shape page_id

text \<open>The node over the subtree: it takes the halves in, and is cut in the middle if it has too many children then.\<close>

definition join_node :: "nat \<Rightarrow> page_id \<Rightarrow> (i64 \<times> shape) list \<Rightarrow> i64 \<Rightarrow> grown \<Rightarrow> (i64 \<times> shape) list \<Rightarrow> grown" where
  "join_node im p ls k g rs = (case g of
       Whole c f \<Rightarrow> Whole (NodeAt p (ls @ (k, c) # rs)) f
     | Halves L sep R f \<Rightarrow>
         let kcs = ls @ (k, L) # (sep, R) # rs; mid = length kcs div 2
         in if length kcs \<le> im then Whole (NodeAt p kcs) f
            else Halves (NodeAt p (take mid kcs)) (fst (kcs ! mid))
                   (NodeAt f ((INVALID_KEY, snd (kcs ! mid)) # drop (Suc mid) kcs)) (f + 1))"

definition grow_leaf :: "nat \<Rightarrow> leaf_kv \<Rightarrow> page_id \<Rightarrow> page_id \<Rightarrow> leaf_node \<Rightarrow> grown" where
  "grow_leaf lm e f q n =
     (let es = add_entry e (ln_entries n); mid = length es div 2
      in if length es \<le> lm then Whole (LeafAt q (n\<lparr>ln_entries := es\<rparr>)) f
         else Halves (LeafAt q \<lparr>ln_next_page_id = f, ln_entries = take mid es\<rparr>) (fst (es ! mid))
                (LeafAt f \<lparr>ln_next_page_id = ln_next_page_id n, ln_entries = drop mid es\<rparr>) (f + 1))"

text \<open>The child to descend into is the last one whose separator is not above the key.\<close>

function (sequential) grow_at :: "nat \<Rightarrow> nat \<Rightarrow> leaf_kv \<Rightarrow> page_id \<Rightarrow> shape \<Rightarrow> grown"
  and grow_child :: "nat \<Rightarrow> nat \<Rightarrow> leaf_kv \<Rightarrow> page_id \<Rightarrow> page_id \<Rightarrow> (i64 \<times> shape) list \<Rightarrow> i64 \<times> shape \<Rightarrow> (i64 \<times> shape) list \<Rightarrow> grown" where
  "grow_at lm im e f (LeafAt q n) = grow_leaf lm e f q n"
| "grow_at lm im e f (NodeAt p []) = Whole (NodeAt p []) f"
| "grow_at lm im e f (NodeAt p (kc # kcs)) = grow_child lm im e f p [] kc kcs"
| "grow_child lm im e f p ls kc [] = join_node im p ls (fst kc) (grow_at lm im e f (snd kc)) []"
| "grow_child lm im e f p ls kc (r # rs) =
     (if fst r \<le> fst e then grow_child lm im e f p (ls @ [kc]) r rs
      else join_node im p ls (fst kc) (grow_at lm im e f (snd kc)) (r # rs))"
  by pat_completeness auto

termination
  by (relation "measure (case_sum (\<lambda>(lm, im, e, f, T). 2 * size T) (\<lambda>(lm, im, e, f, p, ls, kc, kcs). Suc (2 * size_list (size_prod (\<lambda>x. 0) size) (kc # kcs))))")
    (auto simp: size_prod_simp)

text \<open>The tree, and the next fresh page after it: two halves take a root.\<close>

fun grown_tree :: "grown \<Rightarrow> shape \<times> page_id" where
  "grown_tree (Whole T f) = (T, f)"
| "grown_tree (Halves L sep R f) = (NodeAt f [(INVALID_KEY, L), (sep, R)], f + 1)"

definition tree_insert :: "nat \<Rightarrow> nat \<Rightarrow> leaf_kv \<Rightarrow> shape \<times> page_id \<Rightarrow> shape \<times> page_id" where
  "tree_insert lm im e Tf = grown_tree (grow_at lm im e (snd Tf) (fst Tf))"

section \<open>The recursion seen from the leaf\<close>

lemma grow_child_descends:
  "\<forall>x \<in> set (tl (ls @ [(k, c)])). fst x \<le> fst e \<Longrightarrow> (case rs of [] \<Rightarrow> True | r # _ \<Rightarrow> fst e < fst r) \<Longrightarrow> ls @ (k, c) # rs = kc # kcs \<Longrightarrow>
     grow_child lm im e f p ps kc kcs = join_node im p (ps @ ls) k (grow_at lm im e f c) rs"
proof (induction ls arbitrary: ps kc kcs)
  case Nil
  then show ?case by (cases rs) auto
next
  case (Cons l ls)
  obtain r ys where r: "ls @ (k, c) # rs = r # ys" by (cases "ls @ (k, c) # rs") auto
  have le: "fst r \<le> fst e" using Cons.prems(1) r by (cases ls) auto
  have tl: "\<forall>x \<in> set (tl (ls @ [(k, c)])). fst x \<le> fst e" using Cons.prems(1) by (cases ls) auto
  have kcs: "kc = l" "kcs = r # ys" using Cons.prems(3) r by simp_all
  from Cons.IH [OF tl Cons.prems(2) r, of "ps @ [l]"] le show ?case by (simp add: kcs)
qed

lemma grow_at_node:
  assumes fr: "frame_ok lo0 hi0 ls k rs lo hi" and key: "lo \<le> fst e" "below (fst e) hi"
  shows "grow_at lm im e f (NodeAt p (ls @ (k, c) # rs)) = join_node im p ls k (grow_at lm im e f c) rs"
proof -
  have rs: "case rs of [] \<Rightarrow> True | r # _ \<Rightarrow> fst e < fst r" using fr key(2) by (auto simp: frame_ok_def split: list.splits)
  have ls: "\<forall>x \<in> set (tl (ls @ [(k, c)])). fst x \<le> fst e"
  proof (cases ls)
    case (Cons l ls')
    then have "lo = k" "ordered_children lo0 (Some k) (l # ls')" using fr by (simp_all add: frame_ok_def)
    with separators_below [OF this(2)] key(1) Cons show ?thesis by auto
  qed simp
  obtain kc kcs where kcs: "ls @ (k, c) # rs = kc # kcs" by (cases "ls @ (k, c) # rs") auto
  show ?thesis unfolding kcs grow_at.simps using grow_child_descends [OF ls rs kcs, of lm im f p "[]"] by simp
qed

text \<open>From the leaf up, one context at a time.\<close>

fun rise :: "nat \<Rightarrow> grown \<Rightarrow> ctx list \<Rightarrow> grown" where
  "rise im g [] = g"
| "rise im g ((p, ls, k, rs) # zs) = rise im (join_node im p ls k g rs) zs"

lemma grow_at_plug:
  "hole lo hi zs \<Longrightarrow> lo \<le> fst e \<Longrightarrow> below (fst e) hi \<Longrightarrow> grow_at lm im e f (plug c zs) = rise im (grow_at lm im e f c) zs"
proof (induction c zs arbitrary: lo hi rule: plug.induct)
  case (2 c p ls k rs zs)
  from 2(2) obtain lo0 hi0 where z: "hole lo0 hi0 zs" "frame_ok lo0 hi0 ls k rs lo hi" by auto
  have "lo0 \<le> fst e" using frame_lo [OF z(2)] 2(3) by (rule order_trans)
  moreover have "below (fst e) hi0"
    using z(2) 2(4) below_less by (auto simp: frame_ok_def split: list.splits)
  ultimately show ?case using 2(1) [OF z(1)] grow_at_node [OF z(2) 2(3,4)] by simp
qed simp

lemma rise_whole: "rise im (Whole c f) zs = Whole (plug c zs) f"
  by (induction c zs rule: plug.induct) (simp_all add: join_node_def)

lemma rise_halves:
  "grown_tree (rise im (Halves L sep R f) zs) = (grow_up im f L sep R zs, f + of_nat (new_pages im zs))"
proof (induction im f L sep R zs rule: grow_up.induct)
  case (2 m q L sep R p ls k rs zs)
  define kcs where "kcs = ls @ (k, L) # (sep, R) # rs"
  have len: "length kcs = length ls + length rs + 2" by (simp add: kcs_def)
  show ?case
  proof (cases "length kcs \<le> m")
    case True
    with len show ?thesis by (simp add: kcs_def join_node_def rise_whole)
  next
    case False
    with 2 [OF kcs_def refl] len show ?thesis
      unfolding grow_up.simps rise.simps join_node_def grown.case Let_def kcs_def [symmetric] by (simp add: algebra_simps)
  qed
qed simp

lemma insert_shape_recursive:
  assumes "at_leaf (fst e) T q m zs"
  shows "tree_insert lm im e (T, f) = (insert_shape lm im e f q m zs, f + of_nat (insert_pages lm im m zs))"
proof -
  from assms obtain lo hi where h: "hole lo hi zs" "lo \<le> fst e" "below (fst e) hi" and T: "plug (LeafAt q m) zs = T" by (auto simp: at_leaf_def)
  have "grow_at lm im e f T = rise im (grow_leaf lm e f q m) zs" using grow_at_plug [OF h, of lm im f "LeafAt q m"] T by simp
  then show ?thesis
    by (simp add: tree_insert_def insert_shape_def insert_pages_def grow_leaf_def Let_def rise_whole rise_halves algebra_simps)
qed

section \<open>The code computes it\<close>

lemma word_eq_plus: "unat a = unat b + n \<Longrightarrow> a = b + of_nat n" for a b :: page_id
  by (metis (mono_tags) of_nat_add of_nat_unat ucast_id)

text \<open>One insertion, with exactly the frames it needs.\<close>

lemma insert_recursive:
  assumes inv: "tree_inv t T" and rm: "room (n + 6 * height T + 10) (bt_pool t)"
    and spare: "unat (snd (tree_insert (unat (bt_leaf_max t)) (unat (bt_internal_max t)) (key, r) (T, next_page_id (bt_pool t)))) \<le> num_frames (bt_pool t)"
    and small: "unat (next_page_id (bt_pool t)) + height T + 1 < 2 ^ 32" and new: "key \<notin> fst ` set (contents T)"
  obtains t' where "btree_insert key (rid_page_id r) (rid_slot_num r) t = Some (Inr t')" and "room n (bt_pool t')"
    and "tree_inv t' (fst (tree_insert (unat (bt_leaf_max t)) (unat (bt_internal_max t)) (key, r) (T, next_page_id (bt_pool t))))"
    and "next_page_id (bt_pool t') = snd (tree_insert (unat (bt_leaf_max t)) (unat (bt_internal_max t)) (key, r) (T, next_page_id (bt_pool t)))"
    and "t' = t\<lparr>bt_root_page_id := bt_root_page_id t', bt_pool := bt_pool t'\<rparr>" and "num_frames (bt_pool t') = num_frames (bt_pool t)"
proof -
  let ?lm = "unat (bt_leaf_max t)" and ?im = "unat (bt_internal_max t)" and ?f = "next_page_id (bt_pool t)"
  have r: "(key, \<lparr>rid_page_id = rid_page_id r, rid_slot_num = rid_slot_num r\<rparr>) = (key, r)" by (cases r) simp
  have shape: "tree_insert ?lm ?im (key, r) (T, ?f) = (insert_shape ?lm ?im (key, r) ?f q m zs, ?f + of_nat (insert_pages ?lm ?im m zs))"
    and pages: "unat (?f + of_nat (insert_pages ?lm ?im m zs)) = unat ?f + insert_pages ?lm ?im m zs" if "at_leaf key T q m zs" for q m zs
  proof -
    show "tree_insert ?lm ?im (key, r) (T, ?f) = (insert_shape ?lm ?im (key, r) ?f q m zs, ?f + of_nat (insert_pages ?lm ?im m zs))"
      by (rule insert_shape_recursive) (simp add: that)
    have "unat ?f + insert_pages ?lm ?im m zs < 2 ^ 32" using insert_pages_bound [OF inv that, of ?lm ?im] small by linarith
    then show "unat (?f + of_nat (insert_pages ?lm ?im m zs)) = unat ?f + insert_pages ?lm ?im m zs"
      by (simp add: unat_word_ariths unat_of_nat)
  qed
  have "\<forall>q m zs. at_leaf key T q m zs \<longrightarrow> unat ?f + insert_pages ?lm ?im m zs \<le> num_frames (bt_pool t)"
  proof (intro allI impI)
    fix q m zs assume at: "at_leaf key T q m zs"
    from spare show "unat ?f + insert_pages ?lm ?im m zs \<le> num_frames (bt_pool t)" unfolding shape [OF at] snd_conv pages [OF at] .
  qed
  then obtain t' T' q m zs where I: "btree_insert key (rid_page_id r) (rid_slot_num r) t = Some (Inr t')" "tree_inv t' T'" "room n (bt_pool t')"
    "num_frames (bt_pool t') = num_frames (bt_pool t)" "t' = t\<lparr>bt_root_page_id := root_of T', bt_pool := bt_pool t'\<rparr>" "at_leaf key T q m zs"
    "T' = insert_shape ?lm ?im (key, r) ?f q m zs" "unat (next_page_id (bt_pool t')) = unat ?f + insert_pages ?lm ?im m zs"
    by (rule btree_insert_exact [OF inv rm _ new, of "rid_page_id r" "rid_slot_num r", unfolded r])
  have next': "next_page_id (bt_pool t') = ?f + of_nat (insert_pages ?lm ?im m zs)"
    by (rule word_eq_plus) (rule I(8))
  have root: "bt_root_page_id t' = root_of T'" by (subst I(5)) simp
  have "t' = t\<lparr>bt_root_page_id := bt_root_page_id t', bt_pool := bt_pool t'\<rparr>" unfolding root by (rule I(5))
  moreover have "tree_inv t' (fst (tree_insert ?lm ?im (key, r) (T, ?f)))" unfolding shape [OF I(6)] fst_conv I(7) [symmetric] by (rule I(2))
  moreover have "next_page_id (bt_pool t') = snd (tree_insert ?lm ?im (key, r) (T, ?f))" unfolding shape [OF I(6)] snd_conv by (rule next')
  ultimately show ?thesis by (intro that [OF I(1,3) _ _ _ I(4)])
qed

text \<open>Many insertions. \<open>fits\<close> says that the keys are new and the pages enough all along; it computes.\<close>

fun fits :: "nat \<Rightarrow> nat \<Rightarrow> nat \<Rightarrow> leaf_kv list \<Rightarrow> shape \<times> page_id \<Rightarrow> bool" where
  "fits lm im F [] Tf \<longleftrightarrow> True"
| "fits lm im F (e # es) Tf \<longleftrightarrow> height (fst Tf) \<le> 5 \<and> fst e \<notin> fst ` set (contents (fst Tf))
     \<and> (let Tf' = tree_insert lm im e Tf in unat (snd Tf') \<le> F \<and> fits lm im F es Tf')"

lemma insert_all_recursive:
  assumes "tree_inv t T" and "room (n + 40 * length es) (bt_pool t)"
    and "fits (unat (bt_leaf_max t)) (unat (bt_internal_max t)) (num_frames (bt_pool t)) es (T, next_page_id (bt_pool t))"
  obtains t' where "insert_all es t = Some (Inr t')" and "room n (bt_pool t')"
    and "tree_inv t' (fst (fold (tree_insert (unat (bt_leaf_max t)) (unat (bt_internal_max t))) es (T, next_page_id (bt_pool t))))"
    and "next_page_id (bt_pool t') = snd (fold (tree_insert (unat (bt_leaf_max t)) (unat (bt_internal_max t))) es (T, next_page_id (bt_pool t)))"
    and "t' = t\<lparr>bt_root_page_id := bt_root_page_id t', bt_pool := bt_pool t'\<rparr>" and "num_frames (bt_pool t') = num_frames (bt_pool t)"
  using assms
proof (induction es arbitrary: t T thesis)
  case Nil
  show ?case by (rule Nil.prems(1) [of t]) (use Nil.prems(2,3) in simp_all)
next
  case (Cons e es)
  obtain key r where e: "e = (key, r)" by (cases e)
  let ?Tf = "tree_insert (unat (bt_leaf_max t)) (unat (bt_internal_max t)) (key, r) (T, next_page_id (bt_pool t))"
  have F: "height T \<le> 5" "key \<notin> fst ` set (contents T)" "unat (snd ?Tf) \<le> num_frames (bt_pool t)"
    "fits (unat (bt_leaf_max t)) (unat (bt_internal_max t)) (num_frames (bt_pool t)) es ?Tf"
    using Cons.prems(4) by (simp_all add: e Let_def)
  have rm: "room (n + 40 * length es + 6 * height T + 10) (bt_pool t)" by (rule room_mono [OF Cons.prems(3)]) (use F(1) in simp)
  have "unat (next_page_id (bt_pool t)) \<le> num_frames (bt_pool t)" "num_frames (bt_pool t) < 2 ^ 30"
    using Cons.prems(2,3) by (auto simp: room_def resident_def tree_inv_def represents_def pool_ready_def pool_inv_def replacer_ok_def arc_inv_def)
  then have small: "unat (next_page_id (bt_pool t)) + height T + 1 < 2 ^ 32" using F(1) by simp
  obtain t1 where I: "btree_insert key (rid_page_id r) (rid_slot_num r) t = Some (Inr t1)" "room (n + 40 * length es) (bt_pool t1)"
    "tree_inv t1 (fst ?Tf)" "next_page_id (bt_pool t1) = snd ?Tf" "t1 = t\<lparr>bt_root_page_id := bt_root_page_id t1, bt_pool := bt_pool t1\<rparr>"
    "num_frames (bt_pool t1) = num_frames (bt_pool t)"
    by (rule insert_recursive [OF Cons.prems(2) rm F(3) small F(2)])
  have mx: "bt_leaf_max t1 = bt_leaf_max t" "bt_internal_max t1 = bt_internal_max t" by (subst I(5), simp)+
  have fit1: "fits (unat (bt_leaf_max t1)) (unat (bt_internal_max t1)) (num_frames (bt_pool t1)) es (fst ?Tf, next_page_id (bt_pool t1))"
    unfolding mx I(4,6) prod.collapse by (rule F(4))
  obtain t' where J: "insert_all es t1 = Some (Inr t')" "room n (bt_pool t')"
    "tree_inv t' (fst (fold (tree_insert (unat (bt_leaf_max t1)) (unat (bt_internal_max t1))) es (fst ?Tf, next_page_id (bt_pool t1))))"
    "next_page_id (bt_pool t') = snd (fold (tree_insert (unat (bt_leaf_max t1)) (unat (bt_internal_max t1))) es (fst ?Tf, next_page_id (bt_pool t1)))"
    "t' = t1\<lparr>bt_root_page_id := bt_root_page_id t', bt_pool := bt_pool t'\<rparr>" "num_frames (bt_pool t') = num_frames (bt_pool t1)"
    by (rule Cons.IH [OF _ I(3,2) fit1])
  note J' = J(3,4) [unfolded mx I(4) prod.collapse]
  have "t' = t\<lparr>bt_root_page_id := bt_root_page_id t', bt_pool := bt_pool t'\<rparr>"
    by (subst J(5), subst I(5)) simp
  then show ?case using J(1,2,6) J' I(1,6) by (intro Cons.prems(1) [of t']) (simp_all only: e insert_all.simps option.case sum.case fold.simps comp_apply)
qed

section \<open>Properties\<close>

text \<open>C3: Insertion is the textbook's. While every page has a frame, inserting a new key leaves on the pages
  exactly the tree that the recursive function computes from the tree before: the same nodes, the same cuts in the
  middle, the same fresh page ids in the order the code takes them, and the same next-leaf links.\<close>

theorem insert_is_recursive:
  assumes "tree_inv t T" and "room (6 * height T + 10) (bt_pool t)"
    and "unat (next_page_id (bt_pool t)) + height T + 1 \<le> num_frames (bt_pool t)" and "key \<notin> fst ` set (contents T)"
  shows "\<exists>t' T'. btree_insert key p slot_num t = Some (Inr t') \<and> represents t' T'
    \<and> (T', next_page_id (bt_pool t')) = tree_insert (unat (bt_leaf_max t)) (unat (bt_internal_max t))
        (key, \<lparr>rid_page_id = p, rid_slot_num = slot_num\<rparr>) (T, next_page_id (bt_pool t))"
proof -
  have "room (0 + 6 * height T + 10) (bt_pool t)" using assms(2) by simp
  then obtain t' T' q m zs where I: "btree_insert key p slot_num t = Some (Inr t')" "tree_inv t' T'" "at_leaf key T q m zs"
    "T' = insert_shape (unat (bt_leaf_max t)) (unat (bt_internal_max t)) (key, \<lparr>rid_page_id = p, rid_slot_num = slot_num\<rparr>)
      (next_page_id (bt_pool t)) q m zs"
    "unat (next_page_id (bt_pool t')) = unat (next_page_id (bt_pool t)) + insert_pages (unat (bt_leaf_max t)) (unat (bt_internal_max t)) m zs"
    by (rule btree_insert_exact [OF assms(1) _ insert_pages_spare [OF assms(1,3)] assms(4), of 0 p slot_num])
  have at: "at_leaf (fst (key, \<lparr>rid_page_id = p, rid_slot_num = slot_num\<rparr>)) T q m zs" using I(3) by simp
  have "next_page_id (bt_pool t') = next_page_id (bt_pool t) + of_nat (insert_pages (unat (bt_leaf_max t)) (unat (bt_internal_max t)) m zs)"
    by (rule word_eq_plus) (rule I(5))
  with insert_shape_recursive [OF at] I show ?thesis by (auto simp: tree_inv_def)
qed

theorem insert_is_recursive_witness:
  "\<exists>t t'. btree_insert (I64 3) 4 5 t = Some (Inr t') \<and> next_page_id (bt_pool t') = 4 \<and> represents t' (NodeAt 3
     [(INVALID_KEY, LeafAt 1 \<lparr>ln_next_page_id = 2, ln_entries = [(I64 3, \<lparr>rid_page_id = 4, rid_slot_num = 5\<rparr>)]\<rparr>),
      (I64 7, LeafAt 2 \<lparr>ln_next_page_id = INVALID_PAGE_ID, ln_entries = [(I64 7, \<lparr>rid_page_id = 8, rid_slot_num = 9\<rparr>)]\<rparr>)])"
proof -
  obtain t where t: "tree_inv (set_leaf_max_size 1 t) (LeafAt 1 \<lparr>ln_next_page_id = INVALID_PAGE_ID, ln_entries = [(I64 7, \<lparr>rid_page_id = 8, rid_slot_num = 9\<rparr>)]\<rparr>)"
    (is "tree_inv ?t ?T") "room 100 (bt_pool t)" "next_page_id (bt_pool t) = 2" "num_frames (bt_pool t) = 10" by (rule one_leaf_tree_inv)
  have pool: "bt_pool ?t = bt_pool t" "unat (bt_leaf_max ?t) = 1" by (simp_all add: set_leaf_max_size_def)
  have "room (6 * height ?T + 10) (bt_pool ?t)" unfolding pool using t(2) by (rule room_mono) simp
  moreover have "unat (next_page_id (bt_pool ?t)) + height ?T + 1 \<le> num_frames (bt_pool ?t)" by (simp add: pool t(3,4))
  moreover have "I64 3 \<notin> fst ` set (contents ?T)" by simp
  moreover have "tree_insert 1 im (I64 3, \<lparr>rid_page_id = 4, rid_slot_num = 5\<rparr>) (?T, 2) = (NodeAt 3
     [(INVALID_KEY, LeafAt 1 \<lparr>ln_next_page_id = 2, ln_entries = [(I64 3, \<lparr>rid_page_id = 4, rid_slot_num = 5\<rparr>)]\<rparr>),
      (I64 7, LeafAt 2 \<lparr>ln_next_page_id = INVALID_PAGE_ID, ln_entries = [(I64 7, \<lparr>rid_page_id = 8, rid_slot_num = 9\<rparr>)]\<rparr>)], 4)" for im
    by (simp add: tree_insert_def grow_leaf_def add_entry_def less_eq_i64_def i64_val_def)
  ultimately show ?thesis using insert_is_recursive [OF t(1), of "I64 3" 4 5] unfolding pool t(3) by (metis prod.inject)
qed

end
