(* ===== verification/PoolReaders.thy ===== *)
theory PoolReaders
  imports PoolGuards
begin

text \<open>
  Code that keeps several read borrows alive at once, as a reader does that holds a page, and through it the
  page it names. While only reads go on, a pool with readers is the pool without them, but for the locks.
\<close>

section \<open>A guard and its read borrow for the length of a scope\<close>

definition holding :: "page_id \<Rightarrow> (u8 list \<Rightarrow> bpm \<Rightarrow> ('r \<times> bpm) res) \<Rightarrow> bpm \<Rightarrow> ('r \<times> bpm) res" where
  "holding p k s =
     seq (check_read_page p s) (\<lambda>(g, s1).
       seq (guard_borrow g s1) (\<lambda>s2.
         seq (k (guard_bytes g s2) s2) (\<lambda>(x, s3).
           seq (read_guard_drop g (guard_release g s3)) (\<lambda>s4. Inr (x, s4)))))"

text \<open>\<open>c\<close> counts the read borrows of each frame.\<close>

definition locked_by :: "(nat \<Rightarrow> nat) \<Rightarrow> nat \<Rightarrow> frame_header \<Rightarrow> frame_header" where
  "locked_by c i fr = (if c i = 0 then fr else fr\<lparr>fh_lock := Readers (c i)\<rparr>)"

definition readers :: "(nat \<Rightarrow> nat) \<Rightarrow> 'a engine_scheme \<Rightarrow> 'a engine_scheme" where
  "readers c s = s\<lparr>frames := map (\<lambda>i. locked_by c i (frames s ! i)) [0..<length (frames s)]\<rparr>"

lemma locked_by_simps [simp]:
  "fh_id (locked_by c i fr) = fh_id fr" "pin_count (locked_by c i fr) = pin_count fr" "is_dirty (locked_by c i fr) = is_dirty fr"
  "fh_data (locked_by c i fr) = fh_data fr" "c i = 0 \<Longrightarrow> locked_by c i fr = fr"
  by (simp_all add: locked_by_def)

lemma readers_simps [simp]:
  "length (frames (readers c s)) = length (frames s)" "replacer (readers c s) = replacer s" "scheduler (readers c s) = scheduler s"
  "i < length (frames s) \<Longrightarrow> frames (readers c s) ! i = locked_by c i (frames s ! i)"
  by (simp_all add: readers_def)

lemma readers_pool [simp]:
  "page_table (readers c s) = page_table s" "free_frames (readers c s) = free_frames s" "next_page_id (readers c s) = next_page_id s"
  "num_frames (readers c s) = num_frames s"
  by (simp_all add: readers_def)

lemma readers_none: "(\<forall>i. c i = 0) \<Longrightarrow> readers c s = s"
  by (simp add: readers_def map_nth)

text \<open>An update of a frame that is not about its lock, or that is about a frame without readers.\<close>

lemma readers_upd:
  assumes "i < length (frames s)" and "locked_by c i (h (frames s ! i)) = h' (locked_by c i (frames s ! i))"
  shows "upd_frame i h' (readers c s) = readers c (upd_frame i h s)"
proof -
  have "(map (\<lambda>j. locked_by c j (frames s ! j)) [0..<length (frames s)])[i := h' (locked_by c i (frames s ! i))]
      = map (\<lambda>j. locked_by c j ((frames s)[i := h (frames s ! i)] ! j)) [0..<length (frames s)]"
    using assms by (intro nth_equalityI) (auto simp: nth_list_update)
  then show ?thesis using assms(1) by (simp add: upd_frame_def readers_def)
qed

lemma readers_pin: "i < length (frames s) \<Longrightarrow> upd_frame i pin (readers c s) = readers c (upd_frame i pin s)"
  by (rule readers_upd) (simp_all add: locked_by_def pin_def)

lemma readers_unpin: "i < length (frames s) \<Longrightarrow> upd_frame i unpin (readers c s) = readers c (upd_frame i unpin s)"
  by (rule readers_upd) (simp_all add: locked_by_def unpin_def)

lemma readers_replacer: "(readers c s)\<lparr>replacer := r\<rparr> = readers c (s\<lparr>replacer := r\<rparr>)"
  by (simp add: readers_def)

section \<open>The steps of a scope\<close>

lemma readers_guard_new:
  assumes "i < length (frames s)" and "write_guard_new p i s = Inr (g, s')"
  shows "write_guard_new p i (readers c s) = Inr (g, readers c s')"
  using assms by (auto simp: write_guard_new_def Let_def seq_Inr_iff readers_pin readers_replacer simp del: upd_frame_simps(5))

lemma readers_drop:
  assumes "g_frame g < length (frames s)" and "write_guard_drop g s = Inr s'"
  shows "write_guard_drop g (readers c s) = Inr (readers c s')"
  using assms by (auto simp: write_guard_drop_def Let_def seq_Inr_iff readers_unpin readers_replacer simp del: upd_frame_simps(5) split: if_splits)

lemma readers_load:
  assumes "f < length (frames s)" and "c f = 0"
  shows "(readers c s)\<lparr>free_frames := fs, scheduler := sch, frames := (frames (readers c s))[f := fr], page_table := t\<rparr>
    = readers c (s\<lparr>free_frames := fs, scheduler := sch, frames := (frames s)[f := fr], page_table := t\<rparr>)"
proof -
  have "(map (\<lambda>j. locked_by c j (frames s ! j)) [0..<length (frames s)])[f := fr]
      = map (\<lambda>j. locked_by c j ((frames s)[f := fr] ! j)) [0..<length (frames s)]"
    using assms by (intro nth_equalityI) (auto simp: nth_list_update)
  then show ?thesis by (simp add: readers_def)
qed

lemma readers_borrow:
  assumes "i = g_frame g" and "i < length (frames s)" and "fh_lock (frames s ! i) = Unlocked"
  shows "guard_borrow g (readers c s) = Inr (readers (c(i := Suc (c i))) s)"
proof -
  let ?c = "c(i := Suc (c i))"
  have "lock_read (locked_by c i (frames s ! i)) = Inr (locked_by ?c i (frames s ! i))"
    using assms(3) by (auto simp: lock_read_def locked_by_def)
  moreover have "upd_frame i (\<lambda>_. locked_by ?c i (frames s ! i)) (readers c s) = readers ?c s"
  proof -
    have "(map (\<lambda>j. locked_by c j (frames s ! j)) [0..<length (frames s)])[i := locked_by ?c i (frames s ! i)]
        = map (\<lambda>j. locked_by ?c j (frames s ! j)) [0..<length (frames s)]"
      using assms(2) by (intro nth_equalityI) (simp_all add: nth_list_update locked_by_def)
    then show ?thesis by (simp add: upd_frame_def readers_def)
  qed
  ultimately show ?thesis using assms(1,2) by (simp add: guard_borrow_def)
qed

lemma readers_release:
  assumes "i = g_frame g" and "i < length (frames s)" and "fh_lock (frames s ! i) = Unlocked"
  shows "guard_release g (readers (c(i := Suc (c i))) s) = readers c s"
proof -
  let ?c = "c(i := Suc (c i))"
  have "unlock_read (locked_by ?c i (frames s ! i)) = locked_by c i (frames s ! i)"
    using assms(3) by (cases "frames s ! i") (auto simp: unlock_read_def locked_by_def)
  moreover have "(map (\<lambda>j. locked_by ?c j (frames s ! j)) [0..<length (frames s)])[i := locked_by c i (frames s ! i)]
        = map (\<lambda>j. locked_by c j (frames s ! j)) [0..<length (frames s)]"
    using assms(2) by (intro nth_equalityI) (simp_all add: nth_list_update locked_by_def)
  ultimately show ?thesis using assms(1,2) by (simp add: guard_release_def upd_frame_def readers_def)
qed

text \<open>A page is granted beside the readers: their frames are pinned, so none of them is a free one.\<close>

lemma readers_take:
  assumes w: "working G {} (Suc n) s" and b: "pool_view s p = Some b" and run: "check_write_page p s = Inr (g, s')"
    and pinned: "\<forall>i. 0 < c i \<longrightarrow> i \<in># G"
  shows "check_write_page p (readers c s) = Inr (g, readers c s')"
proof -
  have inv: "pool_inv G {} s" and res: "resident s" using w by (simp_all add: working_def)
  show ?thesis
  proof (cases "map_of (page_table s) p")
    case (Some f)
    note lt = pool_inv_entry(2) [OF inv Some]
    have "write_guard_new p (unat f) s = Inr (g, s')" using run Some lt by (simp add: check_write_page_def)
    from readers_guard_new [OF lt this] Some lt show ?thesis by (simp add: check_write_page_def)
  next
    case None
    with resident_has_frame [OF inv res b] obtain fs f where free: "free_frames s = fs @ [f]" by (metis rev_exhaust)
    note ff = free_frame_facts [OF inv free]
    have c0: "c (unat f) = 0" using pinned ff(3) by auto
    from load_page_run [OF inv free None b] obtain sch where
      load: "load_page p f (s\<lparr>free_frames := fs\<rparr>) = Inr (s\<lparr>free_frames := fs, scheduler := sch,
         frames := (frames s)[unat f := (frames s ! unat f)\<lparr>fh_data := b\<rparr>], page_table := page_table s @ [(p, f)]\<rparr>)"
      (is "_ = Inr ?s2") by blast
    have new: "write_guard_new p (unat f) ?s2 = Inr (g, s')"
      using run None free load by (simp add: check_write_page_def pop_free_snoc)
    have lt: "unat f < length (frames s)" using ff by simp
    have "load_page p f ((readers c s)\<lparr>free_frames := fs\<rparr>) = Inr (readers c ?s2)"
      using load lt c0 readers_load [where f = "unat f" and s = s and c = c and fs = fs, OF lt c0] by (auto simp: load_page_def seq_Inr_iff)
    moreover have "write_guard_new p (unat f) (readers c ?s2) = Inr (g, readers c s')"
      by (rule readers_guard_new [OF _ new]) (use lt in simp)
    moreover have "free_frames (readers c s) = fs @ [f]" using free by simp
    ultimately show ?thesis using None by (simp add: check_write_page_def pop_free_snoc)
  qed
qed

text \<open>A reading computation \<open>k\<close> that goes through on pools with the pages \<open>v\<close>, whoever else reads them, and leaves
  them alone; \<open>n\<close> is what it may add to the policy's counter and to the guards.\<close>

definition reads :: "nat \<Rightarrow> (page_id \<rightharpoonup> u8 list) \<Rightarrow> (bpm \<Rightarrow> ('r \<times> bpm) res) \<Rightarrow> 'r \<Rightarrow> bool" where
  "reads n v k x \<longleftrightarrow> (\<forall>G c m s. (\<forall>i. 0 < c i \<longrightarrow> i \<in># G) \<longrightarrow> working G {} (n + m) s \<longrightarrow> pool_view s = v \<longrightarrow>
     (\<exists>s'. k (readers c s) = Inr (x, readers c s') \<and> working G {} m s' \<and> pool_view s' = v \<and> grows s s' \<and> next_page_id s' = next_page_id s))"

lemma readsD:
  assumes "reads n v k x" and "\<forall>i. 0 < c i \<longrightarrow> i \<in># G" and "working G {} (n + m) s" and "pool_view s = v"
  obtains s' where "k (readers c s) = Inr (x, readers c s')" and "working G {} m s'" and "pool_view s' = v" and "grows s s'"
    and "next_page_id s' = next_page_id s"
  using assms unfolding reads_def by blast

lemma reads_return: "reads 0 v (\<lambda>s. Inr (x, s)) x"
  unfolding reads_def by (intro allI impI) auto

lemma reads_asserting: "b \<Longrightarrow> reads n v k x \<Longrightarrow> reads n v (\<lambda>s. asserting b (k s)) x"
  by simp

lemma reads_seq:
  assumes "reads n v j y" and "reads m v (k y) x"
  shows "reads (n + m) v (\<lambda>s. seq (j s) (\<lambda>(y, s). k y s)) x"
  unfolding reads_def
proof (intro allI impI)
  fix G l s and c :: "nat \<Rightarrow> nat" assume c: "\<forall>i. 0 < c i \<longrightarrow> i \<in># G" and w: "working G {} (n + m + l) s" and v: "pool_view s = v"
  have w': "working G {} (n + (m + l)) s" using w by (simp only: add.assoc)
  obtain s1 where s1: "j (readers c s) = Inr (y, readers c s1)" "working G {} (m + l) s1" "pool_view s1 = v" "grows s s1"
    "next_page_id s1 = next_page_id s" by (rule readsD [OF assms(1) c w' v])
  obtain s2 where s2: "k y (readers c s1) = Inr (x, readers c s2)" "working G {} l s2" "pool_view s2 = v" "grows s1 s2"
    "next_page_id s2 = next_page_id s1" by (rule readsD [OF assms(2) c s1(2,3)])
  then show "\<exists>s'. seq (j (readers c s)) (\<lambda>(y, s). k y s) = Inr (x, readers c s') \<and> working G {} l s' \<and> pool_view s' = v \<and> grows s s'
      \<and> next_page_id s' = next_page_id s" using s1 grows_trans [OF s1(4) s2(4)] by auto
qed

lemma reads_holding:
  assumes b: "v p = Some b" and k: "reads n v (k b) x"
  shows "reads (Suc (Suc n)) v (holding p k) x"
  unfolding reads_def
proof (intro allI impI)
  fix G m s and c :: "nat \<Rightarrow> nat" assume c: "\<forall>i. 0 < c i \<longrightarrow> i \<in># G" and w: "working G {} (Suc (Suc n) + m) s" and v: "pool_view s = v"
  have w0: "working G {} (Suc (n + Suc m)) s" using w by simp
  have b0: "pool_view s p = Some b" using b v by simp
  obtain g s1 where T: "check_write_page p s = Inr (g, s1)" "working (add_mset (g_frame g) G) {} (n + Suc m) s1" "guard_on g s1" "g_page_id g = p"
    "pool_view s1 = pool_view s" "grows s s1" "next_page_id s1 = next_page_id s" by (rule take_guard [OF w0 b0])
  let ?i = "g_frame g" and ?G = "add_mset (g_frame g) G"
  let ?c = "c(?i := Suc (c ?i))"
  note inv1 = working_inv [OF T(2)]
  from T(3) obtain f where f: "map_of (page_table s1) p = Some f" "?i = unat f" using T(4) by (auto simp: guard_on_def)
  have lt1: "?i < length (frames s1)" using pool_inv_entry(2) [OF inv1 f(1)] f(2) by simp
  have lk1: "fh_lock (frames s1 ! ?i) = Unlocked" using inv1 pool_inv_entry(1) [OF inv1 f(1)] f(2) by (simp add: pool_inv_def guards_ok_def)
  have bytes: "guard_bytes g (readers ?c s1) = b"
    using guard_view [OF inv1 f(1)] f(2) lt1 b0 T(5) by (simp add: guard_bytes_def)
  have c': "\<forall>i. 0 < ?c i \<longrightarrow> i \<in># ?G" using c by auto
  have v1: "pool_view s1 = v" using T(5) v by simp
  obtain s2 where K: "k b (readers ?c s1) = Inr (x, readers ?c s2)" "working ?G {} (Suc m) s2" "pool_view s2 = v" "grows s1 s2"
    "next_page_id s2 = next_page_id s1" by (rule readsD [OF k c' T(2) v1])
  note inv2 = working_inv [OF K(2)]
  have on2: "guard_on g s2" by (rule guard_on_grows [OF T(3) K(4)])
  then obtain f2 where f2: "map_of (page_table s2) p = Some f2" "?i = unat f2" using T(4) by (auto simp: guard_on_def)
  have lt2: "?i < length (frames s2)" using pool_inv_entry(2) [OF inv2 f2(1)] f2(2) by simp
  have lk2: "fh_lock (frames s2 ! ?i) = Unlocked" using inv2 pool_inv_entry(1) [OF inv2 f2(1)] f2(2) by (simp add: pool_inv_def guards_ok_def)
  obtain s3 where D: "write_guard_drop g s2 = Inr s3" "working (?G - {#?i#}) {} m s3" "pool_view s3 = pool_view s2" "grows s2 s3"
    "next_page_id s3 = next_page_id s2" by (rule drop_guard [OF K(2) on2]) simp_all
  have "holding p k (readers c s) = Inr (x, readers c s3)"
    using readers_take [OF w0 b0 T(1) c] readers_borrow [OF refl lt1 lk1, of c] bytes K(1) readers_release [OF refl lt2 lk2, of c]
      readers_drop [OF lt2 D(1), of c]
    by (simp add: holding_def check_read_page_eq read_guard_drop_eq)
  moreover have "grows s s3" by (rule grows_trans [OF T(6) grows_trans [OF K(4) D(4)]])
  ultimately show "\<exists>s'. holding p k (readers c s) = Inr (x, readers c s') \<and> working G {} m s' \<and> pool_view s' = v \<and> grows s s'
      \<and> next_page_id s' = next_page_id s" using T(7) K(3,5) D(2,3,5) by auto
qed

text \<open>At rest, nobody else reads.\<close>

lemma reads_run:
  assumes "reads n v k x" and "working {#} {} (n + m) s" and "pool_view s = v"
  obtains s' where "k s = Inr (x, s')" and "working {#} {} m s'" and "pool_view s' = v" and "grows s s'" and "next_page_id s' = next_page_id s"
proof -
  have "\<forall>i. 0 < (0 :: nat) \<longrightarrow> i \<in># {#}" by simp
  from readsD [OF assms(1) this assms(2,3)] obtain s' where "k (readers (\<lambda>_. 0) s) = Inr (x, readers (\<lambda>_. 0) s')" "working {#} {} m s'"
    "pool_view s' = v" "grows s s'" "next_page_id s' = next_page_id s" by blast
  with that show ?thesis by (simp add: readers_none)
qed

end
