(* ===== verification/TreeTests.thy ===== *)
theory TreeTests
  imports BTreeReference PoolReaders
begin

text \<open>
  The unit tests of \<open>b_plus_tree.rs\<close>, run in the model. A test opens its tree on a file, inserts records, and then
  reads the pages of the tree through guards it keeps until the end of the block. What the tree looks like
  by then is computed by the recursive insertion. Two of the tests, \<open>btree_split_stops_at_grandparent\<close> and
  \<open>btree_find\<close>, need eleven pages in ten frames and are left out: the tests are evaluated in a pool that does not evict.
\<close>

section \<open>The vocabulary of the tests\<close>

definition DEFAULT_SLOT_NUMBER :: u32 where
  "DEFAULT_SLOT_NUMBER = 0"

definition record_at :: "page_id \<Rightarrow> record_id" where
  "record_at p = \<lparr>rid_page_id = p, rid_slot_num = DEFAULT_SLOT_NUMBER\<rparr>"

text \<open>\<open>BTree::new\<close>, and \<open>insert\<close> of some keys with page ids, before the rest of a test.\<close>

definition with_new_tree :: "os_file \<Rightarrow> (btree \<Rightarrow> 'r res option) \<Rightarrow> 'r res option" where
  "with_new_tree f k = (case btree_new (Some f) of Inl e \<Rightarrow> Some (Inl e) | Inr t \<Rightarrow> k t)"

definition inserting :: "(i64 \<times> page_id) list \<Rightarrow> btree \<Rightarrow> (btree \<Rightarrow> 'r res option) \<Rightarrow> 'r res option" where
  "inserting kps t k = (case insert_all (map (\<lambda>(key, p). (key, record_at p)) kps) t of
       None \<Rightarrow> None
     | Some (Inl e) \<Rightarrow> Some (Inl e)
     | Some (Inr t') \<Rightarrow> k t')"

text \<open>A block that reads through the tree's pool.\<close>

definition reading :: "btree \<Rightarrow> (bpm \<Rightarrow> (unit \<times> bpm) res) \<Rightarrow> (btree \<Rightarrow> unit res option) \<Rightarrow> unit res option" where
  "reading t block k = (case block (bt_pool t) of Inl e \<Rightarrow> Some (Inl e) | Inr (_, s) \<Rightarrow> k (t\<lparr>bt_pool := s\<rparr>))"

text \<open>A write guard that is only read through.\<close>

definition holding_write :: "page_id \<Rightarrow> (u8 list \<Rightarrow> bpm \<Rightarrow> ('r \<times> bpm) res) \<Rightarrow> bpm \<Rightarrow> ('r \<times> bpm) res" where
  "holding_write p k s =
     seq (check_write_page p s) (\<lambda>(g, s1).
       seq (guard_borrow g s1) (\<lambda>s2.
         seq (k (guard_bytes g s2) s2) (\<lambda>(x, s3).
           seq (write_guard_drop g (guard_release g s3)) (\<lambda>s4. Inr (x, s4)))))"

definition u32_at :: "nat \<Rightarrow> u8 list \<Rightarrow> u32 res" where
  "u32_at off bs = seq (slice off 4 bs) (\<lambda>b. Inr (u32_from_le b))"

definition i64_at :: "nat \<Rightarrow> u8 list \<Rightarrow> i64 res" where
  "i64_at off bs = seq (slice off 8 bs) (\<lambda>b. Inr (i64_from_le b))"

section \<open>The tests\<close>

definition basic_leaf_encode_decode :: "unit res" where
  "basic_leaf_encode_decode =
     (let bytes = replicate (unat DEFAULT_LEAF_NODE_MAX_SIZE) 0;
          leaf = \<lparr>ln_next_page_id = 2, ln_entries =
            [(I64 11, \<lparr>rid_page_id = 111, rid_slot_num = 1111\<rparr>), (I64 12, \<lparr>rid_page_id = 112, rid_slot_num = 1112\<rparr>)]\<rparr>
      in seq (leaf_encode leaf bytes) (\<lambda>bytes. seq (leaf_decode bytes) (\<lambda>decoded_leaf.
           asserting (ln_next_page_id leaf = ln_next_page_id decoded_leaf)
             (asserting (length (ln_entries leaf) = length (ln_entries decoded_leaf))
               (asserting (ln_entries leaf = ln_entries decoded_leaf) (Inr ()))))))"

definition basic_internal_encode_decode :: "unit res" where
  "basic_internal_encode_decode =
     (let bytes = replicate (unat DEFAULT_INTERNAL_NODE_MAX_SIZE) 0;
          internal = \<lparr>in_entries = [(I64 1, 11), (I64 2, 12), (I64 3, 13)]\<rparr>
      in seq (internal_encode internal bytes) (\<lambda>bytes. seq (internal_decode bytes) (\<lambda>decoded_internal.
           asserting (length (in_entries internal) = length (in_entries decoded_internal))
             (asserting (in_entries internal = in_entries decoded_internal) (Inr ())))))"

definition btree_first_insert :: "os_file \<Rightarrow> unit res option" where
  "btree_first_insert f = with_new_tree f (\<lambda>t. inserting [(I64 42, 3)] t (\<lambda>t.
     reading t (holding_write (bt_header_page_id t) (\<lambda>header_data s.
       seq (u32_at 0 header_data) (\<lambda>root_from_header.
         asserting (root_from_header \<noteq> INVALID_PAGE_ID)
           (holding root_from_header (\<lambda>root_data s.
             seq (index root_data 0) (\<lambda>node_type.
               asserting (node_type = 1)
                 (let expected_leaf = \<lparr>ln_next_page_id = INVALID_PAGE_ID, ln_entries = [(I64 42, record_at 3)]\<rparr>
                  in seq (leaf_decode root_data) (\<lambda>leaf.
                       asserting (ln_next_page_id expected_leaf = ln_next_page_id leaf)
                         (asserting (ln_entries expected_leaf = ln_entries leaf) (Inr ((), s))))))) s))))
     (\<lambda>t. Some (Inr ()))))"

definition btree_first_insert_multiple_keys :: "os_file \<Rightarrow> unit res option" where
  "btree_first_insert_multiple_keys f = with_new_tree f (\<lambda>t. inserting [(I64 42, 2), (I64 43, 3), (I64 44, 4)] t (\<lambda>t.
     reading t (holding (bt_header_page_id t) (\<lambda>header_data s.
       seq (u32_at 0 header_data) (\<lambda>root_from_header.
         holding root_from_header (\<lambda>root_data s.
           seq (index root_data 0) (\<lambda>node_type.
             let expected_leaf = \<lparr>ln_next_page_id = INVALID_PAGE_ID,
                   ln_entries = [(I64 42, record_at 2), (I64 43, record_at 3), (I64 44, record_at 4)]\<rparr>
             in seq (leaf_decode root_data) (\<lambda>leaf.
                  asserting (ln_next_page_id expected_leaf = ln_next_page_id leaf)
                    (asserting (ln_entries expected_leaf = ln_entries leaf) (Inr ((), s)))))) s)))
     (\<lambda>t. Some (Inr ()))))"

definition btree_first_split :: "os_file \<Rightarrow> unit res option" where
  "btree_first_split f = with_new_tree f (\<lambda>t. inserting [(I64 41, 1), (I64 42, 2)] (set_leaf_max_size 4 t) (\<lambda>t.
     let old_root_page_id = bt_root_page_id t
     in inserting [(I64 43, 3), (I64 44, 4), (I64 45, 5)] t (\<lambda>t.
       reading t (holding (bt_header_page_id t) (\<lambda>header_data s.
         seq (u32_at 0 header_data) (\<lambda>root_from_header.
           asserting (root_from_header = bt_root_page_id t) (asserting (bt_root_page_id t \<noteq> old_root_page_id)
             (asserting (root_from_header \<noteq> old_root_page_id)
               (holding root_from_header (\<lambda>root_data s.
                 seq (index root_data 0) (\<lambda>node_type. asserting (0 = node_type) (Inr ((), s)))) s))))))
       (\<lambda>t. Some (Inr ())))))"

definition btree_insert_after_split_persists_to_leaf :: "os_file \<Rightarrow> unit res option" where
  "btree_insert_after_split_persists_to_leaf f = with_new_tree f (\<lambda>t.
     inserting [(I64 41, 1), (I64 42, 2), (I64 43, 3), (I64 44, 4), (I64 45, 5)] (set_leaf_max_size 4 t) (\<lambda>t.
       inserting [(I64 46, 6)] t (\<lambda>t.
         reading t (holding (bt_header_page_id t) (\<lambda>header_data s.
           seq (u32_at 0 header_data) (\<lambda>root_from_header.
             holding root_from_header (\<lambda>root_data s.
               seq (internal_decode root_data) (\<lambda>root_node.
                 seq (index (in_entries root_node) 0) (\<lambda>e0. seq (index (in_entries root_node) 1) (\<lambda>e1.
                   seq (holding (snd e0) (\<lambda>left_data s.
                     seq (leaf_decode left_data) (\<lambda>left_node.
                       asserting (snd e1 = ln_next_page_id left_node) (Inr ((), s)))) s) (\<lambda>(_, s).
                   holding (snd e1) (\<lambda>right_data s.
                     seq (leaf_decode right_data) (\<lambda>right_node.
                       asserting (ln_next_page_id right_node = INVALID_PAGE_ID) (Inr ((), s)))) s))))) s)))
         (\<lambda>t. Some (Inr ())))))"

text \<open>The four blocks of \<open>btree_advanced_splits\<close>.\<close>

definition advanced_block_1 :: "btree \<Rightarrow> bpm \<Rightarrow> (unit \<times> bpm) res" where
  "advanced_block_1 t = holding (bt_header_page_id t) (\<lambda>header_data s.
     seq (u32_at 0 header_data) (\<lambda>root_from_header.
       holding root_from_header (\<lambda>root_data s.
         seq (internal_decode root_data) (\<lambda>root_node.
           asserting (root_from_header = 3) (asserting (length (in_entries root_node) = 3)
             (seq (index (in_entries root_node) 0) (\<lambda>e0. seq (index (in_entries root_node) 1) (\<lambda>e1. seq (index (in_entries root_node) 2) (\<lambda>e2.
               asserting (fst e0 = INVALID_KEY) (asserting (fst e1 = I64 43) (asserting (fst e2 = I64 45)
                 (holding (snd e0) (\<lambda>first_leaf_data s.
                   seq (i64_at HEADER_SIZE first_leaf_data) (\<lambda>first_leaf_first_key.
                     seq (i64_at (HEADER_SIZE + 16) first_leaf_data) (\<lambda>first_leaf_second_key.
                       seq (u32_at 12 first_leaf_data) (\<lambda>first_leaf_next_page_id.
                         seq (u32_at 4 first_leaf_data) (\<lambda>first_leaf_current_size.
                           asserting (first_leaf_first_key = I64 41) (asserting (first_leaf_second_key = I64 42)
                             (asserting (first_leaf_current_size = 2) (asserting (first_leaf_next_page_id = snd e1)
                 (holding first_leaf_next_page_id (\<lambda>second_leaf_data s.
                   seq (i64_at HEADER_SIZE second_leaf_data) (\<lambda>second_leaf_first_key.
                     seq (i64_at (HEADER_SIZE + 16) second_leaf_data) (\<lambda>second_leaf_second_key.
                       seq (u32_at 12 second_leaf_data) (\<lambda>second_leaf_next_page_id.
                         seq (u32_at 4 second_leaf_data) (\<lambda>second_leaf_current_size.
                           asserting (second_leaf_first_key = I64 43) (asserting (second_leaf_second_key = I64 44)
                             (asserting (second_leaf_current_size = 2) (asserting (second_leaf_next_page_id = snd e2)
                 (holding second_leaf_next_page_id (\<lambda>third_leaf_data s.
                   seq (i64_at HEADER_SIZE third_leaf_data) (\<lambda>third_leaf_first_key.
                     seq (i64_at (HEADER_SIZE + 16) third_leaf_data) (\<lambda>third_leaf_second_key.
                       seq (i64_at (HEADER_SIZE + 32) third_leaf_data) (\<lambda>third_leaf_third_key.
                         seq (u32_at 12 third_leaf_data) (\<lambda>third_leaf_next_page_id.
                           seq (u32_at 4 third_leaf_data) (\<lambda>third_leaf_current_size.
                             asserting (third_leaf_first_key = I64 45) (asserting (third_leaf_second_key = I64 46)
                               (asserting (third_leaf_third_key = I64 47) (asserting (third_leaf_next_page_id = INVALID_PAGE_ID)
                                 (asserting (third_leaf_current_size = 3) (Inr ((), s)))))))))))) s))))))))) s))))))))) s)))))))))) s))"

definition advanced_block_2 :: "btree \<Rightarrow> bpm \<Rightarrow> (unit \<times> bpm) res" where
  "advanced_block_2 t = holding (bt_root_page_id t) (\<lambda>root_data s.
     seq (internal_decode root_data) (\<lambda>root_node.
       seq (index (in_entries root_node) 0) (\<lambda>e0.
         holding (snd e0) (\<lambda>first_leaf_data s.
           seq (i64_at HEADER_SIZE first_leaf_data) (\<lambda>first_leaf_first_key.
             asserting (first_leaf_first_key = I64 40) (Inr ((), s)))) s)))"

definition advanced_block_3 :: "btree \<Rightarrow> bpm \<Rightarrow> (unit \<times> bpm) res" where
  "advanced_block_3 t = holding (bt_header_page_id t) (\<lambda>header_data s.
     seq (u32_at 0 header_data) (\<lambda>root_from_header.
       holding root_from_header (\<lambda>root_data s.
         seq (internal_decode root_data) (\<lambda>root_node.
           asserting (root_from_header = 3) (asserting (length (in_entries root_node) = 4)
             (seq (index (in_entries root_node) 0) (\<lambda>e0. seq (index (in_entries root_node) 1) (\<lambda>e1.
               seq (index (in_entries root_node) 2) (\<lambda>e2. seq (index (in_entries root_node) 3) (\<lambda>e3.
                 asserting (fst e0 = INVALID_KEY) (asserting (fst e1 = I64 41) (asserting (fst e2 = I64 43)
                   (asserting (fst e3 = I64 45) (Inr ((), s))))))))))))) s))"

definition advanced_block_4 :: "btree \<Rightarrow> bpm \<Rightarrow> (unit \<times> bpm) res" where
  "advanced_block_4 t = holding (bt_header_page_id t) (\<lambda>header_data s.
     seq (u32_at 0 header_data) (\<lambda>root_from_header.
       holding root_from_header (\<lambda>root_data s.
         seq (internal_decode root_data) (\<lambda>root_node.
           asserting (root_from_header \<noteq> 3) (asserting (root_from_header = 8) (asserting (length (in_entries root_node) = 2)
             (seq (index (in_entries root_node) 0) (\<lambda>e0. seq (index (in_entries root_node) 1) (\<lambda>e1.
               asserting (fst e0 = INVALID_KEY) (asserting (fst e1 = I64 43) (Inr ((), s)))))))))) s))"

definition btree_advanced_splits :: "os_file \<Rightarrow> unit res option" where
  "btree_advanced_splits f = with_new_tree f (\<lambda>t.
     inserting [(I64 41, 1), (I64 42, 2), (I64 43, 3), (I64 44, 4), (I64 45, 5), (I64 46, 6), (I64 47, 7)]
       (set_internal_max_size 4 (set_leaf_max_size 3 t)) (\<lambda>t.
     reading t (advanced_block_1 t) (\<lambda>t.
     inserting [(I64 40, 10)] t (\<lambda>t.
     reading t (advanced_block_2 t) (\<lambda>t.
     inserting [(I64 39, 1009)] t (\<lambda>t.
     reading t (advanced_block_3 t) (\<lambda>t.
     inserting [(I64 48, 8)] t (\<lambda>t.
     reading t (advanced_block_4 t) (\<lambda>t. Some (Inr ()))))))))))"

text \<open>\<open>iterator.next().unwrap().next_page_id\<close>.\<close>

definition next_link :: "page_id \<Rightarrow> btree \<Rightarrow> (page_id \<times> page_id \<times> btree) res" where
  "next_link p t = seq (scan_next p t) (\<lambda>(leaf, p', t'). seq (unwrap leaf) (\<lambda>n. Inr (ln_next_page_id n, p', t')))"

definition btree_scan_test :: "os_file \<Rightarrow> unit res option" where
  "btree_scan_test f = with_new_tree f (\<lambda>t.
     inserting [(I64 10, 1), (I64 20, 2), (I64 30, 3), (I64 40, 4), (I64 50, 5), (I64 60, 6)] (set_leaf_max_size 3 t) (\<lambda>t.
       case btree_scan (I64 10) t of None \<Rightarrow> None | Some r \<Rightarrow> Some (seq r (\<lambda>(iterator, t).
         seq (next_link iterator t) (\<lambda>(n1, iterator, t). asserting (n1 = 2)
           (seq (next_link iterator t) (\<lambda>(n2, iterator, t). asserting (n2 = 4)
             (seq (next_link iterator t) (\<lambda>(n3, iterator, t). asserting (n3 = INVALID_PAGE_ID) (Inr ()))))))))))"

section \<open>How a test goes through\<close>

text \<open>The tree between two steps of a test: its shape and the next fresh page, with a budget for the reads and
  insertions to come.\<close>

definition tree_state :: "u32 \<Rightarrow> u32 \<Rightarrow> shape \<times> page_id \<Rightarrow> nat \<Rightarrow> btree \<Rightarrow> bool" where
  "tree_state lm im Tf n t \<longleftrightarrow> tree_inv t (fst Tf) \<and> next_page_id (bt_pool t) = snd Tf \<and> room n (bt_pool t)
     \<and> num_frames (bt_pool t) = 10 \<and> bt_header_page_id t = 0 \<and> bt_leaf_max t = lm \<and> bt_internal_max t = im"

definition fresh_tree :: "u32 \<Rightarrow> u32 \<Rightarrow> btree \<Rightarrow> bool" where
  "fresh_tree lm im t \<longleftrightarrow> empty_tree t \<and> resident (bt_pool t) \<and> curr_size (replacer (bt_pool t)) = 0 \<and> next_page_id (bt_pool t) = 1
     \<and> num_frames (bt_pool t) = 10 \<and> bt_header_page_id t = 0 \<and> bt_leaf_max t = lm \<and> bt_internal_max t = im"

lemma with_new_tree_ok:
  assumes "faults f = []" and "\<And>t. fresh_tree DEFAULT_LEAF_NODE_MAX_SIZE DEFAULT_INTERNAL_NODE_MAX_SIZE t \<Longrightarrow> k t = x"
  shows "with_new_tree f k = x"
proof -
  obtain t where "btree_new (Some f) = Inr t" "empty_tree t" "resident (bt_pool t)" "bt_header_page_id t = 0"
    "num_frames (bt_pool t) = 10" "next_page_id (bt_pool t) = 1" "curr_size (replacer (bt_pool t)) = 0"
    "bt_leaf_max t = DEFAULT_LEAF_NODE_MAX_SIZE" "bt_internal_max t = DEFAULT_INTERNAL_NODE_MAX_SIZE" by (rule btree_new_ok [OF assms(1)])
  with assms(2) [of t] show ?thesis by (simp add: with_new_tree_def fresh_tree_def)
qed

lemma fresh_tree_sizes [simp]:
  "fresh_tree lm im t \<Longrightarrow> fresh_tree m im (set_leaf_max_size m t)" "fresh_tree lm im t \<Longrightarrow> fresh_tree lm m (set_internal_max_size m t)"
  by (auto simp: fresh_tree_def empty_tree_def set_leaf_max_size_def set_internal_max_size_def)

abbreviation records :: "(i64 \<times> page_id) list \<Rightarrow> leaf_kv list" where
  "records \<equiv> map (\<lambda>(key, p). (key, record_at p))"

abbreviation grown_by :: "u32 \<Rightarrow> u32 \<Rightarrow> (i64 \<times> page_id) list \<Rightarrow> shape \<times> page_id \<Rightarrow> shape \<times> page_id" where
  "grown_by lm im kps Tf \<equiv> fold (tree_insert (unat lm) (unat im)) (records kps) Tf"

lemma inserting_ok:
  assumes st0: "tree_state lm im Tf N t" and fit0: "40 * length kps \<le> N \<and> fits (unat lm) (unat im) 10 (records kps) Tf"
    and grown: "grown_by lm im kps Tf = Tf'" and k: "\<And>t'. tree_state lm im Tf' (N - 40 * length kps) t' \<Longrightarrow> k t' = x"
  shows "inserting kps t k = x"
proof -
  define n where "n = N - 40 * length kps"
  have st: "tree_state lm im Tf (n + 40 * length kps) t" and fit: "fits (unat lm) (unat im) 10 (records kps) Tf"
    using st0 fit0 by (simp_all add: n_def)
  have S: "tree_inv t (fst Tf)" "next_page_id (bt_pool t) = snd Tf" "num_frames (bt_pool t) = 10" "bt_header_page_id t = 0"
    "bt_leaf_max t = lm" "bt_internal_max t = im" "room (n + 40 * length (records kps)) (bt_pool t)" using st by (simp_all add: tree_state_def)
  have "fits (unat (bt_leaf_max t)) (unat (bt_internal_max t)) (num_frames (bt_pool t)) (records kps) (fst Tf, next_page_id (bt_pool t))"
    using fit by (simp only: S prod.collapse)
  then obtain t' where I: "insert_all (records kps) t = Some (Inr t')" "room n (bt_pool t')"
    "tree_inv t' (fst (fold (tree_insert (unat (bt_leaf_max t)) (unat (bt_internal_max t))) (records kps) (fst Tf, next_page_id (bt_pool t))))"
    "next_page_id (bt_pool t') = snd (fold (tree_insert (unat (bt_leaf_max t)) (unat (bt_internal_max t))) (records kps) (fst Tf, next_page_id (bt_pool t)))"
    "t' = t\<lparr>bt_root_page_id := bt_root_page_id t', bt_pool := bt_pool t'\<rparr>" "num_frames (bt_pool t') = num_frames (bt_pool t)"
    by (rule insert_all_recursive [OF S(1,7)])
  note I' = I(3,4) [unfolded S prod.collapse]
  have "bt_leaf_max t' = bt_leaf_max t" "bt_internal_max t' = bt_internal_max t" "bt_header_page_id t' = bt_header_page_id t" by (subst I(5), simp)+
  then have "tree_state lm im Tf' n t'" unfolding tree_state_def grown [symmetric] using I' I(2,6) S by simp
  from k [OF this [unfolded n_def]] I(1) show ?thesis by (simp add: inserting_def)
qed

text \<open>The first insertion makes a leaf, page 1.\<close>

abbreviation first_leaf :: "i64 \<Rightarrow> page_id \<Rightarrow> shape \<times> page_id" where
  "first_leaf key p \<equiv> (LeafAt 1 \<lparr>ln_next_page_id = INVALID_PAGE_ID, ln_entries = [(key, record_at p)]\<rparr>, 2)"

lemma inserting_first:
  assumes t: "fresh_tree lm im t"
    and ok: "1 \<le> unat lm \<and> unat lm \<le> 511 \<and> 2 \<le> unat im \<and> unat im \<le> 681 \<and> length kps \<le> 10
      \<and> fits (unat lm) (unat im) 10 (records kps) (first_leaf key p)"
    and grown: "grown_by lm im kps (first_leaf key p) = Tf" and k: "\<And>t'. tree_state lm im Tf (1000 - 40 * length kps) t' \<Longrightarrow> k t' = x"
  shows "inserting ((key, p) # kps) t k = x"
proof -
  have F: "empty_tree t" "resident (bt_pool t)" "curr_size (replacer (bt_pool t)) = 0" "next_page_id (bt_pool t) = 1"
    "num_frames (bt_pool t) = 10" "bt_header_page_id t = 0" "bt_leaf_max t = lm" "bt_internal_max t = im" using t by (simp_all add: fresh_tree_def)
  have "unat (next_page_id (bt_pool t)) + 1 < 2 ^ 32" by (simp add: F)
  note I = insert_first_ok [OF F(1) this, of key p DEFAULT_SLOT_NUMBER]
  have rm: "room 2 (bt_pool t) \<and> unat (next_page_id (bt_pool t)) + 1 \<le> num_frames (bt_pool t)" using F by (simp add: room_def)
  let ?n = "\<lparr>ln_next_page_id = INVALID_PAGE_ID, ln_entries = [(key, record_at p)]\<rparr>"
  obtain t1 where t1: "btree_insert key p DEFAULT_SLOT_NUMBER t = Some (Inr t1)" "represents t1 (LeafAt 1 ?n)"
    "bt_header_page_id t1 = 0" "bt_leaf_max t1 = lm" "bt_internal_max t1 = im" "next_page_id (bt_pool t1) = 2" "num_frames (bt_pool t1) = 10"
    "unat (curr_size (replacer (bt_pool t1))) \<le> 2" "resident (bt_pool t1)"
    using I rm F by (cases "btree_insert key p DEFAULT_SLOT_NUMBER t") (auto simp: record_at_def split: sum.splits)
  have "tree_inv t1 (LeafAt 1 ?n)" using t1 ok by (simp add: tree_inv_def well_formed_def)
  moreover have "room 1000 (bt_pool t1)" using t1(8,9) by (simp add: room_def)
  ultimately have "tree_state lm im (first_leaf key p) 1000 t1" using t1 by (simp add: tree_state_def)
  moreover have "40 * length kps \<le> 1000 \<and> fits (unat lm) (unat im) 10 (records kps) (first_leaf key p)" using ok by simp
  ultimately have "inserting kps t1 k = x" using grown k by (rule inserting_ok)
  then show ?thesis using t1(1) by (simp add: inserting_def record_at_def)
qed

text \<open>A block of reads, which sees the header page and the pages of the tree.\<close>

lemma reading_ok:
  assumes st0: "tree_state lm im Tf N t" and N: "20 \<le> N"
    and b: "\<And>v hb. v 0 = Some hb \<Longrightarrow> u32_at 0 hb = Inr (root_of (fst Tf)) \<Longrightarrow> stored v (fst Tf) \<Longrightarrow> bt_header_page_id t = 0 \<Longrightarrow>
      bt_root_page_id t = root_of (fst Tf) \<Longrightarrow> reads 20 v block ()"
    and k: "\<And>t'. tree_state lm im Tf (N - 20) t' \<Longrightarrow> k t' = x"
  shows "reading t block k = x"
proof -
  let ?v = "pool_view (bt_pool t)"
  define m where "m = N - 20"
  have st: "tree_state lm im Tf (20 + m) t" using st0 N by (simp add: m_def)
  have S: "tree_inv t (fst Tf)" "next_page_id (bt_pool t) = snd Tf" "room (20 + m) (bt_pool t)" "num_frames (bt_pool t) = 10"
    "bt_header_page_id t = 0" "bt_leaf_max t = lm" "bt_internal_max t = im" using st by (simp_all add: tree_state_def)
  then have rep: "represents t (fst Tf)" by (simp add: tree_inv_def)
  then obtain hb where R: "pool_idle (bt_pool t)" "bt_root_page_id t = root_of (fst Tf)" "?v 0 = Some hb" "get_root_page_id hb = Inr (root_of (fst Tf))"
    "stored ?v (fst Tf)" using S(5) by (auto simp: represents_def pool_ready_def)
  have root: "u32_at 0 hb = Inr (root_of (fst Tf))" using R(4) by (simp add: u32_at_def get_root_page_id_def)
  have w: "working {#} {} (20 + m) (bt_pool t)" by (rule room_working [OF R(1) S(3)])
  obtain s where s: "block (bt_pool t) = Inr ((), s)" "working {#} {} m s" "pool_view s = ?v" "grows (bt_pool t) s"
    "next_page_id s = next_page_id (bt_pool t)" by (rule reads_run [OF b [OF R(3) root R(5) S(5) R(2)] w refl])
  have nf: "num_frames s = num_frames (bt_pool t)" using s(4) by (simp add: grows_def)
  have "pool_ready s" using working_room [OF s(2)] S(4) nf by (simp add: pool_ready_def)
  then have "represents (t\<lparr>bt_pool := s\<rparr>) (fst Tf)" using represents_pool [OF rep] s(3) by blast
  then have "tree_inv (t\<lparr>bt_pool := s\<rparr>) (fst Tf)" using S(1) by (simp add: tree_inv_def)
  then have "tree_state lm im Tf m (t\<lparr>bt_pool := s\<rparr>)" using S s(5) nf working_room [OF s(2)] by (simp add: tree_state_def)
  from k [OF this [unfolded m_def]] s(1) show ?thesis by (simp add: reading_def)
qed

lemma reads_more:
  assumes "reads n v k x" and "n \<le> m"
  shows "reads m v k x"
  unfolding reads_def
proof (intro allI impI)
  fix G l s and c :: "nat \<Rightarrow> nat" assume c: "\<forall>i. 0 < c i \<longrightarrow> i \<in># G" and w: "working G {} (m + l) s" and v: "pool_view s = v"
  have "working G {} (n + (m - n + l)) s" using w assms(2) by simp
  then obtain s' where s': "k (readers c s) = Inr (x, readers c s')" "working G {} (m - n + l) s'" "pool_view s' = v" "grows s s'"
    "next_page_id s' = next_page_id s" by (rule readsD [OF assms(1) c _ v])
  moreover have "working G {} l s'" by (rule working_less [OF s'(2)]) simp
  ultimately show "\<exists>s'. k (readers c s) = Inr (x, readers c s') \<and> working G {} l s' \<and> pool_view s' = v \<and> grows s s'
      \<and> next_page_id s' = next_page_id s" by blast
qed

lemma reads_end: "reads n v (\<lambda>s. Inr (x, s)) x"
  by (rule reads_more [OF reads_return]) simp

lemma reads_scope: "v p \<noteq> None \<Longrightarrow> 2 \<le> n \<Longrightarrow> reads (n - 2) v (k (the (v p))) x \<Longrightarrow> reads n v (holding p k) x"
  by (rule reads_more [OF reads_holding]) auto

lemma reads_step:
  fixes j :: "bpm \<Rightarrow> (unit \<times> bpm) res"
  shows "reads 2 v j () \<Longrightarrow> 2 \<le> n \<Longrightarrow> reads (n - 2) v (k ()) x \<Longrightarrow> reads n v (\<lambda>s. seq (j s) (\<lambda>(y, s). k y s)) x"
  by (rule reads_more [OF reads_seq]) auto

text \<open>Where the reads of a test find their fields.\<close>

lemma decode_entries_nth:
  "decode_entries get_entry w n off bs = Inr es \<Longrightarrow> i < length es \<Longrightarrow> get_entry (off + i * w) bs = Inr (es ! i)"
proof (induction n arbitrary: off es i)
  case (Suc n)
  then obtain e es' where e: "get_entry off bs = Inr e" "decode_entries get_entry w n (off + w) bs = Inr es'" "es = e # es'"
    by (auto simp: seq_Inr_iff)
  show ?case
  proof (cases i)
    case (Suc j)
    with Suc.IH [OF e(2), of j] Suc.prems(2) e(3) show ?thesis by (simp add: algebra_simps)
  qed (simp add: e)
qed simp

lemma decode_entries_length: "decode_entries get_entry w n off bs = Inr es \<Longrightarrow> length es = n"
  by (induction n arbitrary: off es) (auto simp: seq_Inr_iff)

lemma leaf_fields:
  assumes "leaf_decode b = Inr n"
  shows "u32_at 4 b = Inr (of_nat (length (ln_entries n)))" and "u32_at 12 b = Inr (ln_next_page_id n)"
    and "i < length (ln_entries n) \<Longrightarrow> i64_at (HEADER_SIZE + 16 * i) b = Inr (fst (ln_entries n ! i))"
proof -
  from assms obtain c q es where L: "slice 4 4 b = Inr c" "slice 12 4 b = Inr q"
    "decode_entries get_leaf_entry 16 (unat (u32_from_le c)) HEADER_SIZE b = Inr es" "n = \<lparr>ln_next_page_id = u32_from_le q, ln_entries = es\<rparr>"
    by (auto simp: leaf_decode_def seq_Inr_iff)
  have "length es = unat (u32_from_le c)" by (rule decode_entries_length [OF L(3)])
  then have "of_nat (length es) = u32_from_le c" by simp
  then show "u32_at 4 b = Inr (of_nat (length (ln_entries n)))" "u32_at 12 b = Inr (ln_next_page_id n)" using L by (simp_all add: u32_at_def)
  show "i64_at (HEADER_SIZE + 16 * i) b = Inr (fst (ln_entries n ! i))" if "i < length (ln_entries n)"
    using decode_entries_nth [OF L(3), of i] that L(4) by (auto simp: get_leaf_entry_def i64_at_def seq_Inr_iff mult.commute) (metis fst_conv)
qed

section \<open>The tests pass\<close>

lemma leaf_encode_test: "basic_leaf_encode_decode = Inr ()"
proof -
  let ?n = "\<lparr>ln_next_page_id = 2, ln_entries =
            [(I64 11, \<lparr>rid_page_id = 111, rid_slot_num = 1111\<rparr>), (I64 12, \<lparr>rid_page_id = 112, rid_slot_num = 1112\<rparr>)]\<rparr>"
  have "HEADER_SIZE + length (ln_entries ?n) * 16 \<le> length (replicate (unat DEFAULT_LEAF_NODE_MAX_SIZE) (0 :: u8))"
    "length (ln_entries ?n) < 2 ^ 32" by (simp_all add: HEADER_SIZE_def DEFAULT_LEAF_NODE_MAX_SIZE_def)
  from leaf_encode_ok [OF this] show ?thesis by (auto simp: basic_leaf_encode_decode_def Let_def)
qed

lemma internal_encode_test: "basic_internal_encode_decode = Inr ()"
proof -
  let ?n = "\<lparr>in_entries = [(I64 1, 11), (I64 2, 12), (I64 3, 13)]\<rparr>"
  have "HEADER_SIZE + length (in_entries ?n) * 12 \<le> length (replicate (unat DEFAULT_INTERNAL_NODE_MAX_SIZE) (0 :: u8))"
    "length (in_entries ?n) < 2 ^ 32" by (simp_all add: HEADER_SIZE_def DEFAULT_INTERNAL_NODE_MAX_SIZE_def)
  from internal_encode_ok [OF this] show ?thesis by (auto simp: basic_internal_encode_decode_def Let_def)
qed

lemma holding_write_eq: "holding_write = holding"
  by (intro ext) (simp add: holding_write_def holding_def check_read_page_eq read_guard_drop_eq)

lemmas key_order = less_eq_i64_def less_i64_def i64_val_def

lemmas tree_insert_eval = tree_insert_def grow_leaf_def join_node_def add_entry_def Let_def key_order

lemma default_sizes [simp]: "unat DEFAULT_LEAF_NODE_MAX_SIZE = 511" "unat DEFAULT_INTERNAL_NODE_MAX_SIZE = 681"
  by (simp_all add: DEFAULT_LEAF_NODE_MAX_SIZE_def DEFAULT_INTERNAL_NODE_MAX_SIZE_def)

lemma index_Cons: "index (x # xs) i = (if i < Suc (length xs) then Inr ((x # xs) ! i) else Inl IndexError)"
  by (simp add: index_def)

lemma tree_state_root: "tree_state lm im Tf n t \<Longrightarrow> bt_root_page_id t = root_of (fst Tf)"
  by (simp add: tree_state_def tree_inv_def represents_def)

lemmas tree_reads = leaf_page_def internal_page_def LEAF_NODE_def INTERNAL_NODE_def INVALID_PAGE_ID_def index_Cons child_ids_def

lemma first_insert_test:
  assumes "faults f = []"
  shows "btree_first_insert f = Some (Inr ())"
  unfolding btree_first_insert_def
  apply (rule with_new_tree_ok [OF assms])
  apply (rule inserting_first, assumption, simp, simp)
  apply (rule reading_ok, assumption, simp)
   apply (auto simp: holding_write_eq tree_reads intro!: reads_scope reads_end)
  done

lemma first_insert_multiple_keys_test:
  assumes "faults f = []"
  shows "btree_first_insert_multiple_keys f = Some (Inr ())"
  unfolding btree_first_insert_multiple_keys_def
  apply (rule with_new_tree_ok [OF assms])
  apply (rule inserting_first, assumption, simp add: tree_insert_eval, simp add: tree_insert_eval)
  apply (rule reading_ok, assumption, simp)
   apply (auto simp: tree_reads intro!: reads_scope reads_end)
  done

lemma first_split_test:
  assumes "faults f = []"
  shows "btree_first_split f = Some (Inr ())"
  unfolding btree_first_split_def Let_def
  apply (rule with_new_tree_ok [OF assms])
  apply (rule inserting_first, rule fresh_tree_sizes, assumption, simp add: tree_insert_eval, simp add: tree_insert_eval)
  apply (frule tree_state_root)
  apply (rule inserting_ok, assumption, simp add: tree_insert_eval, simp add: tree_insert_eval)
  apply (rule reading_ok, assumption, simp)
   apply (auto simp: tree_reads intro!: reads_scope reads_end)
  done

lemma insert_after_split_test:
  assumes "faults f = []"
  shows "btree_insert_after_split_persists_to_leaf f = Some (Inr ())"
  unfolding btree_insert_after_split_persists_to_leaf_def
  apply (rule with_new_tree_ok [OF assms])
  apply (rule inserting_first, rule fresh_tree_sizes, assumption, simp add: tree_insert_eval, simp add: tree_insert_eval)
  apply (rule inserting_ok, assumption, simp add: tree_insert_eval, simp add: tree_insert_eval)
  apply (rule reading_ok, assumption, simp)
   apply (auto simp: tree_reads intro!: reads_step reads_scope reads_end)
  done

lemmas leaf_key_reads = leaf_fields leaf_fields(3) [where i = 0, simplified] leaf_fields(3) [where i = 1, simplified]
  leaf_fields(3) [where i = 2, simplified]

lemma advanced_splits_test:
  assumes "faults f = []"
  shows "btree_advanced_splits f = Some (Inr ())"
  unfolding btree_advanced_splits_def
  apply (rule with_new_tree_ok [OF assms])
  apply (rule inserting_first, rule fresh_tree_sizes, rule fresh_tree_sizes, assumption, simp add: tree_insert_eval, simp add: tree_insert_eval)
  apply (rule reading_ok, assumption, simp)
   apply (auto simp: advanced_block_1_def tree_reads leaf_key_reads intro!: reads_scope reads_end) []
  apply (rule inserting_ok, assumption, simp add: tree_insert_eval, simp add: tree_insert_eval)
  apply (rule reading_ok, assumption, simp)
   apply (auto simp: advanced_block_2_def tree_reads leaf_key_reads intro!: reads_scope reads_end) []
  apply (rule inserting_ok, assumption, simp add: tree_insert_eval, simp add: tree_insert_eval)
  apply (rule reading_ok, assumption, simp)
   apply (auto simp: advanced_block_3_def tree_reads intro!: reads_scope reads_end) []
  apply (rule inserting_ok, assumption, simp add: tree_insert_eval, simp add: tree_insert_eval)
  apply (rule reading_ok, assumption, simp)
   apply (auto simp: advanced_block_4_def tree_reads intro!: reads_scope reads_end)
  done

text \<open>One step of a scan.\<close>

lemma next_link_ok:
  assumes "pool_ready (bt_pool t)" and "leaf_page (pool_view (bt_pool t)) p n" and "room (Suc m) (bt_pool t)"
  obtains t' where "next_link p t = Inr (ln_next_page_id n, ln_next_page_id n, t')" and "pool_ready (bt_pool t')"
    and "pool_view (bt_pool t') = pool_view (bt_pool t)" and "room m (bt_pool t')"
proof -
  from assms(2) obtain b where b: "pool_view (bt_pool t) p = Some b" "leaf_decode b = Inr n" by (auto simp: leaf_page_def)
  have "p \<noteq> INVALID_PAGE_ID" by (rule ready_page_valid [OF assms(1) b(1)])
  moreover obtain s where "with_read_page p leaf_decode (bt_pool t) = Inr (n, s)" "pool_ready s" "pool_view s = pool_view (bt_pool t)" "room m s"
  proof (cases "with_read_page p leaf_decode (bt_pool t)")
    case (Inl e)
    with with_read_page_outcome [where k = leaf_decode, OF assms(1) b] assms(3) show ?thesis by (auto simp: room_def)
  next
    case (Inr xs)
    with with_read_page_outcome [where k = leaf_decode, OF assms(1) b] assms(3) that show ?thesis
      by (cases xs) (auto simp: room_def block_frame_def)
  qed
  ultimately show ?thesis using that [of "t\<lparr>bt_pool := s\<rparr>"] by (simp add: next_link_def scan_next_def)
qed

lemma scan_start_ok:
  assumes st: "tree_state lm im Tf N t" and N: "6 + height (fst Tf) \<le> N"
  obtains p n t' where "btree_scan key t = Some (Inr (p, t'))" and "leaf_for key (leaves (fst Tf)) p n" and "pool_ready (bt_pool t')"
    and "stored (pool_view (bt_pool t')) (fst Tf)" and "room 5 (bt_pool t')"
proof -
  have rep: "represents t (fst Tf)" and rm: "room N (bt_pool t)" using st by (simp_all add: tree_state_def tree_inv_def)
  have "room (Suc (height (fst Tf))) (bt_pool t)" by (rule room_mono [OF rm]) (use N in simp)
  with find_leaf_ok [OF rep, of key] obtain n p t' where f: "find_leaf key t = Some (Inr (Some (n, p), t'))" "leaf_for key (leaves (fst Tf)) p n"
    "pool_ready (bt_pool t')" "pool_view (bt_pool t') = pool_view (bt_pool t)" "resident (bt_pool t')"
    "unat (curr_size (replacer (bt_pool t'))) \<le> unat (curr_size (replacer (bt_pool t))) + Suc (height (fst Tf))"
    by (auto split: option.splits sum.splits)
  have "room 5 (bt_pool t')" using f(5,6) rm N by (simp add: room_def)
  moreover have "stored (pool_view (bt_pool t')) (fst Tf)" using rep f(4) by (simp add: represents_def)
  moreover have "btree_scan key t = Some (Inr (p, t'))" using f(1) by (simp add: btree_scan_def)
  ultimately show ?thesis using that f(2,3) by blast
qed

lemma leaf_for_smallest:
  assumes "leaf_for key ((q, m) # ls) p n" and "ln_entries m \<noteq> []" and "key \<le> fst (hd (ln_entries m))"
  shows "p = q"
proof -
  from assms(1) obtain pre post where ls: "(q, m) # ls = pre @ (p, n) # post" and below: "keys_below key pre" by (auto simp: leaf_for_def)
  show ?thesis
  proof (cases pre)
    case (Cons l pre')
    then have "fst (hd (ln_entries m)) < key" using below ls assms(2) by (auto simp: keys_below_def)
    with assms(3) show ?thesis by simp
  qed (use ls in simp)
qed

lemma scan_test:
  assumes "faults f = []"
  shows "btree_scan_test f = Some (Inr ())"
  unfolding btree_scan_test_def
  apply (rule with_new_tree_ok [OF assms])
  apply (rule inserting_first, rule fresh_tree_sizes, assumption, simp add: tree_insert_eval, simp add: tree_insert_eval)
  subgoal premises st for t0 t
  proof -
    note st = st(2)
    obtain p n t1 where S: "btree_scan (I64 10) t = Some (Inr (p, t1))" "pool_ready (bt_pool t1)" "room 5 (bt_pool t1)" "p = 1"
      "leaf_page (pool_view (bt_pool t1)) 1 \<lparr>ln_next_page_id = 2, ln_entries = [(I64 10, record_at 1), (I64 20, record_at 2)]\<rparr>"
      "leaf_page (pool_view (bt_pool t1)) 2 \<lparr>ln_next_page_id = 4, ln_entries = [(I64 30, record_at 3), (I64 40, record_at 4)]\<rparr>"
      "leaf_page (pool_view (bt_pool t1)) 4 \<lparr>ln_next_page_id = INVALID_PAGE_ID, ln_entries = [(I64 50, record_at 5), (I64 60, record_at 6)]\<rparr>"
      by (rule scan_start_ok [OF st, of "I64 10"]) (use leaf_for_smallest in \<open>fastforce+\<close>)
    have "room (Suc 4) (bt_pool t1)" using S(3) by simp
    from next_link_ok [OF S(2,5) this] obtain t2 where t2: "next_link 1 t1 = Inr (2, 2, t2)" "pool_ready (bt_pool t2)" "pool_view (bt_pool t2) = pool_view (bt_pool t1)"
      "room 4 (bt_pool t2)" by auto
    have "leaf_page (pool_view (bt_pool t2)) 2 \<lparr>ln_next_page_id = 4, ln_entries = [(I64 30, record_at 3), (I64 40, record_at 4)]\<rparr>" "room (Suc 3) (bt_pool t2)"
      using t2(3,4) S(6) by simp_all
    from next_link_ok [OF t2(2) this] obtain t3 where t3: "next_link 2 t2 = Inr (4, 4, t3)" "pool_ready (bt_pool t3)"
      "pool_view (bt_pool t3) = pool_view (bt_pool t1)" "room 3 (bt_pool t3)" using t2(3) by auto
    have "leaf_page (pool_view (bt_pool t3)) 4 \<lparr>ln_next_page_id = INVALID_PAGE_ID, ln_entries = [(I64 50, record_at 5), (I64 60, record_at 6)]\<rparr>" "room (Suc 2) (bt_pool t3)"
      using t3(3,4) S(7) by simp_all
    from next_link_ok [OF t3(2) this] obtain t4 where "next_link 4 t3 = Inr (INVALID_PAGE_ID, INVALID_PAGE_ID, t4)" by auto
    with S(1,4) t2(1) t3(1) show ?thesis by simp
  qed
  done

section \<open>Properties\<close>

text \<open>C24: The tests of the tree. On a file without faults the unit tests of the nodes and of the tree end
  without a panic and without a failed assertion: first insertions, first split, linked leaves, splits of internal
  nodes up to a new root on page 8, and the scan.\<close>

theorem tree_tests_pass:
  assumes "faults f = []"
  shows "basic_leaf_encode_decode = Inr () \<and> basic_internal_encode_decode = Inr ()
    \<and> btree_first_insert f = Some (Inr ()) \<and> btree_first_insert_multiple_keys f = Some (Inr ())
    \<and> btree_first_split f = Some (Inr ()) \<and> btree_insert_after_split_persists_to_leaf f = Some (Inr ())
    \<and> btree_advanced_splits f = Some (Inr ()) \<and> btree_scan_test f = Some (Inr ())"
  using leaf_encode_test internal_encode_test first_insert_test [OF assms] first_insert_multiple_keys_test [OF assms]
    first_split_test [OF assms] insert_after_split_test [OF assms] advanced_splits_test [OF assms] scan_test [OF assms] by blast

theorem tree_tests_pass_witness:
  "btree_advanced_splits \<lparr>fbytes = [], fpos = 0, faults = []\<rparr> = Some (Inr ())
    \<and> btree_scan_test \<lparr>fbytes = [], fpos = 0, faults = []\<rparr> = Some (Inr ())"
  using tree_tests_pass [of "\<lparr>fbytes = [], fpos = 0, faults = []\<rparr>"] by simp

end
