(* ===== verification/BTreeEvict.thy ===== *)
theory BTreeEvict
  imports BTreeReference
begin

text \<open>
  Insertion in a pool that evicts. What a tree and its pool must agree on is a sequence of requests for pages, which
  the recursive functions on the tree give in advance; if the policy, run on that sequence alone, neither
  overflows nor takes a frame that is pinned at that moment, insertion is the recursive insertion. A
  file of eleven pages, ten of the tree and its header, in the ten frames of \<open>BTree::new\<close> goes through.
\<close>

section \<open>Insertions, and the first one, for any pool that carries them\<close>

fun insertions_requests :: "page_id \<Rightarrow> nat \<Rightarrow> nat \<Rightarrow> leaf_kv list \<Rightarrow> shape \<times> page_id \<Rightarrow> request list" where
  "insertions_requests header lm im [] Tf = []"
| "insertions_requests header lm im (e # es) Tf =
     insertion_requests header (snd Tf) (route (fst e) lm im (fst Tf))
     @ insertions_requests header lm im es (tree_insert lm im e Tf)"

context request_pool
begin

lemma insert_runs:
  assumes inv: "tree_inv t T" and new: "key \<notin> fst ` set (contents T)"
    and w: "carries {#} {} (insertion_requests (bt_header_page_id t) (next_page_id (bt_pool t))
      (route key (unat (bt_leaf_max t)) (unat (bt_internal_max t)) T) @ rest) (bt_pool t)"
    and small: "unat (next_page_id (bt_pool t)) + height T + 1 < 2 ^ 32"
  obtains t' where "btree_insert key (rid_page_id r) (rid_slot_num r) t = Some (Inr t')" and "carries {#} {} rest (bt_pool t')"
    and "tree_inv t' (fst (tree_insert (unat (bt_leaf_max t)) (unat (bt_internal_max t)) (key, r) (T, next_page_id (bt_pool t))))"
    and "next_page_id (bt_pool t') = snd (tree_insert (unat (bt_leaf_max t)) (unat (bt_internal_max t)) (key, r) (T, next_page_id (bt_pool t)))"
    and "t' = t\<lparr>bt_root_page_id := bt_root_page_id t', bt_pool := bt_pool t'\<rparr>"
    and "num_frames (bt_pool t') = num_frames (bt_pool t)"
proof -
  let ?lm = "unat (bt_leaf_max t)" and ?im = "unat (bt_internal_max t)" and ?f = "next_page_id (bt_pool t)"
  have r: "(key, \<lparr>rid_page_id = rid_page_id r, rid_slot_num = rid_slot_num r\<rparr>) = (key, r)" by (cases r) simp
  obtain t' T' q m zs where I: "btree_insert key (rid_page_id r) (rid_slot_num r) t = Some (Inr t')" "tree_inv t' T'"
    "carries {#} {} rest (bt_pool t')" "t' = t\<lparr>bt_root_page_id := root_of T', bt_pool := bt_pool t'\<rparr>" "at_leaf key T q m zs"
    "T' = insert_shape ?lm ?im (key, r) ?f q m zs" "unat (next_page_id (bt_pool t')) = unat ?f + insert_pages ?lm ?im m zs"
    "num_frames (bt_pool t') = num_frames (bt_pool t)"
    by (rule btree_insert_runs [OF inv new w small, of "rid_page_id r" "rid_slot_num r", unfolded r])
  have shape: "tree_insert ?lm ?im (key, r) (T, ?f) = (insert_shape ?lm ?im (key, r) ?f q m zs, ?f + of_nat (insert_pages ?lm ?im m zs))"
    by (rule insert_shape_recursive) (simp add: I(5))
  have next': "next_page_id (bt_pool t') = ?f + of_nat (insert_pages ?lm ?im m zs)" by (rule word_eq_plus) (rule I(7))
  have root: "bt_root_page_id t' = root_of T'" by (subst I(4)) simp
  show ?thesis
  proof (rule that [OF I(1,3)])
    show "tree_inv t' (fst (tree_insert ?lm ?im (key, r) (T, ?f)))" unfolding shape fst_conv I(6) [symmetric] by (rule I(2))
    show "next_page_id (bt_pool t') = snd (tree_insert ?lm ?im (key, r) (T, ?f))" unfolding shape snd_conv by (rule next')
    show "t' = t\<lparr>bt_root_page_id := bt_root_page_id t', bt_pool := bt_pool t'\<rparr>" unfolding root by (rule I(4))
  qed (fact I(8))
qed

lemma insert_all_runs:
  assumes "tree_inv t T" and "fits (unat (bt_leaf_max t)) (unat (bt_internal_max t)) (2 ^ 31) es (T, next_page_id (bt_pool t))"
    and "carries {#} {} (insertions_requests (bt_header_page_id t) (unat (bt_leaf_max t)) (unat (bt_internal_max t)) es
      (T, next_page_id (bt_pool t)) @ rest) (bt_pool t)" and "unat (next_page_id (bt_pool t)) \<le> 2 ^ 31"
  obtains t' where "insert_all es t = Some (Inr t')" and "carries {#} {} rest (bt_pool t')"
    and "tree_inv t' (fst (fold (tree_insert (unat (bt_leaf_max t)) (unat (bt_internal_max t))) es (T, next_page_id (bt_pool t))))"
    and "next_page_id (bt_pool t') = snd (fold (tree_insert (unat (bt_leaf_max t)) (unat (bt_internal_max t))) es (T, next_page_id (bt_pool t)))"
    and "t' = t\<lparr>bt_root_page_id := bt_root_page_id t', bt_pool := bt_pool t'\<rparr>"
    and "num_frames (bt_pool t') = num_frames (bt_pool t)"
  using assms
proof (induction es arbitrary: t T thesis)
  case Nil
  show ?case by (rule Nil.prems(1) [of t]) (use Nil.prems(2,4) in simp_all)
next
  case (Cons e es)
  obtain key r where e: "e = (key, r)" by (cases e)
  let ?Tf = "tree_insert (unat (bt_leaf_max t)) (unat (bt_internal_max t)) (key, r) (T, next_page_id (bt_pool t))"
  have F: "height T \<le> 5" "key \<notin> fst ` set (contents T)" "unat (snd ?Tf) \<le> 2 ^ 31"
    "fits (unat (bt_leaf_max t)) (unat (bt_internal_max t)) (2 ^ 31) es ?Tf"
    using Cons.prems(3) by (simp_all add: e Let_def)
  have small: "unat (next_page_id (bt_pool t)) + height T + 1 < 2 ^ 32" using F(1) Cons.prems(5) by simp
  have w: "carries {#} {} (insertion_requests (bt_header_page_id t) (next_page_id (bt_pool t))
      (route key (unat (bt_leaf_max t)) (unat (bt_internal_max t)) T)
    @ insertions_requests (bt_header_page_id t) (unat (bt_leaf_max t)) (unat (bt_internal_max t)) es ?Tf @ rest) (bt_pool t)"
    using Cons.prems(4) by (simp add: e)
  obtain t1 where I: "btree_insert key (rid_page_id r) (rid_slot_num r) t = Some (Inr t1)"
    "carries {#} {} (insertions_requests (bt_header_page_id t) (unat (bt_leaf_max t)) (unat (bt_internal_max t)) es ?Tf @ rest) (bt_pool t1)"
    "tree_inv t1 (fst ?Tf)" "next_page_id (bt_pool t1) = snd ?Tf" "t1 = t\<lparr>bt_root_page_id := bt_root_page_id t1, bt_pool := bt_pool t1\<rparr>"
    "num_frames (bt_pool t1) = num_frames (bt_pool t)"
    by (rule insert_runs [OF Cons.prems(2) F(2) w small])
  have mx: "bt_leaf_max t1 = bt_leaf_max t" "bt_internal_max t1 = bt_internal_max t" "bt_header_page_id t1 = bt_header_page_id t"
    by (subst I(5), simp)+
  have fit1: "fits (unat (bt_leaf_max t1)) (unat (bt_internal_max t1)) (2 ^ 31) es (fst ?Tf, next_page_id (bt_pool t1))"
    unfolding mx I(4) prod.collapse by (rule F(4))
  have w1: "carries {#} {} (insertions_requests (bt_header_page_id t1) (unat (bt_leaf_max t1)) (unat (bt_internal_max t1)) es
      (fst ?Tf, next_page_id (bt_pool t1)) @ rest) (bt_pool t1)" unfolding mx I(4) prod.collapse by (rule I(2))
  have n1: "unat (next_page_id (bt_pool t1)) \<le> 2 ^ 31" unfolding I(4) by (rule F(3))
  obtain t' where J: "insert_all es t1 = Some (Inr t')" "carries {#} {} rest (bt_pool t')"
    "tree_inv t' (fst (fold (tree_insert (unat (bt_leaf_max t1)) (unat (bt_internal_max t1))) es (fst ?Tf, next_page_id (bt_pool t1))))"
    "next_page_id (bt_pool t') = snd (fold (tree_insert (unat (bt_leaf_max t1)) (unat (bt_internal_max t1))) es (fst ?Tf, next_page_id (bt_pool t1)))"
    "t' = t1\<lparr>bt_root_page_id := bt_root_page_id t', bt_pool := bt_pool t'\<rparr>" "num_frames (bt_pool t') = num_frames (bt_pool t1)"
    by (rule Cons.IH [OF _ I(3) fit1 w1 n1])
  note J' = J(3,4) [unfolded mx I(4) prod.collapse]
  have "t' = t\<lparr>bt_root_page_id := bt_root_page_id t', bt_pool := bt_pool t'\<rparr>"
    by (subst J(5), subst I(5)) simp
  then show ?case using J(1,2,6) J' I(1,6) by (intro Cons.prems(1) [of t']) (simp_all only: e insert_all.simps option.case sum.case fold.simps comp_apply)
qed

text \<open>The first insertion writes the header page, then the leaf.\<close>

lemma insert_first_runs:
  assumes emp: "empty_tree t" and small: "unat (next_page_id (bt_pool t)) + 1 < 2 ^ 32"
    and sz: "1 \<le> unat (bt_leaf_max t)" "unat (bt_leaf_max t) \<le> 511" "2 \<le> unat (bt_internal_max t)" "unat (bt_internal_max t) \<le> 681"
  defines "header \<equiv> bt_header_page_id t" and "q \<equiv> next_page_id (bt_pool t)"
  assumes w: "carries {#} {} (Alloc # Take header # Drop header # Take q # Drop q # rest) (bt_pool t)"
  obtains t' where "btree_insert key (rid_page_id r) (rid_slot_num r) t = Some (Inr t')" and "carries {#} {} rest (bt_pool t')"
    and "tree_inv t' (LeafAt q \<lparr>ln_next_page_id = INVALID_PAGE_ID, ln_entries = [(key, r)]\<rparr>)" and "next_page_id (bt_pool t') = q + 1"
    and "t' = t\<lparr>bt_root_page_id := q, bt_pool := bt_pool t'\<rparr>"
    and "num_frames (bt_pool t') = num_frames (bt_pool t)"
proof -
  let ?s = "bt_pool t" and ?n = "\<lparr>ln_next_page_id = INVALID_PAGE_ID, ln_entries = [(key, r)]\<rparr>"
  from emp obtain hb where R: "pool_ready ?s" "bt_root_page_id t = INVALID_PAGE_ID" "pool_view ?s header = Some hb"
    by (auto simp: empty_tree_def header_def)
  obtain s1 where N: "new_page ?s = Inr (q, s1)" "carries {#} {} (Take header # Drop header # Take q # Drop q # rest) s1"
    "pool_view s1 = (pool_view ?s)(q \<mapsto> replicate PAGE_SIZE 0)" "pool_view ?s q = None" "num_frames s1 = num_frames ?s" "next_page_id s1 = q + 1"
    unfolding q_def by (rule serve_alloc [OF w small]) (rule that, simp_all add: q_def)
  have hq: "header \<noteq> q" using R(3) N(4) by auto
  have hv: "pool_view s1 header = Some hb" using R(3) N(3) hq by simp
  obtain hb' where hb': "overwrite (set_root_page_id q) hb = Inr ((), hb')" "length hb' = PAGE_SIZE" "get_root_page_id hb' = Inr q"
    by (rule set_root_ok [OF serve_length [OF w R(3)]])
  obtain s2 where A: "with_write_page header (overwrite (set_root_page_id q)) s1 = Inr ((), s2)" "carries {#} {} (Take q # Drop q # rest) s2"
    "pool_view s2 = (pool_view s1)(header \<mapsto> hb')" "stays {#} s1 s2" "next_page_id s2 = next_page_id s1"
    by (rule serve_write [where k = "overwrite (set_root_page_id q)", OF N(2) hv hb'(1,2) unborrowed_none])
  obtain lb where lb: "leaf_encode ?n (replicate PAGE_SIZE 0) = Inr lb" "length lb = PAGE_SIZE" "\<And>v. v q = Some lb \<Longrightarrow> leaf_page v q ?n"
    by (rule leaf_write_ok [of "replicate PAGE_SIZE 0" ?n q]) simp_all
  have ow: "overwrite (leaf_encode ?n) (replicate PAGE_SIZE 0) = Inr ((), lb)" using lb(1) by (simp add: overwrite_def)
  have qv: "pool_view s2 q = Some (replicate PAGE_SIZE 0)" using A(3) N(3) hq by simp
  obtain s3 where B: "with_write_page q (overwrite (leaf_encode ?n)) s2 = Inr ((), s3)" "carries {#} {} rest s3"
    "pool_view s3 = (pool_view s2)(q \<mapsto> lb)" "stays {#} s2 s3" "next_page_id s3 = next_page_id s2"
    by (rule serve_write [where k = "overwrite (leaf_encode ?n)", OF A(2) qv ow lb(2) unborrowed_none])
  let ?t' = "t\<lparr>bt_root_page_id := q, bt_pool := s3\<rparr>"
  have "btree_insert key (rid_page_id r) (rid_slot_num r) t = Some (Inr ?t')"
    using R(2) N(1) A(1) B(1) by (cases r) (simp add: btree_insert_def insert_first_def header_def)
  moreover have "represents ?t' (LeafAt q ?n)"
  proof -
    have "pool_idle s3" by (rule carries_inv [OF B(2)])
    moreover have "0 < num_frames s3" using R(1) N(5) stays_frames [OF A(4)] stays_frames [OF B(4)] by (simp add: pool_ready_def)
    moreover have "pool_view s3 header = Some hb'" using B(3) A(3) hq by simp
    moreover have "leaf_page (pool_view s3) q ?n" using B(3) by (intro lb(3)) simp
    ultimately show ?thesis using hb'(3) by (simp add: represents_def pool_ready_def header_def)
  qed
  then have "tree_inv ?t' (LeafAt q ?n)" using sz hq by (simp add: tree_inv_def well_formed_def header_def)
  moreover have "num_frames s3 = num_frames ?s" using N(5) stays_frames [OF A(4)] stays_frames [OF B(4)] by simp
  ultimately show ?thesis using that [of ?t'] B(2,5) A(5) N(6) by simp
qed

end

section \<open>A pool of ten frames\<close>

text \<open>\<open>BTree::new\<close>, as far as the policy goes.\<close>

lemma btree_new_policy:
  assumes "faults f = []"
  obtains t where "btree_new (Some f) = Inr t" and "empty_tree t" and "bt_header_page_id t = 0" and "next_page_id (bt_pool t) = 1"
    and "num_frames (bt_pool t) = 10" and "policy_of (bt_pool t) = (arc_new 10, [], map of_nat [0..<10])"
    and "bt_leaf_max t = DEFAULT_LEAF_NODE_MAX_SIZE" and "bt_internal_max t = DEFAULT_INTERNAL_NODE_MAX_SIZE"
proof -
  obtain t where t: "btree_new (Some f) = Inr t" "empty_tree t" "bt_header_page_id t = 0" "num_frames (bt_pool t) = 10"
    "next_page_id (bt_pool t) = 1" "bt_leaf_max t = DEFAULT_LEAF_NODE_MAX_SIZE" "bt_internal_max t = DEFAULT_INTERNAL_NODE_MAX_SIZE"
    by (rule btree_new_ok [OF assms])
  have "policy_of (bt_pool t) = (arc_new 10, [], map of_nat [0..<10])"
    using t(1) by (auto simp: btree_new_def new_page_def Let_def seq_Inr_iff bpm_new_def policy_of_def)
  with that t show ?thesis by blast
qed

lemma sparedI:
  assumes "pool_idle s" and "survives {#} es (policy_of s)" and "length es < 2 ^ 64"
  shows "spared {#} {} es s"
  using assms by (simp add: spared_def)

lemma spared_survives: "spared {#} {} es s \<Longrightarrow> survives {#} es (policy_of s)"
  by (simp add: spared_def)

text \<open>Three records with leaves of one entry and nodes of two children; the fourth takes the file to eleven pages.\<close>

definition small_records :: "leaf_kv list" where
  "small_records = [(I64 20, \<lparr>rid_page_id = 2, rid_slot_num = 0\<rparr>), (I64 30, \<lparr>rid_page_id = 3, rid_slot_num = 0\<rparr>)]"

abbreviation "record_ten \<equiv> \<lparr>rid_page_id = 1, rid_slot_num = 0\<rparr>"
abbreviation "leaf_ten \<equiv> (LeafAt 1 \<lparr>ln_next_page_id = INVALID_PAGE_ID, ln_entries = [(I64 10, record_ten)]\<rparr>, 2 :: page_id)"

lemmas tree_eval = tree_insert_def grow_leaf_def join_node_def add_entry_def Let_def less_eq_i64_def less_i64_def i64_val_def

definition small_tree :: "shape \<times> page_id" where
  "small_tree = fold (tree_insert 1 2) small_records leaf_ten"

lemmas small_eval = small_records_def tree_eval

lemma small_fits: "fits 1 2 (2 ^ 31) small_records leaf_ten"
  by (simp add: small_eval)

lemma small_tree_eq:
  "small_tree = (NodeAt 6
     [(INVALID_KEY, NodeAt 3 [(INVALID_KEY, LeafAt 1 \<lparr>ln_next_page_id = 2, ln_entries = [(I64 10, record_ten)]\<rparr>)]),
      (I64 20, NodeAt 5
        [(INVALID_KEY, LeafAt 2 \<lparr>ln_next_page_id = 4, ln_entries = [(I64 20, \<lparr>rid_page_id = 2, rid_slot_num = 0\<rparr>)]\<rparr>),
         (I64 30, LeafAt 4 \<lparr>ln_next_page_id = INVALID_PAGE_ID, ln_entries = [(I64 30, \<lparr>rid_page_id = 3, rid_slot_num = 0\<rparr>)]\<rparr>)])], 7)"
  by (simp add: small_tree_def small_eval)

lemma small_requests:
  "insertions_requests 0 1 2 small_records leaf_ten
     = [Take 1, Drop 1, Alloc, Take 1, Take 2, Drop 2, Drop 1, Alloc, Take 3, Drop 3, Take 0, Drop 0, Take 3, Take 2, Drop 2, Take 2, Drop 2,
        Alloc, Take 2, Take 4, Drop 4, Drop 2, Alloc, Take 5, Drop 5, Drop 3, Alloc, Take 6, Drop 6, Take 0, Drop 0]"
  by (simp add: small_eval insertion_requests_def at_the_leaf_def)

lemma last_requests:
  "insertion_requests 0 7 (route (I64 40) 1 2 (fst small_tree))
     = [Take 6, Take 5, Drop 5, Take 5, Take 4, Drop 4, Take 4, Drop 4, Alloc, Take 4, Take 7, Drop 7, Drop 4, Alloc, Take 8, Drop 8, Drop 5,
        Alloc, Take 9, Drop 9, Drop 6, Alloc, Take 10, Drop 10, Take 0, Drop 0]"
  by (simp add: small_tree_eq insertion_requests_def at_the_leaf_def less_eq_i64_def less_i64_def i64_val_def)

lemmas policy_eval = policy_take_def make_room_def record_access_def set_evictable_def checked_add_def arc_new_def evict_def or_else_evict_def
  evict_from_mru_ghost_def evict_from_mfu_ghost_def checked_sub_def remove_nth_def Let_def

lemma ten_frames_survive:
  "survives {#} ([Alloc, Take 0, Drop 0, Take 1, Drop 1] @ insertions_requests 0 1 2 small_records leaf_ten
     @ insertion_requests 0 7 (route (I64 40) 1 2 (fst small_tree))) (arc_new 10, [], map of_nat [0..<10])"
  unfolding small_requests last_requests
  by (simp add: policy_eval upt_rec)

text \<open>The state of a tree opened on a file after the three records.\<close>

lemma small_tree_state:
  obtains t where "tree_inv t (fst small_tree)" and "next_page_id (bt_pool t) = 7" and "num_frames (bt_pool t) = 10"
    and "unat (bt_leaf_max t) = 1" and "unat (bt_internal_max t) = 2" and "bt_header_page_id t = 0"
    and "survives {#} (insertion_requests 0 7 (route (I64 40) 1 2 (fst small_tree))) (policy_of (bt_pool t))"
proof -
  let ?last = "insertion_requests 0 7 (route (I64 40) 1 2 (fst small_tree))"
  have "faults \<lparr>fbytes = [], fpos = 0, faults = []\<rparr> = []" by simp
  from btree_new_policy [OF this] obtain t0 where T0: "empty_tree t0" "bt_header_page_id t0 = 0" "next_page_id (bt_pool t0) = 1"
    "num_frames (bt_pool t0) = 10" "policy_of (bt_pool t0) = (arc_new 10, [], map of_nat [0..<10])" by metis
  define t where "t = set_internal_max_size 2 (set_leaf_max_size 1 t0)"
  have t: "empty_tree t" "bt_header_page_id t = 0" "bt_pool t = bt_pool t0" "unat (bt_leaf_max t) = 1" "unat (bt_internal_max t) = 2"
    using T0 by (simp_all add: t_def empty_tree_def set_internal_max_size_def set_leaf_max_size_def)
  have "length ([Alloc, Take 0, Drop 0, Take 1, Drop 1] @ insertions_requests 0 1 2 small_records leaf_ten @ ?last) < 2 ^ 64"
    unfolding small_requests last_requests by simp
  moreover have "pool_idle (bt_pool t0)" using T0(1) by (simp add: empty_tree_def pool_ready_def)
  ultimately have w0: "spared {#} {} ([Alloc, Take 0, Drop 0, Take 1, Drop 1] @ insertions_requests 0 1 2 small_records leaf_ten @ ?last) (bt_pool t)"
    unfolding t(3) using sparedI ten_frames_survive unfolding T0(5) [symmetric] by blast
  have w1: "spared {#} {} (Alloc # Take (bt_header_page_id t) # Drop (bt_header_page_id t) # Take (next_page_id (bt_pool t))
      # Drop (next_page_id (bt_pool t)) # insertions_requests 0 1 2 small_records leaf_ten @ ?last) (bt_pool t)"
    using w0 by (simp add: t(2,3) T0(3))
  have sz: "1 \<le> unat (bt_leaf_max t)" "unat (bt_leaf_max t) \<le> 511" "2 \<le> unat (bt_internal_max t)" "unat (bt_internal_max t) \<le> 681"
    by (simp_all add: t(4,5))
  have "unat (next_page_id (bt_pool t)) + 1 < 2 ^ 32" by (simp add: t(3) T0(3))
  then obtain t1 where F: "spared {#} {} (insertions_requests 0 1 2 small_records leaf_ten @ ?last) (bt_pool t1)"
    "tree_inv t1 (fst leaf_ten)" "next_page_id (bt_pool t1) = snd leaf_ten" "t1 = t\<lparr>bt_root_page_id := 1, bt_pool := bt_pool t1\<rparr>"
    "num_frames (bt_pool t1) = 10"
    by (rule spared.insert_first_runs [OF t(1) _ sz w1, of "I64 10" record_ten]) (simp_all add: t(3) T0(3,4))
  have mx: "unat (bt_leaf_max t1) = 1" "unat (bt_internal_max t1) = 2" "bt_header_page_id t1 = 0"
    by (subst F(4), simp add: t)+
  have fit: "fits (unat (bt_leaf_max t1)) (unat (bt_internal_max t1)) (2 ^ 31) small_records (fst leaf_ten, next_page_id (bt_pool t1))"
    unfolding mx F(3) prod.collapse by (rule small_fits)
  have w2: "spared {#} {} (insertions_requests (bt_header_page_id t1) (unat (bt_leaf_max t1)) (unat (bt_internal_max t1)) small_records
      (fst leaf_ten, next_page_id (bt_pool t1)) @ ?last) (bt_pool t1)" unfolding mx F(3) prod.collapse by (rule F(1))
  have "unat (next_page_id (bt_pool t1)) \<le> 2 ^ 31" unfolding F(3) by simp
  then obtain t2 where A: "spared {#} {} ?last (bt_pool t2)"
    "tree_inv t2 (fst (fold (tree_insert (unat (bt_leaf_max t1)) (unat (bt_internal_max t1))) small_records (fst leaf_ten, next_page_id (bt_pool t1))))"
    "next_page_id (bt_pool t2) = snd (fold (tree_insert (unat (bt_leaf_max t1)) (unat (bt_internal_max t1))) small_records (fst leaf_ten, next_page_id (bt_pool t1)))"
    "t2 = t1\<lparr>bt_root_page_id := bt_root_page_id t2, bt_pool := bt_pool t2\<rparr>" "num_frames (bt_pool t2) = num_frames (bt_pool t1)"
    by (rule spared.insert_all_runs [OF F(2) fit w2])
  note A' = A(2,3) [unfolded mx F(3) prod.collapse, folded small_tree_def]
  have mx2: "unat (bt_leaf_max t2) = 1" "unat (bt_internal_max t2) = 2" "bt_header_page_id t2 = 0"
    by (subst A(4), simp add: mx)+
  have "snd small_tree = 7" by (simp add: small_tree_eq)
  with that [OF A'(1) _ _ mx2 spared_survives [OF A(1)]] A'(2) A(5) F(5) show ?thesis by simp
qed

section \<open>Properties\<close>

lemma length_walk: "length (walk ps ms) \<le> 4 * length ms + length ps"
  by (induction ps ms rule: walk.induct) auto

lemma length_climb: "length (climb header f ms) \<le> 4 * length ms + 5"
  by (induction header f ms rule: climb.induct) auto

lemma insertion_requests_length:
  assumes "tree_inv t T"
  shows "length (insertion_requests header f (route key lm im T)) \<le> 8 * height T + 8"
proof -
  have "ordered INVALID_KEY None T" using assms by (simp add: tree_inv_def represents_def)
  from at_leaf_exists [OF this] obtain q m zs where at: "at_leaf key T q m zs" by blast
  obtain h where h: "balanced h T" using assms by (auto simp: tree_inv_def well_formed_def)
  have "h = 1 + length zs" using plug_balancedD [of h "LeafAt q m" zs] h at by (auto simp: at_leaf_def)
  then have ht: "height T = Suc (length zs)" using balanced_height [OF h] by simp
  let ?rt = "route key lm im T"
  have tl: "length (tl ?rt) = length zs" by (simp add: route_leaf [OF at] marks_def)
  have rt: "at_the_leaf header f (rev ?rt) = Drop q # (if length (ln_entries m) < lm then []
      else Alloc # Take q # Take f # Drop f # Drop q # climb header (f + 1) (marks im zs))"
    by (simp add: route_leaf [OF at] at_the_leaf_def)
  have "length (walk [fst (hd ?rt)] (tl ?rt)) \<le> 4 * length zs + 1" using length_walk [of "[fst (hd ?rt)]" "tl ?rt"] tl by simp
  moreover have "length (at_the_leaf header f (rev ?rt)) \<le> 4 * length zs + 11"
    using length_climb [of header "f + 1" "marks im zs"] by (simp add: rt marks_def)
  ultimately show ?thesis by (simp add: insertion_requests_def ht)
qed

text \<open>C4: Insertion while pages are evicted. With any number of frames, inserting a new key succeeds and leaves on the
  pages exactly the tree of the recursive insertion, provided the replacement policy gets through the insertion's page
  requests. That is a condition on the policy's lists, the page table and the free list alone, not on bytes: running
  \<open>survives\<close> on the requests, which the tree and the key determine, meets no arithmetic overflow and never picks as a
  victim a frame that the requests have pinned.\<close>

theorem insert_through_evictions:
  assumes "tree_inv t T" and "key \<notin> fst ` set (contents T)" and "unat (next_page_id (bt_pool t)) + height T + 1 < 2 ^ 32"
    and "survives {#} (insertion_requests (bt_header_page_id t) (next_page_id (bt_pool t))
      (route key (unat (bt_leaf_max t)) (unat (bt_internal_max t)) T)) (policy_of (bt_pool t))"
  shows "\<exists>t' T'. btree_insert key p slot_num t = Some (Inr t') \<and> tree_inv t' T'
    \<and> (T', next_page_id (bt_pool t')) = tree_insert (unat (bt_leaf_max t)) (unat (bt_internal_max t))
        (key, \<lparr>rid_page_id = p, rid_slot_num = slot_num\<rparr>) (T, next_page_id (bt_pool t))"
proof -
  let ?es = "insertion_requests (bt_header_page_id t) (next_page_id (bt_pool t)) (route key (unat (bt_leaf_max t)) (unat (bt_internal_max t)) T)"
  have "pool_idle (bt_pool t)" using assms(1) by (simp add: tree_inv_def represents_def pool_ready_def)
  moreover have "length ?es < 2 ^ 64"
  proof (rule le_less_trans [OF insertion_requests_length [OF assms(1)]])
    have "height T < 2 ^ 32" using assms(3) by simp
    then show "8 * height T + 8 < 2 ^ 64" by simp
  qed
  ultimately have w: "spared {#} {} (?es @ []) (bt_pool t)" using sparedI assms(4) by simp
  show ?thesis
    by (rule spared.insert_runs [OF assms(1,2) w assms(3), of "\<lparr>rid_page_id = p, rid_slot_num = slot_num\<rparr>"])
      (auto simp: prod_eq_iff intro!: exI)
qed

theorem insert_through_evictions_witness:
  "\<exists>t t'. num_frames (bt_pool t) = 10 \<and> next_page_id (bt_pool t) = 7 \<and> btree_insert (I64 40) 4 0 t = Some (Inr t')
    \<and> next_page_id (bt_pool t') = 11 \<and> (\<exists>T'. tree_inv t' T' \<and> root_of T' = 10 \<and> map fst (contents T') = [I64 10, I64 20, I64 30, I64 40])"
proof -
  obtain t where t: "tree_inv t (fst small_tree)" "next_page_id (bt_pool t) = 7" "num_frames (bt_pool t) = 10"
    "unat (bt_leaf_max t) = 1" "unat (bt_internal_max t) = 2" "bt_header_page_id t = 0"
    "survives {#} (insertion_requests 0 7 (route (I64 40) 1 2 (fst small_tree))) (policy_of (bt_pool t))" by (rule small_tree_state)
  have new: "I64 40 \<notin> fst ` set (contents (fst small_tree))" and ht: "unat (next_page_id (bt_pool t)) + height (fst small_tree) + 1 < 2 ^ 32"
    by (simp_all add: small_tree_eq t(2) contents_def)
  from insert_through_evictions [OF t(1) new ht, of 4 0] t obtain t' T' where
    I: "btree_insert (I64 40) 4 0 t = Some (Inr t')" "tree_inv t' T'"
      "(T', next_page_id (bt_pool t')) = tree_insert 1 2 (I64 40, \<lparr>rid_page_id = 4, rid_slot_num = 0\<rparr>) (fst small_tree, 7)" by auto
  have "next_page_id (bt_pool t') = 11 \<and> root_of T' = 10 \<and> map fst (contents T') = [I64 10, I64 20, I64 30, I64 40]"
    using I(3) by (simp add: small_tree_eq tree_eval contents_def)
  with I(1,2) t(2,3) show ?thesis by (intro exI [of _ t] exI [of _ t'] conjI exI [of _ T']) simp_all
qed

end
