(* ===== verification/ArcPolicy.thy ===== *)
theory ArcPolicy
  imports ArcReplacer
begin

text \<open>
  What one access does to the replacer, written over lists and natural numbers and proved equal to the code's, and
  what its lists satisfy in every state its five operations can reach, \<open>remove\<close> included.
\<close>

section \<open>What an access does, in full\<close>

text \<open>The target after a ghost hit, over the natural numbers: \<open>n\<close> frames, target \<open>t\<close>, lengths \<open>lr\<close> and \<open>lf\<close> of the MRU and
  the MFU ghost lists.\<close>

definition grown_target :: "nat \<Rightarrow> nat \<Rightarrow> nat \<Rightarrow> nat \<Rightarrow> nat" where
  "grown_target n t lr lf =
     (if lf \<le> lr \<and> t + 1 < n then t + 1 else if t + lf div lr \<le> n then t + lf div lr else t)"

definition shrunk_target :: "nat \<Rightarrow> nat \<Rightarrow> nat \<Rightarrow> nat" where
  "shrunk_target t lr lf = (if lr \<le> lf \<and> 1 < t then t - 1 else if lr div lf \<le> t then t - lr div lf else t)"

text \<open>The four lists and the target after an access, if it does not overflow. A page in no list makes room for itself by
  trimming the ghost lists: the MRU list and its ghost hold at most \<open>n\<close> entries, all four lists at most \<open>2 * n\<close>.\<close>

definition access_spec :: "frame_id \<Rightarrow> page_id \<Rightarrow> arc_replacer
    \<Rightarrow> ((frame_id \<times> page_id) list \<times> (frame_id \<times> page_id) list \<times> page_id list \<times> page_id list \<times> nat) option" where
  "access_spec f p s =
     (let n = replacer_size s; t = unat (mru_target_size s); lr = length (mru_ghost s); lf = length (mfu_ghost s)
      in if p \<in> snd ` tracked s then
           Some (filter (\<lambda>e. snd e \<noteq> p) (mru s), (f, p) # filter (\<lambda>e. snd e \<noteq> p) (mfu s), mru_ghost s, mfu_ghost s, t)
         else if p \<in> set (mru_ghost s) then
           Some (mru s, (f, p) # mfu s, remove1 p (mru_ghost s), mfu_ghost s, grown_target n t lr lf)
         else if p \<in> set (mfu_ghost s) then
           (if lr \<le> lf \<and> t = 0 then None
            else Some (mru s, (f, p) # mfu s, mru_ghost s, remove1 p (mfu_ghost s), shrunk_target t lr lf))
         else
           let b1 = take (n - 1 - length (mru s)) (mru_ghost s)
           in Some ((f, p) # mru s, mfu s, b1, take (2 * n - 1 - (length (mru s) + length (mfu s) + length b1)) (mfu_ghost s), t))"

lemma mru_ghost_target_exact:
  assumes inv: "arc_inv s" and ne: "mru_ghost s \<noteq> []"
  shows "\<exists>t. mru_ghost_target s = Inr t
    \<and> unat t = grown_target (replacer_size s) (unat (mru_target_size s)) (length (mru_ghost s)) (length (mfu_ghost s))"
proof -
  let ?n = "replacer_size s" and ?t = "mru_target_size s"
  let ?inc = "length (mfu_ghost s) div length (mru_ghost s)"
  have n: "?n < 2 ^ 30" "unat ?t \<le> ?n" "length (mfu_ghost s) \<le> 2 * ?n"
    using inv by (simp_all add: arc_inv_def)
  have size: "usize_to_u32 ?n = Inr (of_nat ?n)" "unat (of_nat ?n :: u32) = ?n"
    using n(1) by (simp_all add: usize_to_u32_def unat_of_nat_u32)
  obtain t1 where t1: "checked_add ?t 1 = Inr t1" "unat t1 = unat ?t + 1"
    using checked_add_ok [of ?t 1] n by auto
  have "?inc \<le> 2 * ?n" using n(3) div_le_dividend le_trans by blast
  then have inc: "unat (of_nat ?inc :: u32) = ?inc" using n(1) by (intro unat_of_nat_u32) simp
  then obtain t2 where t2: "checked_add ?t (of_nat ?inc) = Inr t2" "unat t2 = unat ?t + ?inc"
    using checked_add_ok [of ?t "of_nat ?inc"] n \<open>?inc \<le> 2 * ?n\<close> by auto
  show ?thesis
    using t1 t2 size n(2) ne
    by (auto simp: mru_ghost_target_def grown_target_def Let_def word_less_nat_alt word_le_nat_alt)
qed

lemma mfu_ghost_target_exact:
  assumes inv: "arc_inv s" and ne: "mfu_ghost s \<noteq> []"
  shows "if length (mru_ghost s) \<le> length (mfu_ghost s) \<and> unat (mru_target_size s) = 0
    then mfu_ghost_target s = Inl ArithOverflow
    else \<exists>t. mfu_ghost_target s = Inr t
      \<and> unat t = shrunk_target (unat (mru_target_size s)) (length (mru_ghost s)) (length (mfu_ghost s))"
proof -
  let ?t = "mru_target_size s"
  let ?dec = "length (mru_ghost s) div length (mfu_ghost s)"
  have "length (mru_ghost s) < 2 ^ 30" using inv by (simp add: arc_inv_def)
  then have "?dec < 2 ^ 30" using div_le_dividend le_less_trans by blast
  then have dec: "unat (of_nat ?dec :: u32) = ?dec" by (intro unat_of_nat_u32) simp
  have sub: "checked_sub ?t a = (if unat a \<le> unat ?t then Inr (?t - a) else Inl ArithOverflow)" for a
    by (simp add: checked_sub_def word_le_nat_alt)
  have un: "unat (?t - a) = unat ?t - unat a" if "unat a \<le> unat ?t" for a
    using that by (simp add: unat_sub word_le_nat_alt)
  show ?thesis
    using ne un dec by (auto simp: mfu_ghost_target_def shrunk_target_def Let_def sub word_le_nat_alt word_less_nat_alt)
qed

lemma filter_pair:
  assumes "\<forall>e \<in> set xs. snd e = p \<longrightarrow> e = (f, p)"
  shows "filter (\<lambda>e. e \<noteq> (f, p)) xs = filter (\<lambda>e. snd e \<noteq> p) xs"
  using assms by (intro filter_cong) auto

lemma filter_page: "distinct xs \<Longrightarrow> filter (\<lambda>a. a \<noteq> p) xs = remove1 p xs"
  by (simp add: distinct_remove1_removeAll removeAll_filter_not_eq eq_commute)

text \<open>The equality, case by case.\<close>

lemma record_access_spec:
  assumes inv0: "arc_inv s0" and ok: "access_ok f p s0"
  shows "case access_spec f p s0 of
      None \<Rightarrow> record_access f p s0 = Inl ArithOverflow
    | Some (m, g, b1, b2, t) \<Rightarrow> \<exists>s'. record_access f p s0 = Inr s' \<and> mru s' = m \<and> mfu s' = g \<and> mru_ghost s' = b1 \<and> mfu_ghost s' = b2
        \<and> unat (mru_target_size s') = t"
proof -
  define s where "s = stamp f p s0"
  have inv: "arc_inv s" using inv0 by (simp add: s_def)
  have ok': "access_ok f p s" using ok by (simp add: s_def access_ok_def)
  have spec: "access_spec f p s0 = access_spec f p s" by (simp add: access_spec_def s_def Let_def)
  note ra = record_access_def [of f p s0, unfolded Let_def, folded stamp_def, folded s_def]
  have d: "distinct (mru_ghost s)" "distinct (mfu_ghost s)" using inv by (simp_all add: arc_inv_def)
  show ?thesis unfolding spec
  proof (cases "(f, p) \<in> tracked s")
    case True
    then have p: "p \<in> snd ` tracked s" by force
    have "inj_on snd (set (mru s @ mfu s))" using inv unfolding arc_inv_def by (simp only: distinct_append distinct_map)
    moreover have "(f, p) \<in> set (mru s @ mfu s)" using True by (simp add: tracked_def)
    ultimately have "e = (f, p)" if "e \<in> set (mru s @ mfu s)" "snd e = p" for e
      using inj_onD [of snd "set (mru s @ mfu s)" e "(f, p)"] that by simp
    then have "\<forall>e \<in> set (mru s). snd e = p \<longrightarrow> e = (f, p)" "\<forall>e \<in> set (mfu s). snd e = p \<longrightarrow> e = (f, p)" by auto
    then show "case access_spec f p s of None \<Rightarrow> record_access f p s0 = Inl ArithOverflow
      | Some (m, g, b1, b2, t) \<Rightarrow> \<exists>s'. record_access f p s0 = Inr s' \<and> mru s' = m \<and> mfu s' = g \<and> mru_ghost s' = b1 \<and> mfu_ghost s' = b2
        \<and> unat (mru_target_size s') = t"
      using True p ra filter_pair [of "mru s" p f] filter_pair [of "mfu s" p f] by (simp add: access_spec_def Let_def tracked_def)
  next
    case False
    then have new: "f \<notin> fst ` tracked s" "p \<notin> snd ` tracked s" "unat f < replacer_size s"
      using ok' by (auto simp: access_ok_def)
    have notin: "\<not> ((f, p) \<in> set (mru s) \<or> (f, p) \<in> set (mfu s))" using False by (simp add: tracked_def)
    show "case access_spec f p s of None \<Rightarrow> record_access f p s0 = Inl ArithOverflow
      | Some (m, g, b1, b2, t) \<Rightarrow> \<exists>s'. record_access f p s0 = Inr s' \<and> mru s' = m \<and> mfu s' = g \<and> mru_ghost s' = b1 \<and> mfu_ghost s' = b2
        \<and> unat (mru_target_size s') = t"
    proof (cases "p \<in> set (mru_ghost s)")
      case True
      then have "mru_ghost s \<noteq> []" by auto
      from mru_ghost_target_exact [OF inv this] True new(2) notin ra show ?thesis
        by (auto simp: access_spec_def Let_def filter_page [OF d(1)])
    next
      case miss1: False
      show ?thesis
      proof (cases "p \<in> set (mfu_ghost s)")
        case True
        then have "mfu_ghost s \<noteq> []" by auto
        from mfu_ghost_target_exact [OF inv this] True miss1 new(2) notin ra show ?thesis
          by (auto simp: access_spec_def Let_def filter_page [OF d(2)] split: if_splits)
      next
        case miss2: False
        note room = arc_resident_room [OF inv new(3,1)]
        have sizes: "length (mru s) + length (mru_ghost s) \<le> replacer_size s"
          "length (mru s) + length (mfu s) + length (mru_ghost s) + length (mfu_ghost s) \<le> 2 * replacer_size s"
          using inv by (simp_all add: arc_inv_def)
        show ?thesis
          using ra notin miss1 miss2 new(2) room sizes
          by (auto simp: access_spec_def Let_def butlast_conv_take take_all not_less intro: arg_cong [where f = "\<lambda>k. take k xs" for xs])
      qed
    qed
  qed
qed


section \<open>Removing a frame\<close>

text \<open>\<open>remove\<close> only filters the lists.\<close>

lemma disjoint_parts: "A \<subseteq> A' \<Longrightarrow> B \<subseteq> B' \<Longrightarrow> A' \<inter> B' = {} \<Longrightarrow> A \<inter> B = {}"
  by blast

lemma arc_inv_filtered:
  assumes inv: "arc_inv s" and "mru s' = filter P (mru s)" and "mfu s' = filter Q (mfu s)" and "mru_ghost s' = filter R (mru_ghost s)"
    and "mfu_ghost s' = filter S (mfu_ghost s)" and "mru_target_size s' = mru_target_size s" and "replacer_size s' = replacer_size s"
    and "evictable_pages s' \<subseteq> evictable_pages s" and "curr_size s' = curr_size s"
  shows "arc_inv s'"
proof -
  have sub: "set (mru s') \<subseteq> set (mru s)" "set (mfu s') \<subseteq> set (mfu s)" "set (mru_ghost s') \<subseteq> set (mru_ghost s)"
    "set (mfu_ghost s') \<subseteq> set (mfu_ghost s)" using assms by auto
  have len: "length (mru s') \<le> length (mru s)" "length (mfu s') \<le> length (mfu s)" "length (mru_ghost s') \<le> length (mru_ghost s)"
    "length (mfu_ghost s') \<le> length (mfu_ghost s)" using assms by simp_all
  have fr: "distinct (map fst (mru s'))" "distinct (map fst (mfu s'))" "distinct (map snd (mru s'))" "distinct (map snd (mfu s'))"
    "distinct (mru_ghost s')" "distinct (mfu_ghost s')"
    using inv assms(2-5) by (auto simp: arc_inv_def distinct_map_filter)
  have "finite (evictable_pages s')" "card (evictable_pages s') \<le> card (evictable_pages s)"
    using inv assms(8) by (auto simp: arc_inv_def intro: finite_subset card_mono)
  moreover have "fst ` set (mru s') \<inter> fst ` set (mfu s') = {}"
  proof -
    have "fst ` set (mru s) \<inter> fst ` set (mfu s) = {}" using inv by (simp add: arc_inv_def)
    with image_mono [OF sub(1), of fst] image_mono [OF sub(2), of fst] show ?thesis by blast
  qed
  moreover have "snd ` set (mru s') \<inter> (snd ` set (mfu s') \<union> (set (mru_ghost s') \<union> set (mfu_ghost s'))) = {}"
    "snd ` set (mfu s') \<inter> (set (mru_ghost s') \<union> set (mfu_ghost s')) = {}" "set (mru_ghost s') \<inter> set (mfu_ghost s') = {}"
  proof -
    have "snd ` set (mru s) \<inter> (snd ` set (mfu s) \<union> (set (mru_ghost s) \<union> set (mfu_ghost s))) = {}"
      "snd ` set (mfu s) \<inter> (set (mru_ghost s) \<union> set (mfu_ghost s)) = {}" "set (mru_ghost s) \<inter> set (mfu_ghost s) = {}"
      using inv by (simp_all add: arc_inv_def)
    note old = this
    note img = image_mono [OF sub(1), of snd] image_mono [OF sub(2), of snd]
    show "snd ` set (mru s') \<inter> (snd ` set (mfu s') \<union> (set (mru_ghost s') \<union> set (mfu_ghost s'))) = {}"
      by (rule disjoint_parts [OF img(1) Un_mono [OF img(2) Un_mono [OF sub(3,4)]] old(1)])
    show "snd ` set (mfu s') \<inter> (set (mru_ghost s') \<union> set (mfu_ghost s')) = {}"
      by (rule disjoint_parts [OF img(2) Un_mono [OF sub(3,4)] old(2)])
    show "set (mru_ghost s') \<inter> set (mfu_ghost s') = {}" by (rule disjoint_parts [OF sub(3,4) old(3)])
  qed
  moreover have "\<forall>f \<in> fst ` tracked s'. unat f < replacer_size s'"
  proof -
    have "\<forall>f \<in> fst ` tracked s. unat f < replacer_size s" using inv by (simp add: arc_inv_def)
    moreover have "tracked s' \<subseteq> tracked s" unfolding tracked_def by (rule Un_mono [OF sub(1,2)])
    ultimately show ?thesis unfolding assms(7) by blast
  qed
  moreover have "length (mru s') + length (mru_ghost s') \<le> replacer_size s'"
    "length (mru s') + length (mfu s') + length (mru_ghost s') + length (mfu_ghost s') \<le> 2 * replacer_size s'"
  proof -
    have "length (mru s) + length (mru_ghost s) \<le> replacer_size s"
      "length (mru s) + length (mfu s) + length (mru_ghost s) + length (mfu_ghost s) \<le> 2 * replacer_size s"
      using inv by (simp_all add: arc_inv_def)
    with len show "length (mru s') + length (mru_ghost s') \<le> replacer_size s'"
      "length (mru s') + length (mfu s') + length (mru_ghost s') + length (mfu_ghost s') \<le> 2 * replacer_size s'"
      unfolding assms(7) by linarith+
  qed
  moreover have "unat (mru_target_size s) \<le> replacer_size s" "replacer_size s < 2 ^ 30" "card (evictable_pages s) \<le> unat (curr_size s)"
    using inv by (simp_all add: arc_inv_def)
  moreover from this \<open>card (evictable_pages s') \<le> _\<close> have "card (evictable_pages s') \<le> unat (curr_size s)" by linarith
  ultimately show ?thesis using fr unfolding arc_inv_def assms(6,7,9)
    by (simp only: map_append set_append set_map distinct_append Int_Un_distrib Int_Un_distrib2 Un_empty simp_thms)
qed

lemma arc_remove_inv:
  assumes "arc_inv s"
  shows "arc_inv (arc_remove f s) \<and> replacer_size (arc_remove f s) = replacer_size s"
proof (cases "f \<in> evictable_pages s")
  case True
  with assms show ?thesis by (simp add: arc_remove_def)
next
  case False
  let ?s = "arc_remove f s"
  have "\<exists>P Q R S. mru ?s = filter P (mru s) \<and> mfu ?s = filter Q (mfu s) \<and> mru_ghost ?s = filter R (mru_ghost s)
      \<and> mfu_ghost ?s = filter S (mfu_ghost s)"
    using False by (auto simp: arc_remove_def Let_def split: option.split intro: filter_True [symmetric])
  moreover have "mru_target_size ?s = mru_target_size s" "replacer_size ?s = replacer_size s" "evictable_pages ?s \<subseteq> evictable_pages s"
    "curr_size ?s = curr_size s"
    using False by (auto simp: arc_remove_def Let_def split: option.split)
  ultimately show ?thesis using arc_inv_filtered [OF assms, of ?s] by blast
qed

section \<open>Reachable states\<close>

text \<open>Any sequence of calls on a new replacer for \<open>n\<close> frames. The flag says whether every access so far was of a pair the
  replacer holds, or of a frame and a page neither of which it holds (\<open>access_ok\<close>). The buffer pool calls it
  that way until the first deletion of a page it has in a frame.\<close>

inductive arc_run :: "nat \<Rightarrow> bool \<Rightarrow> arc_replacer \<Rightarrow> bool" where
  arc_start: "arc_run n True (arc_new n)"
| arc_access: "arc_run n ok s \<Longrightarrow> record_access f p s = Inr s' \<Longrightarrow> arc_run n (ok \<and> access_ok f p s) s'"
| arc_mark: "arc_run n ok s \<Longrightarrow> set_evictable f s = Inr s' \<Longrightarrow> arc_run n ok s'"
| arc_evict: "arc_run n ok s \<Longrightarrow> evict s = Inr (r, s') \<Longrightarrow> arc_run n ok s'"
| arc_drop: "arc_run n ok s \<Longrightarrow> arc_run n ok (arc_remove f s)"

text \<open>What holds without the flag.\<close>

definition arc_bounded :: "nat \<Rightarrow> arc_replacer \<Rightarrow> bool" where
  "arc_bounded n s \<longleftrightarrow> replacer_size s = n \<and> length (mru s) + length (mru_ghost s) \<le> n + 1 \<and> unat (mru_target_size s) \<le> n"

lemma mru_ghost_target_bound:
  assumes "mru_ghost_target s = Inr t" and "unat (mru_target_size s) \<le> replacer_size s" and "replacer_size s < 2 ^ 30"
  shows "unat t \<le> replacer_size s"
proof -
  have size: "usize_to_u32 (replacer_size s) = Inr (of_nat (replacer_size s))" "unat (of_nat (replacer_size s) :: u32) = replacer_size s"
    using assms(3) by (simp_all add: usize_to_u32_def unat_of_nat_u32)
  have "t = mru_target_size s \<or> t \<le> of_nat (replacer_size s)"
    using assms(1) size(1) by (auto simp: mru_ghost_target_def Let_def seq_Inr_iff split: if_splits)
  then show ?thesis using assms(2) size(2) by (auto simp: word_le_nat_alt)
qed

lemma mfu_ghost_target_bound: "mfu_ghost_target s = Inr t \<Longrightarrow> unat t \<le> unat (mru_target_size s)"
  by (auto simp: mfu_ghost_target_def Let_def seq_Inr_iff checked_sub_def word_le_nat_alt unat_sub_if' split: if_splits)

lemma access_bounded:
  assumes b: "arc_bounded n s" and n: "n < 2 ^ 30" and run: "record_access f p s = Inr s'"
  shows "arc_bounded n s'"
proof -
  let ?s = "stamp f p s"
  note ra = run [unfolded record_access_def Let_def, folded stamp_def]
  have t1: "unat t \<le> n" if "mru_ghost_target ?s = Inr t" for t using mru_ghost_target_bound [OF that] b n by (simp add: arc_bounded_def)
  have t2: "unat t \<le> n" if "mfu_ghost_target ?s = Inr t" for t
    using mfu_ghost_target_bound [OF that] b by (simp add: arc_bounded_def)
  have le: "length (filter P xs) + k \<le> m" if "length xs + k \<le> m" for P and xs :: "'x list" and k m
    using length_filter_le [of P xs] that by linarith
  have lf: "length (mru s) + length (filter P (mru_ghost s)) \<le> n + 1" "length (filter Q (mru s)) + length (mru_ghost s) \<le> n + 1" for P Q
    using le [of "mru_ghost s" "length (mru s)" "n + 1" P] le [of "mru s" "length (mru_ghost s)" "n + 1" Q] b
    by (simp_all add: arc_bounded_def add.commute)
  show ?thesis
    using ra b t1 t2 lf unfolding arc_bounded_def by (auto simp: seq_Inr_iff split: if_splits)
qed

lemma evict_bounded:
  assumes "arc_bounded n s" and "evict s = Inr (r, s')"
  shows "arc_bounded n s'"
proof (cases r)
  case None
  have "s1 = s" if "evict_from_mru_ghost s = Inr (None, s1) \<or> evict_from_mfu_ghost s = Inr (None, s1)" for s1
    using that by (auto simp: evict_from_none)
  then have "s' = s" using assms(2) None
    by (auto simp: evict_def or_else_evict_def seq_Inr_iff evict_from_none split: if_splits option.splits dest!: evict_from_none)
  with assms(1) show ?thesis by simp
next
  case (Some f)
  with assms(2) have "evict s = Inr (Some f, s')" by simp
  from evict_which [OF this] have "length (mru s') + length (mru_ghost s') = length (mru s) + length (mru_ghost s)
    \<and> replacer_size s' = replacer_size s \<and> mru_target_size s' = mru_target_size s"
    using length_remove_nth [of _ "mru s"]
    by (auto simp: evict_from_mru_ghost_def evict_from_mfu_ghost_def Let_def seq_Inr_iff
        split: option.splits prod.splits dest!: scan_back_Some)
  with assms(1) show ?thesis by (simp add: arc_bounded_def)
qed

lemma arc_run_inv: "arc_run n ok s \<Longrightarrow> n < 2 ^ 30 \<Longrightarrow> arc_bounded n s \<and> (ok \<longrightarrow> arc_inv s)"
proof (induction rule: arc_run.induct)
  case (arc_start n)
  then show ?case using arc_new_inv by (simp add: arc_new_def arc_bounded_def)
next
  case (arc_access n ok s f p s')
  then show ?case using access_bounded record_access_law by blast
next
  case (arc_mark n ok s f s')
  have "arc_bounded n s'" using arc_mark by (auto simp: arc_bounded_def set_evictable_def seq_Inr_iff)
  with arc_mark set_evictable_law show ?case by blast
next
  case (arc_evict n ok s r s')
  have "arc_inv s'" if ok
  proof -
    have inv: "arc_inv s" using arc_evict that by simp
    from evict_result [OF inv] arc_evict.hyps(2) inv show ?thesis by (cases r) (auto simp: takes_victim_def)
  qed
  with arc_evict evict_bounded show ?case by blast
next
  case (arc_drop n ok s f)
  have "length (mru (arc_remove f s)) \<le> length (mru s)" "length (mru_ghost (arc_remove f s)) \<le> length (mru_ghost s)"
    "replacer_size (arc_remove f s) = replacer_size s" "mru_target_size (arc_remove f s) = mru_target_size s"
    by (auto simp: arc_remove_def Let_def split: option.split)
  with arc_drop arc_remove_inv [of s f] show ?case by (auto simp: arc_bounded_def)
qed

section \<open>Properties\<close>

text \<open>C31: In every state that accesses, marks, evictions and removals can drive a new replacer into, whatever
  frames and pages they name, the target stays between 0 and the number of frames and the MRU list with its ghost holds at most
  one entry more than there are frames. If moreover every access was of a pair the replacer held, or of a
  frame and a page it did not hold, the four lists are as the ARC policy wants them: a frame and a
  page occur once at most, the MRU list with its ghost holds at most as many entries as there are frames, all four lists
  together at most twice as many, the two resident lists at most one entry per frame.\<close>

theorem arc_lists_bounded:
  assumes "arc_run n ok s" and "n < 2 ^ 30"
  shows "length (mru s) + length (mru_ghost s) \<le> n + 1 \<and> unat (mru_target_size s) \<le> n
    \<and> (ok \<longrightarrow> distinct (map fst (mru s @ mfu s)) \<and> distinct (map snd (mru s @ mfu s) @ mru_ghost s @ mfu_ghost s)
      \<and> length (mru s) + length (mfu s) \<le> n \<and> length (mru s) + length (mru_ghost s) \<le> n
      \<and> length (mru s) + length (mfu s) + length (mru_ghost s) + length (mfu_ghost s) \<le> 2 * n)"
proof -
  have b: "arc_bounded n s" and inv: "ok \<Longrightarrow> arc_inv s" using arc_run_inv [OF assms] by blast+
  have n: "replacer_size s = n" using b by (simp add: arc_bounded_def)
  show ?thesis using b inv arc_resident_bound [OF inv] unfolding arc_bounded_def arc_inv_def n by blast
qed

text \<open>One frame, two pages: the second access, of a frame the replacer already holds, is what a pool makes after it has deleted
  the frame's page. The bound of one entry more is then attained.\<close>

theorem arc_lists_bounded_witness:
  "\<exists>s s'. arc_run 1 True s \<and> mru s = [(0, 7)] \<and> length (mru s) + length (mru_ghost s) \<le> 1
    \<and> arc_run 1 False s' \<and> mru s' = [(0, 8), (0, 7)] \<and> length (mru s') + length (mru_ghost s') \<le> 2"
proof -
  obtain s where s: "record_access 0 7 (arc_new 1) = Inr s" "mru s = [(0, 7)]" "mfu s = []" "mru_ghost s = []" "mfu_ghost s = []"
    "replacer_size s = 1"
    by (simp add: record_access_def arc_new_def)
  have "access_ok 0 7 (arc_new 1)" by (simp add: access_ok_def arc_new_def tracked_def)
  with arc_access [OF arc_start s(1)] have r: "arc_run 1 True s" by simp
  have "\<exists>s'. record_access 0 8 s = Inr s' \<and> mru s' = [(0, 8), (0, 7)]" using s(2-6) by (simp add: record_access_def Let_def)
  then obtain s' where s': "record_access 0 8 s = Inr s'" "mru s' = [(0, 8), (0, 7)]" by blast
  have "\<not> access_ok 0 8 s" using s(2,3) by (simp add: access_ok_def tracked_def)
  with arc_access [OF r s'(1)] have r': "arc_run 1 False s'" by simp
  from arc_lists_bounded [OF r] arc_lists_bounded [OF r'] r r' s(2) s'(2) show ?thesis
    by (intro exI [of _ s] exI [of _ s']) simp
qed

text \<open>C32: Recording an access, on every branch. For a pair the replacer holds, or a frame and a page it does not hold,
  the four lists and the target afterwards are exactly those of \<open>access_spec\<close>: a page it holds goes to the front of the MFU list, and so
  does a ghost, which leaves its ghost list and moves the target; any other page goes to the front of the
  MRU list and the ghost lists give way. The call overflows exactly where \<open>access_spec\<close> has no answer: the
  page is in the MFU ghost list, that list is at least as long as the MRU ghost list, and the target is 0, the
  value it starts with.\<close>

theorem record_access_outcome:
  assumes "arc_inv s" and "access_ok f p s"
  shows "case access_spec f p s of
      None \<Rightarrow> record_access f p s = Inl ArithOverflow
    | Some (m, g, b1, b2, t) \<Rightarrow> \<exists>s'. record_access f p s = Inr s' \<and> mru s' = m \<and> mfu s' = g \<and> mru_ghost s' = b1 \<and> mfu_ghost s' = b2
        \<and> unat (mru_target_size s') = t \<and> arc_inv s' \<and> evictable_pages s' = evictable_pages s \<and> curr_size s' = curr_size s"
proof (cases "record_access f p s")
  case (Inl e)
  with record_access_spec [OF assms] show ?thesis by (auto split: option.splits prod.splits)
next
  case (Inr s')
  from record_access_law [OF assms Inr] record_access_spec [OF assms] Inr show ?thesis by (auto split: option.splits prod.splits)
qed

theorem record_access_outcome_witness:
  "record_access 0 7 ((arc_new 2)\<lparr>mfu_ghost := [7]\<rparr>) = Inl ArithOverflow
    \<and> (\<exists>s'. record_access 0 7 ((arc_new 2)\<lparr>mru_ghost := [6, 7], mru_target_size := 0\<rparr>) = Inr s'
         \<and> mfu s' = [(0, 7)] \<and> mru_ghost s' = [6] \<and> unat (mru_target_size s') = 1)"
proof -
  let ?a = "(arc_new 2)\<lparr>mfu_ghost := [7]\<rparr>" and ?b = "(arc_new 2)\<lparr>mru_ghost := [6, 7], mru_target_size := 0\<rparr>"
  have ab: "arc_inv ?a" "arc_inv ?b" "access_ok 0 7 ?a" "access_ok 0 7 ?b"
    by (simp_all add: arc_inv_def arc_new_def tracked_def access_ok_def)
  have "access_spec 0 7 ?a = None" by (simp add: access_spec_def arc_new_def tracked_def)
  moreover have "access_spec 0 7 ?b = Some ([], [(0, 7)], [6], [], 1)"
    by (simp add: access_spec_def grown_target_def arc_new_def tracked_def Let_def)
  ultimately show ?thesis using record_access_outcome [OF ab(1,3)] record_access_outcome [OF ab(2,4)] by auto
qed

end
