(* ===== verification/ArcTests.thy ===== *)
theory ArcTests
  imports ArcReplacer
begin

text \<open>
  The unit tests of \<open>arc_replacer.rs\<close>, run in the model. A test is a computation that ends in \<open>Inr ()\<close> or panics,
  and an assertion that fails is the panic \<open>AssertFailed\<close>. The tests reach into the fields of the
  replacer, as the ones in the source do; \<open>push_front\<close> puts an element at the head of a list.
\<close>

section \<open>The tests\<close>

definition basic_record_access :: "unit res" where
  "basic_record_access =
     (let r = arc_new 10 in asserting (replacer_size r = 10)
       (seq (record_access 1 1 r) (\<lambda>r. seq (record_access 22 1 r) (\<lambda>r.
         asserting ((1, 1) \<in> set (mru r)) (asserting ((22, 1) \<in> set (mru r))
           (asserting (length (mru r) = 2) (asserting (length (mfu r) = 0) (asserting (mru_target_size r = 0)
             (asserting (map_of (timestamp_access r) (1, 1) \<noteq> None)
               (asserting (map_of (timestamp_access r) (22, 1) \<noteq> None) (Inr ())))))))))))"

definition promote_from_mru_to_mfu :: "unit res" where
  "promote_from_mru_to_mfu =
     seq (record_access 1 1 (arc_new 10)) (\<lambda>r. seq (record_access 2 2 r) (\<lambda>r.
       asserting ((1, 1) \<in> set (mru r)) (asserting ((2, 2) \<in> set (mru r))
         (seq (record_access 1 1 r) (\<lambda>r.
           asserting ((1, 1) \<in> set (mfu r)) (asserting ((1, 1) \<notin> set (mru r)) (Inr ())))))))"

definition evict_from_mru_lge_target_size :: "unit res" where
  "evict_from_mru_lge_target_size =
     seq (record_access 1 1 (arc_new 10)) (\<lambda>r. seq (record_access 2 2 r) (\<lambda>r. seq (record_access 3 3 r) (\<lambda>r.
       seq (set_evictable 1 r) (\<lambda>r.
         asserting (curr_size r = 1) (asserting (1 \<in> evictable_pages r)
           (seq (evict r) (\<lambda>(_, r).
             asserting (1 \<in> set (mru_ghost r)) (asserting ((1, 1) \<notin> set (mru r))
               (asserting ((2, 2) \<in> set (mru r)) (asserting ((3, 3) \<in> set (mru r))
                 (asserting (length (mfu_ghost r) = 0) (Inr ()))))))))))))"

definition evict_from_mfu_mru_lge_target_size :: "unit res" where
  "evict_from_mfu_mru_lge_target_size =
     (let r = arc_new 10; r = r\<lparr>mfu := (1, 1) # mfu r\<rparr>; r = r\<lparr>mfu := (2, 2) # mfu r\<rparr>;
          r = r\<lparr>mfu := (3, 3) # mfu r\<rparr>; r = r\<lparr>mfu := (4, 4) # mfu r\<rparr>
      in seq (set_evictable 3 r) (\<lambda>r. seq (evict r) (\<lambda>(evicted, r).
           asserting (evicted = Some 3) (asserting (3 \<in> set (mfu_ghost r))
             (asserting (length (mru_ghost r) = 0) (Inr ()))))))"

definition evict_from_mfu_mru_sml_target_size :: "unit res" where
  "evict_from_mfu_mru_sml_target_size =
     (let r = arc_new 10; r = r\<lparr>mru := (1, 1) # mru r\<rparr>; r = r\<lparr>mru_target_size := 5\<rparr>;
          r = r\<lparr>mfu := (2, 2) # mfu r\<rparr>; r = r\<lparr>mfu := (3, 3) # mfu r\<rparr>
      in seq (set_evictable 3 r) (\<lambda>r. seq (evict r) (\<lambda>(evicted, r).
           asserting (evicted = Some 3) (asserting (3 \<in> set (mfu_ghost r))
             (asserting (length (mru_ghost r) = 0) (Inr ()))))))"

definition evict_from_mru_mru_sml_target_size :: "unit res" where
  "evict_from_mru_mru_sml_target_size =
     (let r = arc_new 10; r = r\<lparr>mru := (1, 1) # mru r\<rparr>; r = r\<lparr>mru_target_size := 5\<rparr>;
          r = r\<lparr>mfu := (2, 2) # mfu r\<rparr>; r = r\<lparr>mfu := (3, 3) # mfu r\<rparr>
      in seq (set_evictable 1 r) (\<lambda>r. seq (evict r) (\<lambda>(_, r).
           asserting (1 \<in> set (mru_ghost r)) (Inr ()))))"

definition no_evict :: "unit res" where
  "no_evict =
     (let r = arc_new 10; r = r\<lparr>mru := (1, 1) # mru r\<rparr>; r = r\<lparr>mfu := (2, 2) # mfu r\<rparr>
      in seq (evict r) (\<lambda>(evicted, r). asserting (evicted = None) (Inr ())))"

definition mru_hit_increase_target_size_by_one :: "unit res" where
  "mru_hit_increase_target_size_by_one =
     (let r = arc_new 10; r = r\<lparr>mru_ghost := 1 # mru_ghost r\<rparr>; r = r\<lparr>mfu_ghost := 2 # mfu_ghost r\<rparr>
      in seq (record_access 1 1 r) (\<lambda>r.
           asserting (mru_target_size r = 1) (asserting ((1, 1) \<in> set (mfu r)) (Inr ()))))"

definition mru_hit_increase_target_size_by_mod :: "unit res" where
  "mru_hit_increase_target_size_by_mod =
     (let r = arc_new 10; r = r\<lparr>mru_ghost := 1 # mru_ghost r\<rparr>; r = r\<lparr>mfu_ghost := 2 # mfu_ghost r\<rparr>;
          r = r\<lparr>mfu_ghost := 3 # mfu_ghost r\<rparr>
      in seq (record_access 1 1 r) (\<lambda>r.
           asserting (mru_target_size r = 2) (asserting ((1, 1) \<in> set (mfu r)) (Inr ()))))"

definition mfu_hit_decrease_target_size_by_one :: "unit res" where
  "mfu_hit_decrease_target_size_by_one =
     (let r = arc_new 10; r = r\<lparr>mru_ghost := 2 # mru_ghost r\<rparr>; r = r\<lparr>mfu_ghost := 1 # mfu_ghost r\<rparr>;
          r = r\<lparr>mru_target_size := 3\<rparr>
      in seq (record_access 1 1 r) (\<lambda>r.
           asserting (mru_target_size r = 2) (asserting ((1, 1) \<in> set (mfu r)) (Inr ()))))"

definition mfu_hit_decrease_target_size_by_mod :: "unit res" where
  "mfu_hit_decrease_target_size_by_mod =
     (let r = arc_new 10; r = r\<lparr>mru_ghost := 1 # mru_ghost r\<rparr>; r = r\<lparr>mru_ghost := 2 # mru_ghost r\<rparr>;
          r = r\<lparr>mfu_ghost := 3 # mfu_ghost r\<rparr>; r = r\<lparr>mru_target_size := 2\<rparr>
      in seq (record_access 3 3 r) (\<lambda>r.
           asserting (mru_target_size r = 0) (asserting ((3, 3) \<in> set (mfu r)) (Inr ()))))"

definition mru_mru_ghost_eq_replacer_size :: "unit res" where
  "mru_mru_ghost_eq_replacer_size =
     (let r = arc_new 4; r = r\<lparr>mru := (1, 1) # mru r\<rparr>; r = r\<lparr>mru := (2, 2) # mru r\<rparr>;
          r = r\<lparr>mru_ghost := 3 # mru_ghost r\<rparr>; r = r\<lparr>mru_ghost := 4 # mru_ghost r\<rparr>
      in seq (record_access 5 5 r) (\<lambda>r.
           asserting ((5, 5) \<in> set (mru r)) (asserting (3 \<notin> set (mru_ghost r)) (Inr ()))))"

definition mru_all_less_than_replacer_size_and_all_full :: "unit res" where
  "mru_all_less_than_replacer_size_and_all_full =
     (let r = arc_new 4; r = r\<lparr>mru := (1, 1) # mru r\<rparr>; r = r\<lparr>mfu := (2, 2) # mfu r\<rparr>;
          r = r\<lparr>mru_ghost := 3 # mru_ghost r\<rparr>; r = r\<lparr>mfu_ghost := 4 # mfu_ghost r\<rparr>
      in seq (record_access 5 5 r) (\<lambda>r.
           asserting (5 \<notin> set (mfu_ghost r)) (asserting ((5, 5) \<in> set (mru r)) (asserting (3 \<in> set (mru_ghost r))
             (asserting ((2, 2) \<in> set (mfu r)) (asserting (mru_target_size r = 0) (Inr ())))))))"

definition mru_all_less_than_replacer_size_and_not_full :: "unit res" where
  "mru_all_less_than_replacer_size_and_not_full =
     (let r = arc_new 9; r = r\<lparr>mru := (1, 1) # mru r\<rparr>; r = r\<lparr>mfu := (2, 2) # mfu r\<rparr>;
          r = r\<lparr>mru_ghost := 3 # mru_ghost r\<rparr>; r = r\<lparr>mfu_ghost := 4 # mfu_ghost r\<rparr>
      in seq (record_access 5 5 r) (\<lambda>r.
           asserting ((1, 1) \<in> set (mru r)) (asserting ((5, 5) \<in> set (mru r)) (asserting ((2, 2) \<in> set (mfu r))
             (asserting (3 \<in> set (mru_ghost r)) (asserting (4 \<in> set (mfu_ghost r)) (Inr ())))))))"

section \<open>They pass\<close>

lemmas arc_defs = arc_new_def record_access_def set_evictable_def evict_def or_else_evict_def evict_from_mru_ghost_def
  evict_from_mfu_ghost_def remove_nth_def mru_ghost_target_def mfu_ghost_target_def checked_add_def checked_sub_def usize_to_u32_def

lemma record_access_tests:
  "basic_record_access = Inr ()" "promote_from_mru_to_mfu = Inr ()"
  by (simp_all add: basic_record_access_def promote_from_mru_to_mfu_def arc_defs)

lemma evict_tests:
  "evict_from_mru_lge_target_size = Inr ()" "evict_from_mfu_mru_lge_target_size = Inr ()"
  "evict_from_mfu_mru_sml_target_size = Inr ()" "evict_from_mru_mru_sml_target_size = Inr ()" "no_evict = Inr ()"
  by (simp_all add: evict_from_mru_lge_target_size_def evict_from_mfu_mru_lge_target_size_def
      evict_from_mfu_mru_sml_target_size_def evict_from_mru_mru_sml_target_size_def no_evict_def arc_defs)

lemma ghost_hit_tests:
  "mru_hit_increase_target_size_by_one = Inr ()" "mru_hit_increase_target_size_by_mod = Inr ()"
  "mfu_hit_decrease_target_size_by_one = Inr ()" "mfu_hit_decrease_target_size_by_mod = Inr ()"
  by (simp_all add: mru_hit_increase_target_size_by_one_def mru_hit_increase_target_size_by_mod_def
      mfu_hit_decrease_target_size_by_one_def mfu_hit_decrease_target_size_by_mod_def arc_defs)

lemma miss_tests:
  "mru_mru_ghost_eq_replacer_size = Inr ()" "mru_all_less_than_replacer_size_and_all_full = Inr ()"
  "mru_all_less_than_replacer_size_and_not_full = Inr ()"
  by (simp_all add: mru_mru_ghost_eq_replacer_size_def mru_all_less_than_replacer_size_and_all_full_def
      mru_all_less_than_replacer_size_and_not_full_def arc_defs)

text \<open>The fourteen unit tests of \<open>arc_replacer.rs\<close> end without a panic and without a failed assertion.\<close>

lemma arc_tests_pass:
  "basic_record_access = Inr () \<and> promote_from_mru_to_mfu = Inr () \<and> evict_from_mru_lge_target_size = Inr ()
    \<and> evict_from_mfu_mru_lge_target_size = Inr () \<and> evict_from_mfu_mru_sml_target_size = Inr ()
    \<and> evict_from_mru_mru_sml_target_size = Inr () \<and> no_evict = Inr () \<and> mru_hit_increase_target_size_by_one = Inr ()
    \<and> mru_hit_increase_target_size_by_mod = Inr () \<and> mfu_hit_decrease_target_size_by_one = Inr ()
    \<and> mfu_hit_decrease_target_size_by_mod = Inr () \<and> mru_mru_ghost_eq_replacer_size = Inr ()
    \<and> mru_all_less_than_replacer_size_and_all_full = Inr () \<and> mru_all_less_than_replacer_size_and_not_full = Inr ()"
  using record_access_tests evict_tests ghost_hit_tests miss_tests by blast

end
