(* ===== verification/StorageTests.thy ===== *)
theory StorageTests
  imports PoolClient
begin

text \<open>
  The unit tests of the disk manager, the disk scheduler and the buffer pool, run in the model on a file whose
  system calls succeed. A test is a computation that ends in \<open>Inr ()\<close> or panics, and an assertion that fails is
  the panic \<open>AssertFailed\<close>. The tests remove their file before they open it; here the file may hold anything.
\<close>

section \<open>The vocabulary of the tests\<close>

text \<open>\<open>unwrap\<close> on what an operation of the disk manager returns.\<close>

definition unwrap_io :: "('a io \<times> disk_manager) res \<Rightarrow> ('a \<times> disk_manager) res" where
  "unwrap_io m = seq m (\<lambda>(r, d). case r of Inl _ \<Rightarrow> Inl UnwrapNone | Inr x \<Rightarrow> Inr (x, d))"

text \<open>\<open>b"Hello world".repeat(PAGE_SIZE / 10)\<close>, and its first \<open>PAGE_SIZE\<close> bytes.\<close>

definition hello_world :: "u8 list" where
  "hello_world = [72, 101, 108, 108, 111, 32, 119, 111, 114, 108, 100]"

definition with_page_data :: "(u8 list \<Rightarrow> 'r res) \<Rightarrow> 'r res" where
  "with_page_data k = seq (slice 0 PAGE_SIZE (concat (replicate (PAGE_SIZE div 10) hello_world))) k"

section \<open>The tests\<close>

definition test_basic_write_read_delete_operations :: "os_file \<Rightarrow> unit res" where
  "test_basic_write_read_delete_operations f =
     seq (dm_new (Some f)) (\<lambda>dm. with_page_data (\<lambda>page_data.
       seq (unwrap_io (write_page 0 page_data dm)) (\<lambda>(_, dm).
         asserting (num_writes dm = 1)
           (seq (unwrap_io (read_page 0 (replicate PAGE_SIZE 0) dm)) (\<lambda>(buffer, dm).
             asserting (length (free_slots dm) = 0)
               (seq (slice 0 1 page_data) (\<lambda>written. seq (slice 0 1 buffer) (\<lambda>got.
                 asserting (written = got)
                   (seq (unwrap_io (Inr (dm_delete_page 0 dm))) (\<lambda>(_, dm).
                     asserting (num_deletes dm = 1) (asserting (length (free_slots dm) = 1)
                       (asserting (page_capacity dm = DB_IO_SIZE) (Inr ())))))))))))))"

definition test_use_existing_slot :: "os_file \<Rightarrow> unit res" where
  "test_use_existing_slot f =
     seq (dm_new (Some f)) (\<lambda>dm. with_page_data (\<lambda>page_data.
       seq (unwrap_io (write_page 1 page_data dm)) (\<lambda>(_, dm).
       seq (unwrap_io (write_page 2 page_data dm)) (\<lambda>(_, dm).
       seq (unwrap_io (write_page 3 page_data dm)) (\<lambda>(_, dm).
       seq (unwrap_io (write_page 4 page_data dm)) (\<lambda>(_, dm).
       seq (unwrap_io (write_page 5 page_data dm)) (\<lambda>(_, dm).
         asserting (num_writes dm = 5)
           (seq (unwrap (map_of (pages dm) 3)) (\<lambda>third_offset.
             seq (unwrap_io (Inr (dm_delete_page 3 dm))) (\<lambda>(_, dm).
               asserting (third_offset \<in> set (free_slots dm)) (asserting (length (free_slots dm) = 1)
                 (seq (unwrap_io (write_page 9 page_data dm)) (\<lambda>(_, dm).
                   seq (unwrap (map_of (pages dm) 9)) (\<lambda>ninth_offset.
                     asserting (length (free_slots dm) = 0) (asserting (third_offset = ninth_offset)
                       (seq (unwrap (map_of (pages dm) 2)) (\<lambda>second_offset.
                         asserting (second_offset \<noteq> third_offset) (Inr ()))))))))))))))))))"

definition test_increase_page_capacity :: "os_file \<Rightarrow> unit res" where
  "test_increase_page_capacity f =
     seq (dm_new (Some f)) (\<lambda>dm. let dm = dm\<lparr>page_capacity := 3\<rparr> in with_page_data (\<lambda>page_data.
       seq (unwrap_io (write_page 1 page_data dm)) (\<lambda>(_, dm).
       seq (unwrap_io (write_page 2 page_data dm)) (\<lambda>(_, dm).
       seq (unwrap_io (write_page 3 page_data dm)) (\<lambda>(_, dm).
         asserting (page_capacity dm = 6)
           (case sys_metadata_len (db_file dm) of
              (Inl _, _) \<Rightarrow> Inl UnwrapNone
            | (Inr len, _) \<Rightarrow> asserting (len = 57344) (Inr ())))))))"

definition test_basic_read_write_operations :: "os_file \<Rightarrow> unit res" where
  "test_basic_read_write_operations f =
     seq (dm_new (Some f)) (\<lambda>dm. let scheduler = scheduler_new dm in with_page_data (\<lambda>page_data.
       seq (disk_io ReqWrite 0 page_data scheduler) (\<lambda>(answer, scheduler).
         asserting (answer = Some page_data)
           (seq (disk_io ReqRead 0 page_data scheduler) (\<lambda>(answer, scheduler).
             asserting (answer = Some page_data)
               (let scheduler = scheduler_drop scheduler in Inr ()))))))"

text \<open>The test of the pool keeps a write guard, a read guard and a borrow of the bytes until its end.\<close>

definition store_dirty :: "bool \<Rightarrow> page_guard \<Rightarrow> bpm \<Rightarrow> bpm" where
  "store_dirty b g s = upd_frame (g_frame g) (\<lambda>fr. fr\<lparr>is_dirty := b\<rparr>) s"

definition test_basic_read_write_delete_operation :: "os_file \<Rightarrow> unit res" where
  "test_basic_read_write_delete_operation f =
     seq (dm_new (Some f)) (\<lambda>dm. seq (new_page (bpm_new 10 dm)) (\<lambda>(page_id, bpm).
       seq (check_write_page page_id bpm) (\<lambda>(write_guard, bpm).
         seq (with_data_mut write_guard (\<lambda>bytes. Inr ((), map (\<lambda>_. 1) bytes)) bpm) (\<lambda>(_, bpm).
           seq (check_read_page page_id bpm) (\<lambda>(read_guard, bpm). seq (guard_borrow read_guard bpm) (\<lambda>bpm.
             asserting (guard_bytes read_guard bpm = replicate PAGE_SIZE 1)
               (seq (flush_page page_id (store_dirty False read_guard bpm)) (\<lambda>(flushed, bpm).
                 asserting (flushed = False)
                   (seq (flush_page page_id (store_dirty True read_guard bpm)) (\<lambda>(flushed, bpm).
                     asserting (flushed = True)
                       (seq (disk_io ReqRead page_id (replicate PAGE_SIZE 0) (scheduler bpm)) (\<lambda>(answer, sch).
                         seq (unwrap answer) (\<lambda>data_from_disk.
                           asserting (data_from_disk = replicate PAGE_SIZE 1)
                             (seq (read_guard_drop read_guard (guard_release read_guard (bpm\<lparr>scheduler := sch\<rparr>))) (\<lambda>bpm.
                               seq (write_guard_drop write_guard bpm) (\<lambda>bpm.
                                 let stopped = scheduler_drop (scheduler bpm) in Inr ()))))))))))))))))"

section \<open>What the calls do\<close>

definition page_data :: "u8 list" where
  "page_data = take PAGE_SIZE (concat (replicate (PAGE_SIZE div 10) hello_world))"

lemma page_data_ok [simp]: "length page_data = PAGE_SIZE" "with_page_data k = k page_data"
proof -
  have "PAGE_SIZE \<le> length (concat (replicate (PAGE_SIZE div 10) hello_world))"
    by (simp add: length_concat sum_list_replicate hello_world_def PAGE_SIZE_def)
  then show "length page_data = PAGE_SIZE" "with_page_data k = k page_data"
    by (simp_all add: page_data_def with_page_data_def slice_ok get_def)
qed

lemma unwrap_io_ok: "unwrap_io (Inr (Inr x, d)) = Inr (x, d)"
  by (simp add: unwrap_io_def)

text \<open>What the tests look at, in numbers of slots; nothing has failed so far.\<close>

definition disk_at :: "(page_id \<times> nat) list \<Rightarrow> nat list \<Rightarrow> nat \<Rightarrow> nat \<Rightarrow> nat \<Rightarrow> nat \<Rightarrow> disk_manager \<Rightarrow> bool" where
  "disk_at ps fs cap w k n d \<longleftrightarrow> pages d = map (apsnd (\<lambda>i. i * PAGE_SIZE)) ps \<and> free_slots d = map (\<lambda>i. i * PAGE_SIZE) fs
     \<and> page_capacity d = cap \<and> num_writes d = w \<and> num_deletes d = k \<and> no_faults d \<and> length (fbytes (db_file d)) = n * PAGE_SIZE"

lemma map_of_slots: "map_of (map (apsnd h) ps) p = map_option h (map_of ps p)"
  by (induction ps) auto

lemma dm_new_at:
  assumes "faults f = []"
  obtains d where "dm_new (Some f) = Inr d" and "disk_at [] [] DB_IO_SIZE 0 0 (DB_IO_SIZE + 1) d"
proof -
  obtain d where d: "dm_new (Some f) = Inr d" "disk_ok d" using dm_new_ok [OF assms] by blast
  then have "disk_at [] [] DB_IO_SIZE 0 0 (DB_IO_SIZE + 1) d"
    using assms by (auto simp: dm_new_def sys_defs disk_at_def disk_ok_def disk_inv_def split: if_splits)
  with d(1) show ?thesis by (rule that)
qed

text \<open>A write of a new page: into a new slot, with the capacity left or doubled, or into the last free one.\<close>

lemma write_at:
  assumes ch: "choose_offset p d = (i * PAGE_SIZE, d1)" and d1: "disk_at ps fs cap w k n d1" and p: "map_of ps p = None"
    and b: "length b = PAGE_SIZE" and i: "i < n"
  obtains d' where "unwrap_io (write_page p b d) = Inr ((), d')" and "disk_at (ps @ [(p, i)]) fs cap (Suc w) k n d'"
proof -
  have bound: "i * PAGE_SIZE + PAGE_SIZE \<le> length (fbytes (db_file d1))" and nf: "no_faults d1"
    using d1 i by (simp_all add: disk_at_def slot_multiple)
  have new: "p \<notin> fst ` set (map (apsnd (\<lambda>i. i * PAGE_SIZE)) ps)"
    using p by (simp add: map_of_slots flip: map_of_eq_None_iff del: set_map)
  have "PAGE_SIZE \<le> length b" using b by simp
  from write_page_effect [OF ch nf bound this] show ?thesis
    by (rule that [OF trans [OF arg_cong [where f = unwrap_io] unwrap_io_ok]])
      (use d1 b bound set_update_new [OF new] in \<open>simp add: disk_at_def no_faults_def\<close>)
qed

lemma write_fresh:
  assumes d: "disk_at ps [] cap w k n d" and p: "map_of ps p = None" and b: "length b = PAGE_SIZE" and room: "length ps + 1 < cap" "length ps < n"
  obtains d' where "unwrap_io (write_page p b d) = Inr ((), d')" and "disk_at (ps @ [(p, length ps)]) [] cap (Suc w) k n d'"
proof (rule write_at [OF _ d p b room(2)])
  show "choose_offset p d = (length ps * PAGE_SIZE, d)"
    using d p room by (simp add: choose_offset_def disk_at_def map_of_slots)
qed (rule that)

lemma write_growing:
  assumes d: "disk_at ps [] cap w k n d" and p: "map_of ps p = None" and b: "length b = PAGE_SIZE" and full: "length ps + 1 = cap"
  obtains d' where "unwrap_io (write_page p b d) = Inr ((), d')" and "disk_at (ps @ [(p, length ps)]) [] (2 * cap) (Suc w) k (2 * cap + 1) d'"
proof (rule write_at [OF _ _ p b])
  have nf: "no_faults d" using d by (simp add: disk_at_def)
  show "choose_offset p d = (length ps * PAGE_SIZE, grow d)"
    using d p full by (simp add: choose_offset_def disk_at_def map_of_slots)
  have "num_deletes (grow d) = num_deletes d" by (simp add: grow_def Let_def split: prod.splits)
  then show "disk_at ps [] (2 * cap) w k (2 * cap + 1) (grow d)"
    using d by (simp add: disk_at_def grow_simps [OF nf])
  show "length ps < 2 * cap + 1" using full by simp
qed (rule that)

lemma write_reusing:
  assumes d: "disk_at ps [i] cap w k n d" and p: "map_of ps p = None" and b: "length b = PAGE_SIZE" and i: "i < n"
  obtains d' where "unwrap_io (write_page p b d) = Inr ((), d')" and "disk_at (ps @ [(p, i)]) [] cap (Suc w) k n d'"
proof (rule write_at [OF _ _ p b i])
  show "choose_offset p d = (i * PAGE_SIZE, d\<lparr>free_slots := []\<rparr>)"
    using d p by (simp add: choose_offset_def disk_at_def map_of_slots)
  show "disk_at ps [] cap w k n (d\<lparr>free_slots := []\<rparr>)" using d by (simp add: disk_at_def no_faults_def)
qed (rule that)

lemma delete_at:
  assumes d: "disk_at ps fs cap w k n d" and p: "map_of ps p = Some i"
  obtains d' where "unwrap_io (Inr (dm_delete_page p d)) = Inr ((), d')"
    and "disk_at (AList.delete p ps) (fs @ [i]) cap w (Suc k) n d'"
proof
  let ?d' = "d\<lparr>pages := AList.delete p (pages d), free_slots := free_slots d @ [i * PAGE_SIZE], num_deletes := num_deletes d + 1\<rparr>"
  show "unwrap_io (Inr (dm_delete_page p d)) = Inr ((), ?d')"
    using d p by (simp add: dm_delete_page_def disk_at_def map_of_slots unwrap_io_ok)
  have "AList.delete p (map (apsnd h) ps) = map (apsnd h) (AList.delete p ps)" for h :: "nat \<Rightarrow> nat"
    by (induction ps) auto
  then show "disk_at (AList.delete p ps) (fs @ [i]) cap w (Suc k) n ?d'" using d by (simp add: disk_at_def no_faults_def)
qed

section \<open>The tests pass\<close>

lemma increase_page_capacity_passes:
  assumes "faults f = []"
  shows "test_increase_page_capacity f = Inr ()"
proof -
  obtain d where d: "dm_new (Some f) = Inr d" "disk_at [] [] DB_IO_SIZE 0 0 (DB_IO_SIZE + 1) d"
    using dm_new_at [OF assms] .
  then have d0: "disk_at [] [] 3 0 0 17 (d\<lparr>page_capacity := 3\<rparr>)" by (simp add: disk_at_def no_faults_def DB_IO_SIZE_def)
  obtain d1 where 1: "unwrap_io (write_page 1 page_data (d\<lparr>page_capacity := 3\<rparr>)) = Inr ((), d1)" "disk_at [(1, 0)] [] 3 1 0 17 d1"
    by (rule write_fresh [OF d0 _ page_data_ok(1), of 1]) simp_all
  obtain d2 where 2: "unwrap_io (write_page 2 page_data d1) = Inr ((), d2)" "disk_at [(1, 0), (2, 1)] [] 3 2 0 17 d2"
    by (rule write_fresh [OF 1(2) _ page_data_ok(1), of 2]) (simp_all flip: numeral_2_eq_2)
  obtain d3 where 3: "unwrap_io (write_page 3 page_data d2) = Inr ((), d3)" "disk_at [(1, 0), (2, 1), (3, 2)] [] 6 3 0 7 d3"
    by (rule write_growing [OF 2(2) _ page_data_ok(1), of 3]) (simp_all flip: numeral_2_eq_2)
  have "sys_metadata_len (db_file d3) = (Inr (7 * PAGE_SIZE), db_file d3)"
    using 3(2) by (simp add: disk_at_def no_faults_def sys_defs)
  moreover have "page_capacity d3 = 6" using 3(2) by (simp add: disk_at_def)
  ultimately show ?thesis by (simp add: test_increase_page_capacity_def Let_def d(1) 1(1) 2(1) 3(1)) (simp add: PAGE_SIZE_def)
qed

lemma use_existing_slot_passes:
  assumes "faults f = []"
  shows "test_use_existing_slot f = Inr ()"
proof -
  obtain d where d: "dm_new (Some f) = Inr d" "disk_at [] [] DB_IO_SIZE 0 0 (DB_IO_SIZE + 1) d"
    using dm_new_at [OF assms] .
  from d(2) have d0: "disk_at [] [] 16 0 0 17 d" by (simp add: DB_IO_SIZE_def)
  let ?w = "\<lambda>p. write_page p page_data"
  obtain d1 where 1: "unwrap_io (?w 1 d) = Inr ((), d1)" "disk_at [(1, 0)] [] 16 1 0 17 d1"
    by (rule write_fresh [OF d0 _ page_data_ok(1), of 1]) simp_all
  obtain d2 where 2: "unwrap_io (?w 2 d1) = Inr ((), d2)" "disk_at [(1, 0), (2, 1)] [] 16 2 0 17 d2"
    by (rule write_fresh [OF 1(2) _ page_data_ok(1), of 2]) (simp_all flip: numeral_2_eq_2)
  obtain d3 where 3: "unwrap_io (?w 3 d2) = Inr ((), d3)" "disk_at [(1, 0), (2, 1), (3, 2)] [] 16 3 0 17 d3"
    by (rule write_fresh [OF 2(2) _ page_data_ok(1), of 3]) (simp_all flip: numeral_2_eq_2)
  obtain d4 where 4: "unwrap_io (?w 4 d3) = Inr ((), d4)" "disk_at [(1, 0), (2, 1), (3, 2), (4, 3)] [] 16 4 0 17 d4"
    by (rule write_fresh [OF 3(2) _ page_data_ok(1), of 4]) (simp_all flip: numeral_2_eq_2)
  obtain d5 where 5: "unwrap_io (?w 5 d4) = Inr ((), d5)" "disk_at [(1, 0), (2, 1), (3, 2), (4, 3), (5, 4)] [] 16 5 0 17 d5"
    by (rule write_fresh [OF 4(2) _ page_data_ok(1), of 5]) (simp_all flip: numeral_2_eq_2)
  obtain d6 where 6: "unwrap_io (Inr (dm_delete_page 3 d5)) = Inr ((), d6)" "disk_at [(1, 0), (2, 1), (4, 3), (5, 4)] [2] 16 5 1 17 d6"
    by (rule delete_at [OF 5(2), of 3]) simp_all
  obtain d7 where 7: "unwrap_io (?w 9 d6) = Inr ((), d7)" "disk_at [(1, 0), (2, 1), (4, 3), (5, 4), (9, 2)] [] 16 6 1 17 d7"
    by (rule write_reusing [OF 6(2) _ page_data_ok(1), of 9]) (simp_all flip: numeral_2_eq_2)
  have "num_writes d5 = 5" "map_of (pages d5) 3 = Some (2 * PAGE_SIZE)" "free_slots d6 = [2 * PAGE_SIZE]"
    "map_of (pages d7) 9 = Some (2 * PAGE_SIZE)" "free_slots d7 = []" "map_of (pages d7) 2 = Some PAGE_SIZE"
    using 5(2) 6(2) 7(2) by (simp_all add: disk_at_def)
  then show ?thesis
    by (simp add: test_use_existing_slot_def d(1) 1(1) 2(1) 3(1) 4(1) 5(1) 6(1) 7(1))
qed

lemma write_read_delete_passes:
  assumes "faults f = []"
  shows "test_basic_write_read_delete_operations f = Inr ()"
proof -
  obtain d where d: "dm_new (Some f) = Inr d" "disk_ok d" "disk_view d = Map.empty" using dm_new_ok [OF assms] by blast
  obtain d0 where d0: "dm_new (Some f) = Inr d0" "disk_at [] [] DB_IO_SIZE 0 0 (DB_IO_SIZE + 1) d0"
    using dm_new_at [OF assms] .
  then have at: "disk_at [] [] 16 0 0 17 d" using d(1) by (simp add: DB_IO_SIZE_def)
  obtain d1 where 1: "unwrap_io (write_page 0 page_data d) = Inr ((), d1)" "disk_at [(0, 0)] [] 16 1 0 17 d1"
    by (rule write_fresh [OF at _ page_data_ok(1), of 0]) simp_all
  have ok1: "disk_ok d1" "disk_view d1 = [0 \<mapsto> page_data]"
    using 1(1) write_page_ok [OF d(2), of page_data 0] d(3) by (auto simp: unwrap_io_def)
  have ch: "choose_offset 0 d1 = (0, d1)" using 1(2) by (simp add: choose_offset_def disk_at_def)
  have v: "get 0 PAGE_SIZE (fbytes (db_file d1)) = page_data" using ok1(2) 1(2) by (auto simp: disk_view_def disk_at_def fun_eq_iff split: if_splits)
  let ?d2 = "d1\<lparr>db_file := (db_file d1)\<lparr>fpos := PAGE_SIZE\<rparr>\<rparr>"
  have 2: "unwrap_io (read_page 0 (replicate PAGE_SIZE 0) d1) = Inr (page_data, ?d2)"
    using 1(2) read_page_effect [OF ch, of "replicate PAGE_SIZE 0"] by (simp add: v put_whole disk_at_def unwrap_io_ok)
  have at2: "disk_at [(0, 0)] [] 16 1 0 17 ?d2" using 1(2) by (simp add: disk_at_def no_faults_def)
  obtain d3 where 3: "unwrap_io (Inr (dm_delete_page 0 ?d2)) = Inr ((), d3)" "disk_at [] [0] 16 1 1 17 d3"
    by (rule delete_at [OF at2, of 0]) simp_all
  have "num_writes d1 = 1" "free_slots d1 = []" "num_deletes d3 = 1" "length (free_slots d3) = 1" "page_capacity d3 = DB_IO_SIZE"
    using 1(2) 3(2) by (simp_all add: disk_at_def DB_IO_SIZE_def)
  moreover have "slice 0 1 page_data = Inr (get 0 1 page_data)" by (rule slice_ok) (simp add: PAGE_SIZE_def)
  ultimately show ?thesis
    by (simp add: test_basic_write_read_delete_operations_def d(1) 1(1) 2 3(1))
qed

lemma scheduler_test_passes:
  assumes "faults f = []"
  shows "test_basic_read_write_operations f = Inr ()"
proof -
  obtain d where d: "dm_new (Some f) = Inr d" "disk_ok d" using dm_new_ok [OF assms] by blast
  have s0: "sched_ok (scheduler_new d)" using sched_new_ok [OF d(2)] by simp
  obtain s1 where 1: "disk_io ReqWrite 0 page_data (scheduler_new d) = Inr (Some page_data, s1)" "sched_ok s1"
    "sched_view s1 0 = Some page_data" using sched_write_ok [OF s0 page_data_ok(1), of 0] by auto
  then obtain s2 where "disk_io ReqRead 0 page_data s1 = Inr (Some page_data, s2)"
    using read_page_ok [of "disk_mgr s1" 0 page_data page_data]
    by (auto simp: sched_ok_def sched_view_def disk_io_idle handle_request_def put_whole)
  with 1(1) show ?thesis by (simp add: test_basic_read_write_operations_def Let_def d(1))
qed

section \<open>The test of the pool passes\<close>

text \<open>The pool of the test: one page, in the frame on top of the free list.\<close>

definition pool_at :: "disk_manager \<Rightarrow> frame_header \<Rightarrow> arc_replacer \<Rightarrow> disk_scheduler \<Rightarrow> bpm" where
  "pool_at d fr r sch = (bpm_new 10 d)\<lparr>frames := (frames (bpm_new 10 d))[9 := fr], replacer := r, scheduler := sch,
     next_page_id := 1, free_frames := [0, 1, 2, 3, 4, 5, 6, 7, 8], page_table := [(0, 9)]\<rparr>"

lemma pool_at_simps [simp]:
  "frames (pool_at d fr r sch) ! 9 = fr" "replacer (pool_at d fr r sch) = r" "scheduler (pool_at d fr r sch) = sch"
  "page_table (pool_at d fr r sch) = [(0, 9)]" "length (frames (pool_at d fr r sch)) = 10"
  "upd_frame 9 h (pool_at d fr r sch) = pool_at d (h fr) r sch" "(pool_at d fr r sch)\<lparr>replacer := r'\<rparr> = pool_at d fr r' sch"
  "(pool_at d fr r sch)\<lparr>scheduler := sch'\<rparr> = pool_at d fr r sch'"
  by (simp_all add: pool_at_def bpm_new_def upd_frame_def)

lemma record_access_tracked:
  assumes "(f, p) \<in> set (mru r) \<or> (f, p) \<in> set (mfu r)"
  obtains r' where "record_access f p r = Inr r'" and "(f, p) \<in> set (mfu r')" and "curr_size r' = curr_size r"
  using assms by (simp add: record_access_def Let_def)

text \<open>A guard on the page, and its end while others are there.\<close>

lemma guard_at:
  assumes "(9, 0) \<in> set (mru r) \<or> (9, 0) \<in> set (mfu r)" and "fh_id fr = 9"
  obtains r' where "write_guard_new 0 9 (pool_at d fr r sch) = Inr (\<lparr>g_page_id = 0, g_frame = 9, g_valid = True\<rparr>, pool_at d (pin fr) r' sch)"
    and "(9, 0) \<in> set (mfu r')" and "curr_size r' = curr_size r"
proof -
  obtain r' where r': "record_access 9 0 r = Inr r'" "(9, 0) \<in> set (mfu r')" "curr_size r' = curr_size r"
    using record_access_tracked [OF assms(1)] .
  have "write_guard_new 0 9 (pool_at d fr r sch) = Inr (\<lparr>g_page_id = 0, g_frame = 9, g_valid = True\<rparr>, pool_at d (pin fr) r' sch)"
    using assms(2) r'(1) by (simp add: write_guard_new_def Let_def pin_def del: upd_frame_simps(5))
  then show ?thesis using r'(2,3) by (rule that)
qed

abbreviation the_guard :: page_guard where
  "the_guard \<equiv> \<lparr>g_page_id = 0, g_frame = 9, g_valid = True\<rparr>"

lemma drop_at: "pin_count fr \<noteq> 1 \<Longrightarrow> write_guard_drop the_guard (pool_at d fr r sch) = Inr (pool_at d (unpin fr) r sch)"
  by (simp add: write_guard_drop_def Let_def unpin_def del: upd_frame_simps(5))

lemma last_drop_at:
  assumes "pin_count fr = 1" and "curr_size r = 0"
  obtains s where "write_guard_drop the_guard (pool_at d fr r sch) = Inr s"
  using assms by (simp add: write_guard_drop_def Let_def unpin_def set_evictable_def checked_add_def del: upd_frame_simps(5))

text \<open>\<open>flush_page\<close> while the page is pinned and read: nothing to do for a clean frame, else the bytes go to disk.\<close>

definition read_by :: "u64 \<Rightarrow> bool \<Rightarrow> u8 list \<Rightarrow> frame_header" where
  "read_by n b bs = \<lparr>fh_id = 9, pin_count = n, is_dirty = b, fh_lock = Readers 1, fh_data = bs\<rparr>"

lemma flush_at:
  assumes mfu: "(9, 0) \<in> set (mfu r)" and sch: "sched_ok sch" and bs: "length bs = PAGE_SIZE" and n: "n + 1 \<noteq> 1"
  obtains r' sch' where "flush_page 0 (pool_at d (read_by n b bs) r sch) = Inr (b, pool_at d (read_by n False bs) r' sch')"
    and "(9, 0) \<in> set (mfu r')" and "curr_size r' = curr_size r" and "sched_ok sch'"
    and "b \<Longrightarrow> sched_view sch' 0 = Some bs"
proof -
  let ?fr = "read_by n b bs"
  have id: "fh_id ?fr = 9" by (simp add: read_by_def)
  obtain r' where g: "write_guard_new 0 9 (pool_at d ?fr r sch) = Inr (the_guard, pool_at d (pin ?fr) r' sch)"
    "(9, 0) \<in> set (mfu r')" "curr_size r' = curr_size r" using guard_at [of r ?fr d sch] mfu id by blast
  obtain sch' where w: "disk_io ReqWrite 0 bs sch = Inr (Some bs, sch')" "sched_ok sch'" "sched_view sch' = (sched_view sch)(0 \<mapsto> bs)"
    using sched_write_ok [OF sch bs] by blast
  have pinned: "pin ?fr = read_by (n + 1) b bs" by (simp add: pin_def read_by_def)
  have drop: "write_guard_drop the_guard (pool_at d (read_by (n + 1) False bs) r' sch'') = Inr (pool_at d (read_by n False bs) r' sch'')" for sch''
    using drop_at [of "read_by (n + 1) False bs"] n by (simp add: read_by_def unpin_def)
  let ?sch = "if b then sch' else sch"
  have flush: "write_guard_flush the_guard (pool_at d (read_by (n + 1) b bs) r' sch) = Inr (b, pool_at d (read_by (n + 1) False bs) r' ?sch)"
    using w(1) by (auto simp: write_guard_flush_def Let_def read_by_def frame_clone_data_def lock_read_def simp del: upd_frame_simps(5))
  have "flush_page 0 (pool_at d ?fr r sch) = Inr (b, pool_at d (read_by n False bs) r' ?sch)"
    using g(1) pinned drop flush by (simp add: flush_page_def read_guard_as_write del: upd_frame_simps(5))
  then show ?thesis
    by (rule that) (use g(2,3) w(2,3) sch in auto)
qed

lemma pool_test_passes:
  assumes "faults f = []"
  shows "test_basic_read_write_delete_operation f = Inr ()"
proof -
  let ?zero = "replicate PAGE_SIZE 0" and ?ones = "replicate PAGE_SIZE 1"
  obtain d where d: "dm_new (Some f) = Inr d" "disk_ok d" using dm_new_ok [OF assms] by blast
  have s0: "sched_ok (scheduler_new d)" using sched_new_ok [OF d(2)] by simp
  obtain sch1 where 1: "disk_io ReqWrite 0 ?zero (scheduler_new d) = Inr (Some ?zero, sch1)" "sched_ok sch1"
    "sched_view sch1 0 = Some ?zero" using sched_write_ok [OF s0, of ?zero 0] by auto
  obtain sch2 where 2: "disk_io ReqRead 0 ?zero sch1 = Inr (Some ?zero, sch2)" "sched_ok sch2" using sched_read_ok [OF 1(2,3)] by blast
  obtain s1 where new: "new_page (bpm_new 10 d) = Inr (0, s1)" and s1: "s1 = (bpm_new 10 d)\<lparr>next_page_id := 1, scheduler := sch1\<rparr>"
    using 1(1) by (simp add: new_page_def bpm_new_def)
  let ?fr = "frame_new 9"
  have load: "load_page 0 9 (s1\<lparr>free_frames := [0, 1, 2, 3, 4, 5, 6, 7, 8]\<rparr>) = Inr (pool_at d ?fr (arc_new 10) sch2)"
    using 2(1) by (simp add: s1 load_page_def bpm_new_def pool_at_def frame_new_def upt_conv_Cons)
  obtain r2 where 3: "write_guard_new 0 9 (pool_at d ?fr (arc_new 10) sch2) = Inr (the_guard, pool_at d (pin ?fr) r2 sch2)"
    "(9, 0) \<in> set (mru r2)" "curr_size r2 = 0"
    by (simp add: write_guard_new_def Let_def record_access_def arc_new_def pin_def frame_new_def del: upd_frame_simps(5))
  have take: "check_write_page 0 s1 = Inr (the_guard, pool_at d (pin ?fr) r2 sch2)"
  proof -
    have "pop_free_frame s1 = Inr (9, s1\<lparr>free_frames := [0, 1, 2, 3, 4, 5, 6, 7, 8]\<rparr>)"
      "page_table s1 = []" "free_frames s1 \<noteq> []"
      by (simp_all add: s1 pop_free_frame_def bpm_new_def upt_conv_Cons)
    with load 3(1) show ?thesis by (simp add: check_write_page_def)
  qed
  let ?fr3 = "(pin ?fr)\<lparr>is_dirty := True, fh_data := ?ones\<rparr>"
  have fill: "with_data_mut the_guard (\<lambda>bytes. Inr ((), map (\<lambda>_. 1) bytes)) (pool_at d (pin ?fr) r2 sch2) = Inr ((), pool_at d ?fr3 r2 sch2)"
    by (simp add: with_data_mut_unlocked pin_def frame_new_def map_replicate_const del: upd_frame_simps(5))
  obtain r4 where 4: "write_guard_new 0 9 (pool_at d ?fr3 r2 sch2) = Inr (the_guard, pool_at d (pin ?fr3) r4 sch2)"
    "(9, 0) \<in> set (mfu r4)" "curr_size r4 = 0" using guard_at [of r2 ?fr3 d sch2] 3(2,3) by (auto simp: pin_def frame_new_def)
  have again: "check_read_page 0 (pool_at d ?fr3 r2 sch2) = Inr (the_guard, pool_at d (pin ?fr3) r4 sch2)"
    using 4(1) by (simp add: check_read_page_eq check_write_page_def)
  have borrow: "guard_borrow the_guard (pool_at d (pin ?fr3) r4 sch2) = Inr (pool_at d (read_by 2 True ?ones) r4 sch2)"
    by (simp add: guard_borrow_def lock_read_def pin_def frame_new_def read_by_def del: upd_frame_simps(5))
  have store: "store_dirty b the_guard (pool_at d (read_by 2 b' ?ones) r sch) = pool_at d (read_by 2 b ?ones) r sch" for b b' r sch
    by (simp add: store_dirty_def read_by_def del: upd_frame_simps(5))
  obtain r5 sch5 where 5: "flush_page 0 (pool_at d (read_by 2 False ?ones) r4 sch2) = Inr (False, pool_at d (read_by 2 False ?ones) r5 sch5)"
    "(9, 0) \<in> set (mfu r5)" "curr_size r5 = 0" "sched_ok sch5"
    using flush_at [OF 4(2) 2(2), of ?ones 2 d False] 4(3) by auto
  obtain r6 sch6 where 6: "flush_page 0 (pool_at d (read_by 2 True ?ones) r5 sch5) = Inr (True, pool_at d (read_by 2 False ?ones) r6 sch6)"
    "curr_size r6 = 0" "sched_ok sch6" "sched_view sch6 0 = Some ?ones"
  proof (rule flush_at [OF 5(2,4), of ?ones 2 d True])
    fix r' sch'
    assume "flush_page 0 (pool_at d (read_by 2 True ?ones) r5 sch5) = Inr (True, pool_at d (read_by 2 False ?ones) r' sch')"
      and "curr_size r' = curr_size r5" and "sched_ok sch'" and "True \<Longrightarrow> sched_view sch' 0 = Some ?ones"
    with 5(3) that show thesis by simp
  qed simp_all
  obtain sch7 where 7: "disk_io ReqRead 0 ?zero sch6 = Inr (Some ?ones, sch7)" using sched_read_ok [OF 6(3,4)] by blast
  let ?fr8 = "(read_by 2 False ?ones)\<lparr>fh_lock := Unlocked\<rparr>"
  have rel: "guard_release the_guard (pool_at d (read_by 2 False ?ones) r6 sch7) = pool_at d ?fr8 r6 sch7"
    by (simp add: guard_release_def unlock_read_def read_by_def del: upd_frame_simps(5))
  have drop1: "read_guard_drop the_guard (pool_at d ?fr8 r6 sch7) = Inr (pool_at d (unpin ?fr8) r6 sch7)"
    by (simp add: read_guard_drop_eq drop_at read_by_def)
  obtain s9 where drop2: "write_guard_drop the_guard (pool_at d (unpin ?fr8) r6 sch7) = Inr s9"
    using last_drop_at [of "unpin ?fr8" r6 d sch7] 6(2) by (auto simp: unpin_def read_by_def)
  show ?thesis
    using d(1) new take fill again borrow store 5(1) 6(1) 7 rel drop1 drop2
    by (simp add: test_basic_read_write_delete_operation_def guard_bytes_def) (simp add: read_by_def)
qed

text \<open>C36: The unit tests of the storage layers pass: on any file whose system calls succeed, none of the
  assertions of the three tests of the disk manager, of the test of the scheduler and of the test of the
  buffer pool fails, and no call in them panics or blocks.\<close>

theorem storage_tests_pass:
  assumes "faults f = []"
  shows "test_basic_write_read_delete_operations f = Inr () \<and> test_use_existing_slot f = Inr ()
    \<and> test_increase_page_capacity f = Inr () \<and> test_basic_read_write_operations f = Inr ()
    \<and> test_basic_read_write_delete_operation f = Inr ()"
  using write_read_delete_passes use_existing_slot_passes increase_page_capacity_passes scheduler_test_passes pool_test_passes assms
  by blast

theorem storage_tests_pass_witness:
  "test_increase_page_capacity \<lparr>fbytes = [], fpos = 0, faults = []\<rparr> = Inr ()
    \<and> test_basic_read_write_delete_operation \<lparr>fbytes = [], fpos = 0, faults = []\<rparr> = Inr ()"
  using storage_tests_pass [of "\<lparr>fbytes = [], fpos = 0, faults = []\<rparr>"] by simp

end
