(* ===== verification/PoolRun.thy ===== *)
theory PoolRun
  imports PoolGuards
begin

text \<open>
  Clients of the pool that hold any number of guards and write borrows and never delete a page, as a step relation, and
  what a thread that holds a write borrow of a page can no longer do.
\<close>

section \<open>A page under a write borrow\<close>

text \<open>The locks are not reentrant.\<close>

lemma borrowed_writer:
  assumes "pool_inv G L s" and "map_of (page_table s) p = Some f" and "unat f \<in> L"
  shows "fh_lock (frames s ! unat f) = Writer" "is_dirty (frames s ! unat f)"
  using pool_inv_entry(1) [OF assms(1,2)] assms by (simp_all add: pool_inv_def guards_ok_def)

lemma writer_blocks:
  assumes "fh_lock (frames s ! g_frame g) = Writer"
  shows "guard_borrow g s = Inl WouldBlock"
    and "g_frame g < length (frames s) \<Longrightarrow> guard_borrow_mut g s = Inl WouldBlock"
    and "is_dirty (frames s ! g_frame g) \<Longrightarrow> g_valid g \<Longrightarrow> write_guard_flush g s = Inl WouldBlock"
  using assms by (simp_all add: guard_borrow_def guard_borrow_mut_def write_guard_flush_def lock_read_def lock_write_def frame_clone_data_def)

text \<open>Another guard on the page is granted all the same.\<close>

lemma guard_on_borrowed:
  assumes inv: "pool_inv G L s" and e: "map_of (page_table s) p = Some f" and lock: "unat f \<in> L" and small: "size G + 1 < 2 ^ 64"
  obtains g s1 where "write_guard_new p (unat f) s = Inr (g, s1)" and "g_frame g = unat f" and "g_valid g"
    and "fh_lock (frames s1 ! unat f) = Writer" and "is_dirty (frames s1 ! unat f)" and "unat f < length (frames s1)"
proof -
  from guard_new_total [OF inv e] obtain g s1 where run: "write_guard_new p (unat f) s = Inr (g, s1)" by blast
  note N = guard_new_inv [OF inv e small run]
  have e1: "map_of (page_table s1) p = Some f" using N(3) e by (simp add: same_pool_def)
  show ?thesis using that [OF run] N(4) borrowed_writer [OF N(1) e1 lock] pool_inv_entry(2) [OF N(1) e1] by simp
qed

lemma flush_frame_blocks:
  assumes "pool_inv G L s" and "map_of (page_table s) p = Some f" and "unat f \<in> L" and "size G + 1 < 2 ^ 64"
  shows "flush_frame p f s = Inl WouldBlock"
proof -
  obtain g s1 where G: "write_guard_new p (unat f) s = Inr (g, s1)" "g_frame g = unat f" "g_valid g"
    "fh_lock (frames s1 ! unat f) = Writer" "is_dirty (frames s1 ! unat f)" by (rule guard_on_borrowed [OF assms])
  then have "write_guard_flush g s1 = Inl WouldBlock" by (simp add: writer_blocks)
  then show ?thesis using G(1) pool_inv_entry(2) [OF assms(1,2)] by (simp add: flush_frame_def read_guard_as_write)
qed

lemma flush_each_blocks:
  assumes "pool_inv G L s" and "set es \<subseteq> set (page_table s)" and "(p, f) \<in> set es" and "unat f \<in> L" and "size G + 1 < 2 ^ 64"
    and "unat (curr_size (replacer s)) + length es < 2 ^ 32"
  shows "flush_each es s = Inl WouldBlock"
  using assms(1,2,3,6)
proof (induction es arbitrary: s)
  case Nil
  then show ?case by simp
next
  case (Cons x es)
  obtain q h where x: "x = (q, h)" by fastforce
  have e: "map_of (page_table s) q = Some h" using Cons.prems(1,2) x by (simp add: pool_inv_def table_ok_def)
  show ?case
  proof (cases "unat h \<in> L")
    case True
    from flush_frame_blocks [OF Cons.prems(1) e True assms(5)] x show ?thesis by (simp add: flush_each_frame del: flush_each.simps)
  next
    case False
    from flush_frame_total [OF Cons.prems(1) e False assms(5)] Cons.prems(4) obtain r s1
      where fl: "flush_frame q h s = Inr (r, s1)" by auto
    note F = flush_frame_inv [OF Cons.prems(1) e False assms(5) fl]
    have "(p, f) \<in> set es" using Cons.prems(3) x False assms(4) by auto
    moreover have "set es \<subseteq> set (page_table s1)" using F Cons.prems(2) by (simp add: same_pool_def)
    moreover have "unat (curr_size (replacer s1)) + length es < 2 ^ 32" using F Cons.prems(4) by simp
    ultimately have "flush_each es s1 = Inl WouldBlock" using Cons.IH [of s1] F by blast
    with fl x show ?thesis by (simp add: flush_each_frame del: flush_each.simps)
  qed
qed

section \<open>Runs of a client\<close>

text \<open>\<open>gs\<close> are the live guards and \<open>bs\<close> those with a live write borrow. This is not every client: it asks only for pages it
  was given, and only when \<open>can_fetch\<close> (the policy may otherwise hand it a frame that another of its
  guards has pinned); it never deletes a page, whose replacer entry would stay behind; it drops a guard only while its page has no borrow. A
  request that panics or blocks ends the run.\<close>

abbreviation guard_frames :: "page_guard list \<Rightarrow> nat multiset" where
  "guard_frames gs \<equiv> mset (map g_frame gs)"

abbreviation borrow_frames :: "page_guard list \<Rightarrow> nat set" where
  "borrow_frames bs \<equiv> g_frame ` set bs"

inductive pool_run :: "bpm \<Rightarrow> page_guard list \<Rightarrow> page_guard list \<Rightarrow> bpm \<Rightarrow> bool" for s0 where
  start: "pool_run s0 [] [] s0"
| alloc: "pool_run s0 gs bs s \<Longrightarrow> unat (next_page_id s) + 1 < 2 ^ 32 \<Longrightarrow> new_page s = Inr (p, s') \<Longrightarrow> pool_run s0 gs bs s'"
| take_write: "pool_run s0 gs bs s \<Longrightarrow> pool_view s p \<noteq> None \<Longrightarrow> can_fetch (guard_frames gs) p s \<Longrightarrow> length gs + 1 < 2 ^ 64
    \<Longrightarrow> check_write_page p s = Inr (g, s') \<Longrightarrow> pool_run s0 (g # gs) bs s'"
| take_read: "pool_run s0 gs bs s \<Longrightarrow> pool_view s p \<noteq> None \<Longrightarrow> can_fetch (guard_frames gs) p s \<Longrightarrow> length gs + 1 < 2 ^ 64
    \<Longrightarrow> check_read_page p s = Inr (g, s') \<Longrightarrow> pool_run s0 (g # gs) bs s'"
| borrow: "pool_run s0 gs bs s \<Longrightarrow> g \<in> set gs \<Longrightarrow> guard_borrow_mut g s = Inr s' \<Longrightarrow> pool_run s0 gs (g # bs) s'"
| fill: "pool_run s0 gs bs s \<Longrightarrow> g \<in> set bs \<Longrightarrow> length b = PAGE_SIZE \<Longrightarrow> pool_run s0 gs bs (guard_set_bytes g b s)"
| release: "pool_run s0 gs bs s \<Longrightarrow> g \<in> set bs \<Longrightarrow> pool_run s0 gs (removeAll g bs) (guard_release_mut g s)"
| drop_guard: "pool_run s0 gs bs s \<Longrightarrow> g \<in> set gs \<Longrightarrow> g_frame g \<notin> borrow_frames bs \<Longrightarrow> write_guard_drop g s = Inr s'
    \<Longrightarrow> pool_run s0 (remove1 g gs) bs s'"
| flush: "pool_run s0 gs bs s \<Longrightarrow> length gs + 1 < 2 ^ 64 \<Longrightarrow> flush_page p s = Inr (r, s') \<Longrightarrow> pool_run s0 gs bs s'"
| flush_all: "pool_run s0 gs bs s \<Longrightarrow> length gs + 1 < 2 ^ 64 \<Longrightarrow> flush_all_pages s = Inr (r, s') \<Longrightarrow> pool_run s0 gs bs s'"

text \<open>What holds in between: the pool's invariant for these guards and borrows, every guard on its page, and a
  borrow on one of them; different borrows are of different frames.\<close>

definition run_inv :: "page_guard list \<Rightarrow> page_guard list \<Rightarrow> bpm \<Rightarrow> bool" where
  "run_inv gs bs s \<longleftrightarrow> pool_inv (guard_frames gs) (borrow_frames bs) s \<and> (\<forall>g \<in> set gs. guard_on g s)
     \<and> set bs \<subseteq> set gs \<and> inj_on g_frame (set bs)"

lemma guard_on_kept:
  assumes "keeps_pinned G s s'" and "guard_on g s" and "g_frame g \<in># G"
  shows "guard_on g s'"
  using assms by (fastforce simp: keeps_pinned_def guard_on_def)

lemma run_take:
  assumes "run_inv gs bs s" and "pool_view s p \<noteq> None" and "can_fetch (guard_frames gs) p s" and "length gs + 1 < 2 ^ 64"
    and run: "check_write_page p s = Inr (g, s')"
  shows "run_inv (g # gs) bs s'"
proof -
  have inv: "pool_inv (guard_frames gs) (borrow_frames bs) s" using assms(1) by (simp add: run_inv_def)
  obtain b where b: "pool_view s p = Some b" using assms(2) by blast
  have sz: "size (guard_frames gs) + 1 < 2 ^ 64" using assms(4) by simp
  obtain f where C: "pool_inv (add_mset (unat f) (guard_frames gs)) (borrow_frames bs) s'"
    "g = \<lparr>g_page_id = p, g_frame = unat f, g_valid = True\<rparr>" "map_of (page_table s') p = Some f" "keeps_pinned (guard_frames gs) s s'"
    using check_write_inv [OF inv b sz assms(3) run] by metis
  have "guard_on h s'" if "h \<in> set gs" for h
    using guard_on_kept [OF C(4), of h] that assms(1) by (simp add: run_inv_def)
  with C assms(1) show ?thesis by (auto simp: run_inv_def guard_on_def)
qed

text \<open>A lock says whether a borrow is alive, so a borrow that is granted is the only one of its frame.\<close>

lemma borrow_granted:
  assumes "pool_inv G L s" and "guard_on g s" and "guard_borrow_mut g s = Inr s'"
  shows "g_frame g \<notin> L"
proof
  assume L: "g_frame g \<in> L"
  from assms(2) obtain f where f: "map_of (page_table s) (g_page_id g) = Some f" "g_frame g = unat f" by (auto simp: guard_on_def)
  with borrowed_writer(1) [OF assms(1) f(1)] L writer_blocks(2) [of s g] pool_inv_entry(2) [OF assms(1) f(1)] assms(3)
  show False by simp
qed

lemma run_borrow:
  assumes "run_inv gs bs s" and "g \<in> set gs" and "guard_borrow_mut g s = Inr s'"
  shows "run_inv gs (g # bs) s'"
proof -
  have inv: "pool_inv (guard_frames gs) (borrow_frames bs) s" and on: "guard_on g s" using assms(1,2) by (simp_all add: run_inv_def)
  have live: "g_frame g \<in># guard_frames gs" using assms(2) by simp
  note B = borrow_inv [OF inv on live assms(3)]
  have "guard_on h s'" if "h \<in> set gs" for h using guard_on_same [OF _ B(3)] assms(1) that by (simp add: run_inv_def)
  moreover have "inj_on g_frame (set (g # bs))" using borrow_granted [OF inv on assms(3)] assms(1) by (auto simp: run_inv_def)
  ultimately show ?thesis using B(1) assms(1,2) by (simp add: run_inv_def)
qed

lemma run_fill:
  assumes "run_inv gs bs s" and "g \<in> set bs" and "length b = PAGE_SIZE"
  shows "run_inv gs bs (guard_set_bytes g b s)"
proof -
  have inv: "pool_inv (guard_frames gs) (borrow_frames bs) s" and on: "guard_on g s" using assms(1,2) by (auto simp: run_inv_def)
  have "g_frame g \<in> borrow_frames bs" using assms(2) by simp
  note B = set_bytes_inv [OF inv on this assms(3)]
  have "guard_on h (guard_set_bytes g b s)" if "h \<in> set gs" for h using guard_on_same [OF _ B(3)] assms(1) that by (simp add: run_inv_def)
  then show ?thesis using B(1) assms(1) by (simp add: run_inv_def)
qed

lemma run_release:
  assumes "run_inv gs bs s" and "g \<in> set bs"
  shows "run_inv gs (removeAll g bs) (guard_release_mut g s)"
proof -
  have inv: "pool_inv (guard_frames gs) (borrow_frames bs) s" and on: "guard_on g s" and inj: "inj_on g_frame (set bs)"
    using assms by (auto simp: run_inv_def)
  note B = release_inv [OF inv on]
  have "borrow_frames (removeAll g bs) = borrow_frames bs - {g_frame g}"
    using inj_on_image_set_diff [OF inj, of "set bs" "{g}"] assms(2) by simp
  moreover have "guard_on h (guard_release_mut g s)" if "h \<in> set gs" for h
    using guard_on_same [OF _ B(3)] assms(1) that by (simp add: run_inv_def)
  moreover have "inj_on g_frame (set (removeAll g bs))" by (rule inj_on_subset [OF inj]) auto
  ultimately show ?thesis using B(1) assms(1) unfolding run_inv_def by auto
qed

lemma run_drop:
  assumes "run_inv gs bs s" and "g \<in> set gs" and "g_frame g \<notin> borrow_frames bs" and "write_guard_drop g s = Inr s'"
  shows "run_inv (remove1 g gs) bs s'"
proof -
  have inv: "pool_inv (guard_frames gs) (borrow_frames bs) s" and on: "guard_on g s" using assms(1,2) by (simp_all add: run_inv_def)
  have "g_valid g" "g_frame g \<in># guard_frames gs" using on assms(2) by (simp_all add: guard_on_def)
  note D = guard_drop_inv [OF inv this assms(3,4)]
  have "guard_frames (remove1 g gs) = guard_frames gs - {#g_frame g#}"
    using assms(2) by (simp add: image_mset_Diff)
  moreover have "set bs \<subseteq> set (remove1 g gs)"
  proof
    fix h assume h: "h \<in> set bs"
    with assms(3) have "h \<noteq> g" by auto
    with h assms(1) show "h \<in> set (remove1 g gs)" by (auto simp: run_inv_def)
  qed
  moreover have "guard_on h s'" if "h \<in> set (remove1 g gs)" for h
    using guard_on_same [OF _ D(3)] assms(1) that notin_set_remove1 [of h gs g] by (auto simp: run_inv_def)
  ultimately show ?thesis using D(1) assms(1) by (simp add: run_inv_def)
qed

text \<open>A flush that comes back met no borrow.\<close>

lemma flush_frame_unborrowed:
  assumes "pool_inv G L s" and "map_of (page_table s) p = Some f" and "size G + 1 < 2 ^ 64" and "flush_frame p f s = Inr (r, s')"
  shows "pool_inv G L s' \<and> pool_view s' = pool_view s \<and> same_pool s s'"
proof -
  have "unat f \<notin> L" using flush_frame_blocks [OF assms(1,2) _ assms(3)] assms(4) by auto
  from flush_frame_inv [OF assms(1,2) this assms(3,4)] show ?thesis by simp
qed

lemma flush_each_unborrowed:
  assumes "pool_inv G L s" and "set es \<subseteq> set (page_table s)" and "size G + 1 < 2 ^ 64" and "flush_each es s = Inr s'"
  shows "pool_inv G L s' \<and> pool_view s' = pool_view s \<and> same_pool s s'"
  using assms(1,2,4)
proof (induction es arbitrary: s)
  case Nil
  then show ?case by simp
next
  case (Cons x es)
  obtain p f where x: "x = (p, f)" by fastforce
  from Cons.prems(3) x obtain r s1 where fl: "flush_frame p f s = Inr (r, s1)" and rest: "flush_each es s1 = Inr s'"
    by (auto simp: flush_each_frame seq_Inr_iff simp del: flush_each.simps)
  have "map_of (page_table s) p = Some f" using Cons.prems(1,2) x by (simp add: pool_inv_def table_ok_def)
  note F = flush_frame_unborrowed [OF Cons.prems(1) this assms(3) fl]
  have "set es \<subseteq> set (page_table s1)" using F Cons.prems(2) by (simp add: same_pool_def)
  with Cons.IH [OF _ this rest] F same_pool_trans show ?case by metis
qed

lemma run_same:
  assumes "run_inv gs bs s" and "pool_inv (guard_frames gs) (borrow_frames bs) s'" and "page_table s' = page_table s"
  shows "run_inv gs bs s'"
  using assms by (simp add: run_inv_def guard_on_def)

lemma pool_run_inv:
  assumes "pool_run s0 gs bs s" and "pool_idle s0"
  shows "run_inv gs bs s"
  using assms(1)
proof induction
  case start
  then show ?case using assms(2) by (simp add: run_inv_def)
next
  case (alloc gs bs s p s')
  then have "pool_inv (guard_frames gs) (borrow_frames bs) s" by (simp add: run_inv_def)
  from new_page_inv [OF this alloc.hyps(2)] alloc.hyps(3)
  have "pool_inv (guard_frames gs) (borrow_frames bs) s'" "page_table s' = page_table s" by auto
  with alloc.IH show ?case by (rule run_same)
next
  case (take_write gs bs s p g s')
  then show ?case using run_take by blast
next
  case (take_read gs bs s p g s')
  then show ?case using run_take by (simp add: check_read_page_eq)
next
  case (borrow gs bs s g s')
  then show ?case using run_borrow by blast
next
  case (fill gs bs s g b)
  then show ?case using run_fill by blast
next
  case (release gs bs s g)
  then show ?case using run_release by blast
next
  case (drop_guard gs bs s g s')
  then show ?case using run_drop by blast
next
  case (flush gs bs s p r s')
  have inv: "pool_inv (guard_frames gs) (borrow_frames bs) s" using flush.IH by (simp add: run_inv_def)
  have "pool_inv (guard_frames gs) (borrow_frames bs) s' \<and> page_table s' = page_table s"
  proof (cases "map_of (page_table s) p")
    case None
    with flush.hyps(3) inv show ?thesis by (simp add: flush_page_frame)
  next
    case (Some f)
    with flush.hyps(3) have "flush_frame p f s = Inr (r, s')" by (simp add: flush_page_frame)
    from flush_frame_unborrowed [OF inv Some _ this] flush.hyps(2) show ?thesis by (simp add: same_pool_def)
  qed
  with run_same [OF flush.IH] show ?case by blast
next
  case (flush_all gs bs s r s')
  have inv: "pool_inv (guard_frames gs) (borrow_frames bs) s" using flush_all.IH by (simp add: run_inv_def)
  have "pool_inv (guard_frames gs) (borrow_frames bs) s' \<and> page_table s' = page_table s"
  proof (cases "page_table s = []")
    case True
    with flush_all.hyps(3) inv show ?thesis by (simp add: flush_all_pages_def)
  next
    case False
    with flush_all.hyps(3) have "flush_each (page_table s) s = Inr s'" by (auto simp: flush_all_pages_def seq_Inr_iff)
    from flush_each_unborrowed [OF inv subset_refl _ this] flush_all.hyps(2) show ?thesis by (simp add: same_pool_def)
  qed
  with run_same [OF flush_all.IH] show ?case by blast
qed

text \<open>A run to start from: a page is made, guarded and borrowed.\<close>

lemma borrowed_run:
  obtains d g s where "disk_ok d" and "disk_view d = Map.empty" and "pool_run (bpm_new 10 d) [g] [g] s" and "g_page_id g = 0"
    and "pool_view s 0 = Some (replicate PAGE_SIZE 0)" and "working {#g_frame g#} {g_frame g} 100 s" and "guard_on g s"
    and "num_frames s = 10"
proof -
  have "faults \<lparr>fbytes = [], fpos = 0, faults = []\<rparr> = []" by simp
  from dm_new_ok [OF this] obtain d where d: "disk_ok d" "disk_view d = Map.empty" by blast
  let ?s0 = "bpm_new 10 d"
  have n: "next_page_id ?s0 = 0" "num_frames ?s0 = 10" by (simp_all add: bpm_new_def)
  have w0: "working {#} {} (Suc 100) ?s0" by (rule working_less [OF working_new_pool(1) [OF d]]) simp_all
  have v0: "pool_view ?s0 = Map.empty" using working_new_pool(2) [OF d, of 10] by simp
  obtain s1 where s1: "new_page ?s0 = Inr (next_page_id ?s0, s1)" "working {#} {} (Suc 100) s1"
    "pool_view s1 = (pool_view ?s0)(next_page_id ?s0 \<mapsto> replicate PAGE_SIZE 0)" "grows ?s0 s1" "next_page_id s1 = next_page_id ?s0 + 1"
    by (rule fresh_page [OF w0]) (simp_all add: n)
  have r1: "pool_run ?s0 [] [] s1" by (rule pool_run.alloc [OF pool_run.start _ s1(1)]) (simp add: n)
  have b1: "pool_view s1 0 = Some (replicate PAGE_SIZE 0)" using s1(3) n by simp
  obtain g s2 where s2: "check_write_page 0 s1 = Inr (g, s2)" "working {#g_frame g#} {} 100 s2" "guard_on g s2" "g_page_id g = 0"
    "pool_view s2 = pool_view s1" "grows s1 s2" by (rule take_guard [OF s1(2) b1])
  have "page_table s1 = [] \<and> free_frames s1 \<noteq> []"
    using s1(1) by (auto simp: new_page_def Let_def seq_Inr_iff bpm_new_def)
  then have "can_fetch (guard_frames []) 0 s1" by (simp add: can_fetch_def)
  then have r2: "pool_run ?s0 [g] [] s2" using pool_run.take_write [OF r1 _ _ _ s2(1)] b1 by simp
  have b2: "pool_view s2 (g_page_id g) = Some (replicate PAGE_SIZE 0)" using b1 s2(4,5) by simp
  obtain s where s: "guard_borrow_mut g s2 = Inr s" "working {#g_frame g#} {g_frame g} 100 s" "pool_view s = pool_view s2" "grows s2 s"
    by (rule borrow_guard [OF s2(2,3) _ _ b2]) simp_all
  have "pool_run ?s0 [g] [g] s" by (rule pool_run.borrow [OF r2 _ s(1)]) simp
  moreover have "num_frames s = 10" using s1(4) s2(6) s(4) n by (simp add: grows_def)
  ultimately show ?thesis using that [OF d] s2(4) b2 s(2,3) guard_on_grows [OF s2(3) s(4)] by simp
qed

text \<open>Guards in such a run: each shows the bytes of its page; two share a frame exactly if they are of the same page; the
  frame's pin count is the number of its guards, and its lock is held exactly while a borrow of it is alive.\<close>

lemma run_guards_on_pages:
  assumes "disk_ok d" and "disk_view d = Map.empty" and "n < 2 ^ 30" and "pool_run (bpm_new n d) gs bs s" and "g \<in> set gs"
  shows "pool_view s (g_page_id g) = Some (guard_bytes g s)
    \<and> (\<forall>h \<in> set gs. g_frame h = g_frame g \<longleftrightarrow> g_page_id h = g_page_id g)
    \<and> unat (pin_count (frames s ! g_frame g)) = length (filter (\<lambda>h. g_page_id h = g_page_id g) gs)
    \<and> fh_lock (frames s ! g_frame g) = (if \<exists>h \<in> set bs. g_page_id h = g_page_id g then Writer else Unlocked)"
proof -
  have R: "run_inv gs bs s" by (rule pool_run_inv [OF assms(4) bpm_new_idle(1) [OF assms(1-3)]])
  have inv: "pool_inv (guard_frames gs) (borrow_frames bs) s" and on: "\<forall>h \<in> set gs. guard_on h s" and bs: "set bs \<subseteq> set gs"
    using R by (simp_all add: run_inv_def)
  from on assms(5) obtain f where f: "map_of (page_table s) (g_page_id g) = Some f" "g_frame g = unat f" by (auto simp: guard_on_def)
  have same: "g_frame h = g_frame g \<longleftrightarrow> g_page_id h = g_page_id g" if "h \<in> set gs" for h
  proof -
    from on that obtain k where k: "map_of (page_table s) (g_page_id h) = Some k" "g_frame h = unat k" by (auto simp: guard_on_def)
    show ?thesis using pool_inv_table_inj [OF inv, of "g_page_id h" f "g_page_id g"] f k unsigned_word_eqI [of k f] by auto
  qed
  have view: "pool_view s (g_page_id g) = Some (guard_bytes g s)" using guard_view [OF inv f(1)] f(2) by (simp add: guard_bytes_def)
  have "count (guard_frames xs) i = length (filter (\<lambda>h. g_frame h = i) xs)" for xs i by (induction xs) auto
  then have "count (guard_frames gs) (g_frame g) = length (filter (\<lambda>h. g_frame h = g_frame g) gs)" .
  also have "\<dots> = length (filter (\<lambda>h. g_page_id h = g_page_id g) gs)" using filter_cong [OF refl same] by (rule arg_cong [where f = length])
  finally have cnt: "count (guard_frames gs) (g_frame g) = \<dots>" .
  have "g_frame g \<in> borrow_frames bs \<longleftrightarrow> (\<exists>h \<in> set bs. g_frame h = g_frame g)" unfolding image_iff by (simp add: eq_commute)
  also have "\<dots> \<longleftrightarrow> (\<exists>h \<in> set bs. g_page_id h = g_page_id g)" using same bs by blast
  finally have lock: "g_frame g \<in> borrow_frames bs \<longleftrightarrow> \<dots>" .
  have "unat (pin_count (frames s ! g_frame g)) = count (guard_frames gs) (g_frame g)
      \<and> fh_lock (frames s ! g_frame g) = (if g_frame g \<in> borrow_frames bs then Writer else Unlocked)"
    using pool_inv_entry(1) [OF inv f(1)] inv f(2) by (simp add: pool_inv_def guards_ok_def)
  with view same cnt lock show ?thesis by simp
qed

section \<open>Properties\<close>

text \<open>C22: One thread, one page, two borrows. While a write borrow of a page is alive, the thread that holds it
  never returns from reading the page, from writing it through another guard, from flushing it, or
  from flushing the pool: each takes the page's lock once more.\<close>

theorem borrowed_page_blocks:
  assumes "pool_inv G L s" and "size G + 1 < 2 ^ 64" and "map_of (page_table s) p = Some f" and "unat f \<in> L"
    and "unat (curr_size (replacer s)) + length (page_table s) < 2 ^ 32"
  shows "with_read_page p k s = Inl WouldBlock \<and> with_write_page p h s = Inl WouldBlock
    \<and> flush_page p s = Inl WouldBlock \<and> flush_all_pages s = Inl WouldBlock"
proof -
  obtain g s1 where G: "write_guard_new p (unat f) s = Inr (g, s1)" "g_frame g = unat f"
    "fh_lock (frames s1 ! unat f) = Writer" "unat f < length (frames s1)"
    by (rule guard_on_borrowed [OF assms(1,3,4,2)])
  have "check_write_page p s = Inr (g, s1)"
    using G(1) assms(3) pool_inv_entry(2) [OF assms(1,3)] by (simp add: check_write_page_def)
  then have "with_read_page p k s = Inl WouldBlock" "with_write_page p h s = Inl WouldBlock"
    using G by (simp_all add: with_read_page_def with_write_page_def check_read_page_eq with_data_def with_data_mut_def writer_blocks)
  moreover have "flush_page p s = Inl WouldBlock"
    using flush_frame_blocks [OF assms(1,3,4,2)] assms(3) by (simp add: flush_page_frame)
  moreover have "flush_all_pages s = Inl WouldBlock"
    using flush_each_blocks [OF assms(1) subset_refl map_of_SomeD [OF assms(3)] assms(4,2,5)] assms(3)
    by (auto simp: flush_all_pages_def)
  ultimately show ?thesis by blast
qed

theorem borrowed_page_blocks_witness:
  "\<exists>s. flush_page 0 s = Inl WouldBlock \<and> flush_all_pages s = Inl WouldBlock \<and> pool_view s 0 = Some (replicate PAGE_SIZE 0)"
proof -
  obtain g s where R: "g_page_id g = 0" "pool_view s 0 = Some (replicate PAGE_SIZE 0)" "working {#g_frame g#} {g_frame g} 100 s"
    "guard_on g s" "num_frames s = 10" by (rule borrowed_run)
  from R(1,4) obtain f where f: "map_of (page_table s) 0 = Some f" "unat f \<in> {g_frame g}" by (auto simp: guard_on_def)
  have inv: "pool_inv {#g_frame g#} {g_frame g} s" and rm: "unat (curr_size (replacer s)) + 100 < 2 ^ 32"
    using R(3) by (simp_all add: working_def)
  have "unat (curr_size (replacer s)) + length (page_table s) < 2 ^ 32" using rm table_length [OF inv] R(5) by simp
  from borrowed_page_blocks [OF inv _ f this, of "\<lambda>_. Inr ()" "\<lambda>bs. Inr ((), bs)"] R(2) show ?thesis by auto
qed

end
