(* ===== verification/PoolSections.thy ===== *)
theory PoolSections
  imports PoolRun
begin

text \<open>
  When an eviction can hit a pinned frame, and when it cannot. The policy keeps the pages it has seen more
  than once in the order of their last access, so a client that touches few pages while it holds
  guards never loses one of them, whatever else is evicted.
\<close>

section \<open>The order of the policy's lists\<close>

text \<open>\<open>W\<close> are the pages touched lately: in the MFU list they come before all others. \<open>G\<close> are the pinned frames:
  one of them in the MRU list was accessed once, by the guard that pins it, and is not a candidate.\<close>

definition recent :: "page_id set \<Rightarrow> arc_replacer \<Rightarrow> bool" where
  "recent W r \<longleftrightarrow> sorted_wrt (\<lambda>a b. snd b \<in> W \<longrightarrow> snd a \<in> W) (mfu r)"

definition orderly :: "nat multiset \<Rightarrow> page_id set \<Rightarrow> arc_replacer \<Rightarrow> bool" where
  "orderly G W r \<longleftrightarrow> recent W r
     \<and> (\<forall>f \<in> fst ` set (mru r). unat f \<in># G \<longrightarrow> f \<notin> evictable_pages r \<and> count G (unat f) = 1)"

lemma orderlyD: "orderly G W r \<Longrightarrow> f \<in> fst ` set (mru r) \<Longrightarrow> unat f \<in># G \<Longrightarrow> f \<notin> evictable_pages r \<and> count G (unat f) = 1"
  unfolding orderly_def by blast

lemma orderlyI:
  assumes "recent W r" and "\<And>f. f \<in> fst ` set (mru r) \<Longrightarrow> unat f \<in># G \<Longrightarrow> f \<notin> evictable_pages r \<and> count G (unat f) = 1"
  shows "orderly G W r"
  unfolding orderly_def using assms by blast

lemma sorted_wrt_remove_nth: "sorted_wrt P xs \<Longrightarrow> sorted_wrt P (remove_nth i xs)"
proof (cases "i < length xs")
  case True
  assume "sorted_wrt P xs"
  then have "sorted_wrt P (take i xs @ xs ! i # drop (Suc i) xs)" by (simp only: nth_split [OF True, symmetric])
  then show ?thesis by (simp add: remove_nth_def sorted_wrt_append)
qed (simp add: remove_nth_def)

text \<open>What an access does to the two lists.\<close>

lemma access_lists:
  assumes "record_access f p r = Inr r'"
  shows "(f, p) \<in> tracked r \<and> mru r' = filter (\<lambda>e. e \<noteq> (f, p)) (mru r) \<and> mfu r' = (f, p) # filter (\<lambda>e. e \<noteq> (f, p)) (mfu r)
    \<or> (f, p) \<notin> tracked r \<and> mru r' = mru r \<and> mfu r' = (f, p) # mfu r
    \<or> (f, p) \<notin> tracked r \<and> (mru r' = (f, p) # mru r \<or> mru r' = mru r) \<and> mfu r' = mfu r"
  using assms by (auto simp: record_access_def tracked_def Let_def seq_Inr_iff split: if_splits)

lemma access_evictable: "record_access f p r = Inr r' \<Longrightarrow> evictable_pages r' = evictable_pages r"
  by (auto simp: record_access_def Let_def seq_Inr_iff split: if_splits)

lemma recent_access:
  assumes "record_access f p r = Inr r'" and "recent W r" and "\<forall>g. (g, p) \<in> tracked r \<longrightarrow> g = f"
  shows "recent (insert p W) r'"
proof -
  have front: "sorted_wrt (\<lambda>a b. snd b \<in> insert p W \<longrightarrow> snd a \<in> insert p W) ((f, p) # xs)"
    if "sorted_wrt (\<lambda>a b. snd b \<in> W \<longrightarrow> snd a \<in> W) xs" and "\<forall>e \<in> set xs. snd e \<noteq> p" for xs :: "(frame_id \<times> page_id) list"
  proof -
    have "sorted_wrt (\<lambda>a b. snd b \<in> insert p W \<longrightarrow> snd a \<in> insert p W) xs"
      using that by (induction xs) auto
    then show ?thesis by simp
  qed
  have other: "\<forall>e \<in> set (filter (\<lambda>e. e \<noteq> (f, p)) (mfu r)). snd e \<noteq> p"
    using assms(3) by (auto simp: tracked_def)
  have srt: "sorted_wrt (\<lambda>a b. snd b \<in> W \<longrightarrow> snd a \<in> W) (mfu r)" using assms(2) by (simp add: recent_def)
  consider "mfu r' = (f, p) # filter (\<lambda>e. e \<noteq> (f, p)) (mfu r)" | "(f, p) \<notin> tracked r" "mfu r' = (f, p) # mfu r \<or> mfu r' = mfu r"
    using access_lists [OF assms(1)] by blast
  then show ?thesis
  proof cases
    case 1
    with front [OF sorted_wrt_filter [OF srt] other] show ?thesis by (simp only: recent_def)
  next
    case 2
    then have "\<forall>e \<in> set (mfu r). snd e \<noteq> p" using assms(3) by (auto simp: tracked_def)
    from front [OF srt this] 2(2) show ?thesis unfolding recent_def by (auto simp only: sorted_wrt.simps)
  qed
qed

lemma orderly_access:
  assumes inv: "arc_inv r" and run: "record_access f p r = Inr r'" and ord: "orderly G W r"
    and page: "\<forall>g. (g, p) \<in> tracked r \<longrightarrow> g = f"
    and new: "(f, p) \<notin> tracked r \<Longrightarrow> f \<notin> fst ` tracked r \<and> f \<notin> evictable_pages r \<and> unat f \<notin># G"
  shows "orderly (add_mset (unat f) G) (insert p W) r'"
proof -
  have "h \<notin> evictable_pages r' \<and> count (add_mset (unat f) G) (unat h) = 1"
    if h: "h \<in> fst ` set (mru r')" "unat h \<in># add_mset (unat f) G" for h
  proof (cases "h = f")
    case True
    have "(f, p) \<notin> tracked r"
    proof
      assume t: "(f, p) \<in> tracked r"
      then have "mru r' = filter (\<lambda>e. e \<noteq> (f, p)) (mru r)" using access_lists [OF run] by blast
      then have "\<exists>q. (f, q) \<in> tracked r \<and> q \<noteq> p" using h(1) True by (fastforce simp: tracked_def)
      with arc_inv_frame_unique [OF inv t] show False by blast
    qed
    with new True show ?thesis by (simp add: access_evictable [OF run] not_in_iff)
  next
    case False
    then have ne: "unat h \<noteq> unat f" using unsigned_word_eqI [of h f] by blast
    have "h \<in> fst ` set (mru r)" using access_lists [OF run] h(1) False by auto
    with orderlyD [OF ord this] h(2) ne show ?thesis by (simp add: access_evictable [OF run])
  qed
  moreover have "recent (insert p W) r'" using recent_access [OF run _ page] ord by (simp add: orderly_def)
  ultimately show ?thesis by (intro orderlyI)
qed

lemma evict_lists:
  assumes "evict r = Inr (Some f, r')"
  shows "(\<exists>i. mru r' = remove_nth i (mru r) \<and> mfu r' = mfu r \<or> mru r' = mru r \<and> mfu r' = remove_nth i (mfu r))
    \<and> evictable_pages r' = evictable_pages r - {f}"
  using evict_which [OF assms]
  by (auto simp: evict_from_mru_ghost_def evict_from_mfu_ghost_def seq_Inr_iff split: option.splits prod.splits)

lemma set_remove_nth: "set (remove_nth i xs) \<subseteq> set xs"
  by (auto simp: remove_nth_def dest: in_set_takeD in_set_dropD)

lemma orderly_evict:
  assumes "evict r = Inr (Some f, r')" and "orderly G W r"
  shows "orderly G W r'"
proof -
  from evict_lists [OF assms(1)] obtain i where i: "mru r' = remove_nth i (mru r) \<and> mfu r' = mfu r \<or> mru r' = mru r \<and> mfu r' = remove_nth i (mfu r)"
    and e: "evictable_pages r' = evictable_pages r - {f}" by blast
  have "recent W r'" using i assms(2) sorted_wrt_remove_nth by (auto simp: orderly_def recent_def)
  moreover have "set (mru r') \<subseteq> set (mru r)" using i set_remove_nth [of i "mru r"] by auto
  ultimately show ?thesis using assms(2) e unfolding orderly_def by blast
qed

lemma orderly_mark:
  assumes "set_evictable f r = Inr r'" and "orderly G W r" and "unat f \<notin># G'" and "\<forall>i. i \<noteq> unat f \<longrightarrow> count G' i = count G i"
  shows "orderly G' W r'"
proof -
  have eq: "mru r' = mru r" "mfu r' = mfu r" "evictable_pages r' = insert f (evictable_pages r)"
    using assms(1) by (auto simp: set_evictable_def seq_Inr_iff)
  have "h \<notin> evictable_pages r' \<and> count G' (unat h) = 1" if h: "h \<in> fst ` set (mru r')" "unat h \<in># G'" for h
  proof -
    have "unat h \<noteq> unat f" using h(2) assms(3) by auto
    moreover from this have "h \<noteq> f" "unat h \<in># G" using h(2) assms(4) by (auto simp flip: count_greater_zero_iff)
    moreover have "h \<in> fst ` set (mru r)" using h(1) eq by simp
    ultimately show ?thesis using orderlyD [OF assms(2), of h] assms(4) eq by simp
  qed
  moreover have "recent W r'" using assms(2) eq by (simp add: orderly_def recent_def)
  ultimately show ?thesis by (intro orderlyI)
qed

lemma orderly_unpin_one:
  assumes "orderly G W r" and "unat f \<in># G" and "1 < count G (unat f)"
  shows "orderly (G - {#unat f#}) W r"
proof -
  have "h \<notin> evictable_pages r \<and> count (G - {#unat f#}) (unat h) = 1" if h: "h \<in> fst ` set (mru r)" "unat h \<in># G - {#unat f#}" for h
  proof -
    have "unat h \<in># G" using h(2) by (rule in_diffD)
    then have one: "h \<notin> evictable_pages r" "count G (unat h) = 1" using orderlyD [OF assms(1) h(1)] by simp_all
    then have "unat h \<noteq> unat f" using assms(3) by auto
    with one show ?thesis by simp
  qed
  moreover have "recent W r" using assms(1) by (simp add: orderly_def)
  ultimately show ?thesis by (intro orderlyI)
qed

lemma recent_none: "recent {} r"
  by (simp add: recent_def sorted_wrt_iff_nth_less)

lemma orderly_fewer: "orderly G W r \<Longrightarrow> orderly G {} r"
  using recent_none by (simp add: orderly_def)

section \<open>A victim that is not pinned\<close>

lemma last_candidate_order:
  assumes "last_candidate E xs = Some v" and "sorted_wrt P xs" and "e \<in> set xs" and "fst e \<in> E"
  shows "e = v \<or> P e v"
proof -
  let ?ys = "filter (\<lambda>e. fst e \<in> E) xs"
  have e: "e \<in> set ?ys" using assms(3,4) by simp
  then have ne: "?ys \<noteq> []" by (metis list.distinct(1) list.set_cases)
  then have v: "v = last ?ys" using assms(1) by (auto simp: last_candidate_def split: list.splits)
  have "sorted_wrt P (butlast ?ys @ [last ?ys])"
    unfolding append_butlast_last_id [OF ne] by (rule sorted_wrt_filter [OF assms(2)])
  moreover have "e \<in> set (butlast ?ys @ [last ?ys])" unfolding append_butlast_last_id [OF ne] by (rule e)
  ultimately show ?thesis using v by (auto simp: sorted_wrt_append)
qed

lemma last_candidate_None: "last_candidate E xs = None \<Longrightarrow> e \<in> set xs \<Longrightarrow> fst e \<notin> E"
  by (auto simp: last_candidate_def filter_empty_conv split: list.splits)

lemma favoured_lists:
  "favoured_victim r = Some v \<Longrightarrow> v \<in> set (mru r)
     \<or> last_candidate (evictable_pages r) (mfu r) = Some v
       \<and> (last_candidate (evictable_pages r) (mru r) = None \<or> length (mru r) < unat (mru_target_size r))"
  by (auto simp: favoured_victim_def Let_def split: if_splits dest: last_candidate_Some)

text \<open>The pages of the pinned frames are among the pages touched lately, and these leave more room than the target
  of the MRU list takes: then the victim is not pinned.\<close>

lemma victim_unpinned:
  assumes inv: "pool_inv G L s" and full: "free_frames s = []" and ord: "orderly G W (replacer s)"
    and pinned: "\<forall>(p, f) \<in> set (page_table s). unat f \<in># G \<longrightarrow> p \<in> W"
    and fin: "finite W" and small: "card W + max 1 (unat (mru_target_size (replacer s))) \<le> num_frames s"
  shows "\<exists>v. favoured_victim (replacer s) = Some v \<and> unat (fst v) \<notin># G"
proof -
  let ?r = "replacer s"
  let ?E = "evictable_pages ?r"
  have rep: "arc_inv ?r" "tracked ?r = prod.swap ` set (page_table s)" using inv by (simp_all add: pool_inv_def replacer_ok_def)
  have cand: "f \<in> ?E" if "(f, p) \<in> tracked ?r" "p \<notin> W" for f p
  proof -
    have "(p, f) \<in> set (page_table s)" using that(1) rep(2) by auto
    then have "unat f \<notin># G" "f \<in> snd ` set (page_table s)" using pinned that(2) by force+
    then show ?thesis using inv unfolding pool_inv_def guards_ok_def by blast
  qed
  have pages: "distinct (map snd (mru ?r @ mfu ?r))" 
    using rep(1) unfolding arc_inv_def by (simp only: distinct_append)
  have len: "length (mru ?r) + length (mfu ?r) = num_frames s"
  proof -
    have "distinct (map snd (page_table s))" "length (page_table s) = num_frames s"
      using inv table_length [OF inv] full by (simp_all add: pool_inv_def table_ok_def)
    then have "card (snd ` set (page_table s)) = num_frames s" by (metis distinct_card length_map list.set_map)
    moreover have "snd ` set (page_table s) = fst ` tracked ?r" by (simp add: rep(2) image_image)
    ultimately have "card (set (map fst (mru ?r @ mfu ?r))) = num_frames s" by (simp only: tracked_frames)
    then show ?thesis using distinct_card [OF arc_inv_frames [OF rep(1)]] by simp
  qed
  have count_pages: "length xs \<le> card W" if "distinct (map snd xs)" "\<forall>e \<in> set xs. snd e \<in> W" for xs :: "(frame_id \<times> page_id) list"
    using card_mono [OF fin, of "set (map snd xs)"] distinct_card [OF that(1)] that(2) by auto
  have "\<not> (\<forall>e \<in> set (mru ?r @ mfu ?r). snd e \<in> W)"
  proof
    assume "\<forall>e \<in> set (mru ?r @ mfu ?r). snd e \<in> W"
    from count_pages [OF pages this] len small show False by simp
  qed
  then obtain e0 where "e0 \<in> tracked ?r" "snd e0 \<notin> W" by (auto simp: tracked_def)
  with cand have "?E \<noteq> {}" by (metis empty_iff prod.collapse)
  then obtain v where v: "favoured_victim ?r = Some v" by (rule victim_exists [OF inv])
  note vt = favoured_victim_tracked [OF v]
  have "unat (fst v) \<notin># G"
  proof
    assume g: "unat (fst v) \<in># G"
    have "prod.swap v \<in> set (page_table s)" using vt rep(2) by auto
    then have vW: "snd v \<in> W" using pinned g by (cases v) auto
    have "v \<notin> set (mru ?r)" using ord g vt by (force simp: orderly_def)
    with favoured_lists [OF v] have lc: "last_candidate ?E (mfu ?r) = Some v"
      and which: "last_candidate ?E (mru ?r) = None \<or> length (mru ?r) < unat (mru_target_size ?r)" by blast+
    have srt: "sorted_wrt (\<lambda>a b. snd b \<in> W \<longrightarrow> snd a \<in> W) (mfu ?r)" using ord by (simp add: orderly_def recent_def)
    have "\<forall>e \<in> set (mfu ?r). snd e \<in> W"
    proof
      fix e assume e: "e \<in> set (mfu ?r)"
      show "snd e \<in> W"
      proof (rule ccontr)
        assume "snd e \<notin> W"
        moreover from this have "fst e \<in> ?E" using cand [of "fst e" "snd e"] e by (simp add: tracked_def)
        ultimately show False using last_candidate_order [OF lc srt e] vW by auto
      qed
    qed
    then have mfuW: "length (mfu ?r) \<le> card W" using pages count_pages by simp
    from which show False
    proof
      assume "length (mru ?r) < unat (mru_target_size ?r)"
      with mfuW len small show False by simp
    next
      assume none: "last_candidate ?E (mru ?r) = None"
      have "\<forall>e \<in> set (mru ?r). snd e \<in> W"
      proof
        fix e assume e: "e \<in> set (mru ?r)"
        with last_candidate_None [OF none e] cand [of "fst e" "snd e"] show "snd e \<in> W" by (auto simp: tracked_def)
      qed
      with \<open>\<forall>e \<in> set (mfu ?r). snd e \<in> W\<close> have "\<forall>e \<in> set (mru ?r @ mfu ?r). snd e \<in> W" by auto
      with count_pages [OF pages] len small show False by simp
    qed
  qed
  with v show ?thesis by blast
qed

section \<open>Critical sections\<close>

text \<open>A client whose critical sections are short, and that never calls \<open>delete_page\<close>: a deletion leaves a replacer entry
  behind that can cost a later guard its frame (theory \<open>PoolDelete\<close>). \<open>W\<close> are the pages touched since it
  last held no guard; a flush touches what it flushes. A request that needs an eviction is made only while these pages, and
  the target of the MRU list, leave room. It asks only for pages it was given, and drops a guard only while
  its page has no borrow.\<close>

definition section_ok :: "page_id set \<Rightarrow> page_id \<Rightarrow> bpm \<Rightarrow> bool" where
  "section_ok W p s \<longleftrightarrow> map_of (page_table s) p \<noteq> None \<or> free_frames s \<noteq> []
     \<or> card W + max 1 (unat (mru_target_size (replacer s))) \<le> num_frames s"

inductive section_run :: "bpm \<Rightarrow> page_guard list \<Rightarrow> page_guard list \<Rightarrow> page_id set \<Rightarrow> bpm \<Rightarrow> bool" for s0 where
  start: "section_run s0 [] [] {} s0"
| alloc: "section_run s0 gs bs W s \<Longrightarrow> unat (next_page_id s) + 1 < 2 ^ 32 \<Longrightarrow> new_page s = Inr (p, s') \<Longrightarrow> section_run s0 gs bs W s'"
| take_write: "section_run s0 gs bs W s \<Longrightarrow> pool_view s p \<noteq> None \<Longrightarrow> section_ok W p s \<Longrightarrow> length gs + 1 < 2 ^ 64
    \<Longrightarrow> check_write_page p s = Inr (g, s') \<Longrightarrow> section_run s0 (g # gs) bs (insert p W) s'"
| take_read: "section_run s0 gs bs W s \<Longrightarrow> pool_view s p \<noteq> None \<Longrightarrow> section_ok W p s \<Longrightarrow> length gs + 1 < 2 ^ 64
    \<Longrightarrow> check_read_page p s = Inr (g, s') \<Longrightarrow> section_run s0 (g # gs) bs (insert p W) s'"
| borrow: "section_run s0 gs bs W s \<Longrightarrow> g \<in> set gs \<Longrightarrow> guard_borrow_mut g s = Inr s' \<Longrightarrow> section_run s0 gs (g # bs) W s'"
| fill: "section_run s0 gs bs W s \<Longrightarrow> g \<in> set bs \<Longrightarrow> length b = PAGE_SIZE \<Longrightarrow> section_run s0 gs bs W (guard_set_bytes g b s)"
| release: "section_run s0 gs bs W s \<Longrightarrow> g \<in> set bs \<Longrightarrow> section_run s0 gs (removeAll g bs) W (guard_release_mut g s)"
| drop_guard: "section_run s0 gs bs W s \<Longrightarrow> g \<in> set gs \<Longrightarrow> g_frame g \<notin> borrow_frames bs \<Longrightarrow> write_guard_drop g s = Inr s'
    \<Longrightarrow> section_run s0 (remove1 g gs) bs W s'"
| leave: "section_run s0 [] bs W s \<Longrightarrow> section_run s0 [] bs {} s"
| flush: "section_run s0 gs bs W s \<Longrightarrow> length gs + 1 < 2 ^ 64 \<Longrightarrow> flush_page p s = Inr (r, s') \<Longrightarrow> section_run s0 gs bs (insert p W) s'"
| flush_all: "section_run s0 gs bs W s \<Longrightarrow> length gs + 1 < 2 ^ 64 \<Longrightarrow> flush_all_pages s = Inr (r, s')
    \<Longrightarrow> section_run s0 gs bs (fst ` set (page_table s) \<union> W) s'"

text \<open>The order of the policy's lists along such a run.\<close>

abbreviation pool_orderly :: "nat multiset \<Rightarrow> page_id set \<Rightarrow> bpm \<Rightarrow> bool" where
  "pool_orderly G W s \<equiv> orderly G W (replacer s)"

lemma tracked_table: "pool_inv G L s \<Longrightarrow> (f, p) \<in> tracked (replacer s) \<longleftrightarrow> map_of (page_table s) p = Some f"
proof -
  assume inv: "pool_inv G L s"
  then have "tracked (replacer s) = prod.swap ` set (page_table s)" "distinct (map fst (page_table s))"
    by (simp_all add: pool_inv_def replacer_ok_def table_ok_def)
  then show ?thesis by (force simp: map_of_eq_Some_iff)
qed

lemma orderly_hit:
  assumes inv: "pool_inv G L s" and e: "map_of (page_table s) p = Some f" and ord: "pool_orderly G W s"
    and run: "record_access f p (replacer s) = Inr r"
  shows "orderly (add_mset (unat f) G) (insert p W) r"
proof (rule orderly_access [OF _ run ord])
  show "arc_inv (replacer s)" using inv by (simp add: pool_inv_def replacer_ok_def)
  show "\<forall>g. (g, p) \<in> tracked (replacer s) \<longrightarrow> g = f" using tracked_table [OF inv] e by simp
  show "(f, p) \<notin> tracked (replacer s) \<Longrightarrow> f \<notin> fst ` tracked (replacer s) \<and> f \<notin> evictable_pages (replacer s) \<and> unat f \<notin># G"
    using tracked_table [OF inv] e by simp
qed

lemma orderly_load:
  assumes inv: "pool_inv G L s" and free: "free_frames s = fs @ [f]" and miss: "map_of (page_table s) p = None"
    and ord: "pool_orderly G W s" and run: "record_access f p (replacer s) = Inr r"
  shows "orderly (add_mset (unat f) G) (insert p W) r"
proof (rule orderly_access [OF _ run ord])
  note ff = free_frame_facts [OF inv free]
  show "arc_inv (replacer s)" using inv by (simp add: pool_inv_def replacer_ok_def)
  show "\<forall>g. (g, p) \<in> tracked (replacer s) \<longrightarrow> g = f" using tracked_table [OF inv] miss by simp
  show "f \<notin> fst ` tracked (replacer s) \<and> f \<notin> evictable_pages (replacer s) \<and> unat f \<notin># G"
    using ff(2,3,10) inv by (auto simp: pool_inv_def replacer_ok_def)
qed

lemma check_write_orderly:
  assumes inv: "pool_inv G L s" and b: "pool_view s p = Some b" and small: "size G + 1 < 2 ^ 64"
    and cf: "can_fetch G p s" and run: "check_write_page p s = Inr (g, s')" and ord: "pool_orderly G W s"
  shows "pool_orderly (add_mset (g_frame g) G) (insert p W) s'"
proof (cases "map_of (page_table s) p")
  case (Some f)
  have run': "write_guard_new p (unat f) s = Inr (g, s')"
    using run Some pool_inv_entry(2) [OF inv Some] by (simp add: check_write_page_def)
  have "g_frame g = unat f" using guard_new_inv(4) [OF inv Some small run'] by simp
  with orderly_hit [OF inv Some ord guard_new_access [OF inv Some run']] show ?thesis by simp
next
  case None
  show ?thesis
  proof (cases "free_frames s" rule: rev_cases)
    case (snoc fs f)
    with run None have "seq (load_page p f (s\<lparr>free_frames := fs\<rparr>)) (write_guard_new p (unat f)) = Inr (g, s')"
      by (simp add: check_write_page_def pop_free_snoc)
    note F = fetch_free_inv [OF inv snoc None b small this]
    from orderly_load [OF inv snoc None ord F(9)] F(3) show ?thesis by simp
  next
    case Nil
    then obtain v where v: "favoured_victim (replacer s) = Some v" "unat (fst v) \<notin># G"
      using cf None by (auto simp: can_fetch_def split: option.splits)
    obtain q f r s1 where E: "evict (replacer s) = Inr (Some f, r)" "replacer s1 = r" "evict_frame s = Inr s1" "pool_inv G L s1"
      "pool_view s1 = pool_view s" "free_frames s1 = free_frames s @ [f]" "page_table s1 = AList.delete q (page_table s)"
      by (rule evict_frame_inv [OF inv v]) blast
    have free1: "free_frames s1 = [] @ [f]" using E(6) Nil by simp
    have miss1: "map_of (page_table s1) p = None" using E(7) None by (simp add: delete_conv)
    have b1: "pool_view s1 p = Some b" using b E(5) by simp
    have "seq (load_page p f (s1\<lparr>free_frames := []\<rparr>)) (write_guard_new p (unat f)) = Inr (g, s')"
      using run None Nil E(3) pop_free_snoc [OF free1] by (simp add: check_write_page_def)
    note F = fetch_free_inv [OF E(4) free1 miss1 b1 small this]
    have "pool_orderly G W s1" using orderly_evict [OF E(1) ord] E(2) by simp
    from orderly_load [OF E(4) free1 miss1 this F(9)] F(3) show ?thesis by simp
  qed
qed

lemma guard_drop_orderly:
  assumes inv: "pool_inv G L s" and g: "guard_on g s" "g_frame g \<in># G" and run: "write_guard_drop g s = Inr s'" and ord: "pool_orderly G W s"
  shows "pool_orderly (G - {#g_frame g#}) W s'"
proof -
  from g(1) obtain f where f: "map_of (page_table s) (g_page_id g) = Some f" "g_frame g = unat f" "g_valid g" by (auto simp: guard_on_def)
  note entry = pool_inv_entry [OF inv f(1)]
  have pc: "unat (pin_count (frames s ! unat f)) = count G (unat f)" using inv entry(1) by (simp add: pool_inv_def guards_ok_def)
  have pos: "0 < count G (unat f)" using g(2) f(2) by simp
  then have un: "unat (pin_count (unpin (frames s ! unat f))) = count G (unat f) - 1" using unat_unpin [of "frames s ! unat f"] pc by simp
  show ?thesis
  proof (cases "count G (unat f) = 1")
    case True
    then have "pin_count (unpin (frames s ! unat f)) = 0" using un by (simp add: unat_eq_0)
    then have "set_evictable f (replacer s) = Inr (replacer s')"
      using run f(2,3) entry(2,6) by (auto simp: write_guard_drop_def Let_def seq_Inr_iff unpin_def)
    moreover have "unat f \<notin># G - {#unat f#}" using True by (simp add: not_in_iff)
    ultimately show ?thesis unfolding f(2) by (rule orderly_mark [OF _ ord]) simp
  next
    case False
    have "pin_count (unpin (frames s ! unat f)) \<noteq> 0"
    proof
      assume "pin_count (unpin (frames s ! unat f)) = 0"
      then have "count G (unat f) - 1 = 0" using un by simp
      with pos False show False by linarith
    qed
    then have "replacer s' = replacer s" using run f(2,3) entry(2) by (auto simp: write_guard_drop_def Let_def)
    moreover have "1 < count G (unat f)" using False pos by linarith
    ultimately show ?thesis using orderly_unpin_one [OF ord] g(2) f(2) by simp
  qed
qed

text \<open>A flush is an access of the page it flushes.\<close>

lemma flush_frame_orderly:
  assumes inv: "pool_inv G L s" and e: "map_of (page_table s) p = Some f" and small: "size G + 1 < 2 ^ 64"
    and run: "flush_frame p f s = Inr (r, s')" and ord: "pool_orderly G W s"
  shows "pool_orderly G (insert p W) s'"
proof -
  have free: "unat f \<notin> L" using flush_frame_blocks [OF inv e _ small] run by auto
  from run pool_inv_entry(2) [OF inv e] obtain g s1 s2 where
    new: "write_guard_new p (unat f) s = Inr (g, s1)" and
    fl: "write_guard_flush g s1 = Inr (r, s2)" and dr: "write_guard_drop g s2 = Inr s'"
    by (auto simp: flush_frame_def read_guard_as_write seq_Inr_iff)
  note N = guard_new_inv [OF inv e small new]
  have e1: "map_of (page_table s1) p = Some f" using N(3) e by (simp add: same_pool_def)
  from guard_flush_inv [OF N(1) e1 free N(4)] fl have F: "pool_inv (add_mset (unat f) G) L s2" "same_pool s1 s2" "replacer s2 = replacer s1"
    by auto
  have "pool_orderly (add_mset (unat f) G) (insert p W) s2" using orderly_hit [OF inv e ord guard_new_access [OF inv e new]] F(3) by simp
  moreover have "guard_on g s2" using N(4) e1 F(2) by (simp add: guard_on_def same_pool_def)
  ultimately have "pool_orderly (add_mset (unat f) G - {#g_frame g#}) (insert p W) s'"
    using guard_drop_orderly [OF F(1) _ _ dr] N(4) by simp
  then show ?thesis using N(4) by simp
qed

lemma flush_each_orderly:
  assumes "pool_inv G L s" and "set es \<subseteq> set (page_table s)" and "size G + 1 < 2 ^ 64" and "flush_each es s = Inr s'" and "pool_orderly G W s"
  shows "pool_orderly G (fst ` set es \<union> W) s'"
  using assms(1,2,4,5)
proof (induction es arbitrary: s W)
  case Nil
  then show ?case by simp
next
  case (Cons x es)
  obtain p f where x: "x = (p, f)" by fastforce
  from Cons.prems(3) x obtain r s1 where fl: "flush_frame p f s = Inr (r, s1)" and rest: "flush_each es s1 = Inr s'"
    by (auto simp: flush_each_frame seq_Inr_iff simp del: flush_each.simps)
  have e: "map_of (page_table s) p = Some f" using Cons.prems(1,2) x by (simp add: pool_inv_def table_ok_def)
  note F = flush_frame_unborrowed [OF Cons.prems(1) e assms(3) fl]
  have "set es \<subseteq> set (page_table s1)" using F Cons.prems(2) by (simp add: same_pool_def)
  from Cons.IH [OF _ this rest flush_frame_orderly [OF Cons.prems(1) e assms(3) fl Cons.prems(4)]] F x show ?case by simp
qed

lemma orderly_untracked:
  assumes "pool_inv G L s" and "map_of (page_table s) p = None" and "pool_orderly G W s"
  shows "pool_orderly G (insert p W) s"
proof -
  have other: "\<forall>e \<in> set (mfu (replacer s)). snd e \<noteq> p"
    using tracked_table [OF assms(1), where p = p] assms(2) by (auto simp: tracked_def)
  have "sorted_wrt (\<lambda>a b. snd b \<in> insert p W \<longrightarrow> snd a \<in> insert p W) xs"
    if "sorted_wrt (\<lambda>a b. snd b \<in> W \<longrightarrow> snd a \<in> W) xs" "\<forall>e \<in> set xs. snd e \<noteq> p" for xs :: "(frame_id \<times> page_id) list"
    using that by (induction xs) auto
  with other assms(3) show ?thesis by (simp add: orderly_def recent_def)
qed

text \<open>Such a run is a run of the pool: the side condition of a request holds at each step.\<close>

definition section_inv :: "bpm \<Rightarrow> page_guard list \<Rightarrow> page_guard list \<Rightarrow> page_id set \<Rightarrow> bpm \<Rightarrow> bool" where
  "section_inv s0 gs bs W s \<longleftrightarrow> pool_run s0 gs bs s \<and> run_inv gs bs s \<and> finite W
     \<and> pool_orderly (guard_frames gs) W s \<and> (\<forall>g \<in> set gs. g_page_id g \<in> W)"

lemma section_can_fetch:
  assumes "section_inv s0 gs bs W s" and "section_ok W p s"
  shows "can_fetch (guard_frames gs) p s"
proof -
  have inv: "pool_inv (guard_frames gs) (borrow_frames bs) s" and on: "\<forall>g \<in> set gs. guard_on g s" and fin: "finite W"
    and ord: "pool_orderly (guard_frames gs) W s" and sub: "\<forall>g \<in> set gs. g_page_id g \<in> W"
    using assms(1) by (simp_all add: section_inv_def run_inv_def)
  have pinned: "q \<in> W" if "(q, f) \<in> set (page_table s)" "unat f \<in># guard_frames gs" for q f
  proof -
    from that(2) obtain g where g: "g \<in> set gs" "g_frame g = unat f" by auto
    then obtain k where k: "map_of (page_table s) (g_page_id g) = Some k" "unat k = unat f" using on by (auto simp: guard_on_def)
    have "map_of (page_table s) q = Some f" using inv that(1) by (simp add: pool_inv_def table_ok_def)
    then have "q = g_page_id g" using pool_inv_table_inj [OF inv _ k(1), of q] unsigned_word_eqI [OF k(2)] by simp
    with sub g(1) show ?thesis by simp
  qed
  show ?thesis
  proof (cases "map_of (page_table s) p \<noteq> None \<or> free_frames s \<noteq> []")
    case True
    then show ?thesis by (auto simp: can_fetch_def)
  next
    case False
    then have full: "free_frames s = []" and room: "card W + max 1 (unat (mru_target_size (replacer s))) \<le> num_frames s"
      using assms(2) by (auto simp: section_ok_def)
    have "\<forall>(q, f) \<in> set (page_table s). unat f \<in># guard_frames gs \<longrightarrow> q \<in> W" using pinned by blast
    from victim_unpinned [OF inv full ord this fin room] show ?thesis by (auto simp: can_fetch_def)
  qed
qed

lemma section_take:
  assumes I: "section_inv s0 gs bs W s" and view: "pool_view s p \<noteq> None" and ok: "section_ok W p s" and small: "length gs + 1 < 2 ^ 64"
    and run: "check_write_page p s = Inr (g, s')"
  shows "section_inv s0 (g # gs) bs (insert p W) s'"
proof -
  have P: "pool_run s0 gs bs s" "run_inv gs bs s" "finite W" "pool_orderly (guard_frames gs) W s" "\<forall>g \<in> set gs. g_page_id g \<in> W"
    using I by (simp_all add: section_inv_def)
  have inv: "pool_inv (guard_frames gs) (borrow_frames bs) s" using P(2) by (simp add: run_inv_def)
  note cf = section_can_fetch [OF I ok]
  from view obtain b where b: "pool_view s p = Some b" by blast
  have sz: "size (guard_frames gs) + 1 < 2 ^ 64" using small by simp
  have "g_page_id g = p" using check_write_inv [OF inv b sz cf run] by (metis page_guard.select_convs(1))
  with check_write_orderly [OF inv b sz cf run P(4)] run_take [OF P(2) view cf small run] pool_run.take_write [OF P(1) view cf small run] P(3,5)
  show ?thesis by (auto simp: section_inv_def)
qed

lemma section_same:
  assumes "section_inv s0 gs bs W s" and "replacer s' = replacer s" and "pool_run s0 gs bs' s'" and "run_inv gs bs' s'"
  shows "section_inv s0 gs bs' W s'"
  using assms by (simp add: section_inv_def)

lemma section_drop:
  assumes I: "section_inv s0 gs bs W s" and g: "g \<in> set gs" and nb: "g_frame g \<notin> borrow_frames bs" and run: "write_guard_drop g s = Inr s'"
  shows "section_inv s0 (remove1 g gs) bs W s'"
proof -
  have P: "pool_run s0 gs bs s" "run_inv gs bs s" "finite W" "pool_orderly (guard_frames gs) W s" "\<forall>g \<in> set gs. g_page_id g \<in> W"
    using I by (simp_all add: section_inv_def)
  have inv: "pool_inv (guard_frames gs) (borrow_frames bs) s" and on: "guard_on g s" using P(2) g by (simp_all add: run_inv_def)
  have "guard_frames (remove1 g gs) = guard_frames gs - {#g_frame g#}" using g by (simp add: image_mset_Diff)
  moreover have "\<forall>h \<in> set (remove1 g gs). g_page_id h \<in> W" using P(5) notin_set_remove1 by metis
  ultimately show ?thesis using guard_drop_orderly [OF inv on _ run P(4)] g run_drop [OF P(2) g nb run] pool_run.drop_guard [OF P(1) g nb run] P(3)
    by (simp add: section_inv_def)
qed

lemma section_flush:
  assumes I: "section_inv s0 gs bs W s" and small: "length gs + 1 < 2 ^ 64" and run: "pool_run s0 gs bs s'" "run_inv gs bs s'"
    and es: "set es \<subseteq> set (page_table s)" and fl: "flush_each es s = Inr s'"
  shows "section_inv s0 gs bs (fst ` set es \<union> W) s'"
proof -
  have "pool_inv (guard_frames gs) (borrow_frames bs) s" using I by (simp add: section_inv_def run_inv_def)
  from flush_each_orderly [OF this es _ fl, of W] small I run show ?thesis by (auto simp: section_inv_def)
qed

lemma section_run_inv:
  assumes "section_run s0 gs bs W s" and idle: "pool_idle s0"
  shows "section_inv s0 gs bs W s"
  using assms(1)
proof induction
  case start
  have "orderly {#} {} (replacer s0)" using recent_none by (simp add: orderly_def)
  then show ?case using pool_run.start pool_run_inv [OF pool_run.start idle] by (simp add: section_inv_def)
next
  case (alloc gs bs W s p s')
  then have P: "pool_run s0 gs bs s" "pool_inv (guard_frames gs) (borrow_frames bs) s" by (simp_all add: section_inv_def run_inv_def)
  have run: "pool_run s0 gs bs s'" by (rule pool_run.alloc [OF P(1) alloc.hyps(2,3)])
  have "replacer s' = replacer s" using new_page_inv [OF P(2) alloc.hyps(2)] alloc.hyps(3) by auto
  from section_same [OF alloc.IH this run pool_run_inv [OF run idle]] show ?case .
next
  case (take_write gs bs W s p g s')
  then show ?case using section_take by blast
next
  case (take_read gs bs W s p g s')
  then show ?case using section_take by (simp add: check_read_page_eq)
next
  case (borrow gs bs W s g s')
  then have P: "pool_run s0 gs bs s" "pool_inv (guard_frames gs) (borrow_frames bs) s" "guard_on g s" "g_frame g \<in># guard_frames gs"
    by (simp_all add: section_inv_def run_inv_def)
  have run: "pool_run s0 gs (g # bs) s'" by (rule pool_run.borrow [OF P(1) borrow.hyps(2,3)])
  from section_same [OF borrow.IH borrow_inv(4) [OF P(2,3,4) borrow.hyps(3)] run pool_run_inv [OF run idle]] show ?case .
next
  case (fill gs bs W s g b)
  have run: "pool_run s0 gs bs (guard_set_bytes g b s)"
    by (rule pool_run.fill [OF _ fill.hyps(2,3)]) (use fill.IH in \<open>simp add: section_inv_def\<close>)
  have "replacer (guard_set_bytes g b s) = replacer s" by (simp add: guard_set_bytes_def)
  from section_same [OF fill.IH this run pool_run_inv [OF run idle]] show ?case .
next
  case (release gs bs W s g)
  have run: "pool_run s0 gs (removeAll g bs) (guard_release_mut g s)"
    by (rule pool_run.release [OF _ release.hyps(2)]) (use release.IH in \<open>simp add: section_inv_def\<close>)
  have "replacer (guard_release_mut g s) = replacer s" by (simp add: guard_release_mut_def)
  from section_same [OF release.IH this run pool_run_inv [OF run idle]] show ?case .
next
  case (drop_guard gs bs W s g s')
  then show ?case using section_drop by blast
next
  case (leave bs W s)
  then show ?case using orderly_fewer by (auto simp: section_inv_def)
next
  case (flush gs bs W s p r s')
  have inv: "pool_inv (guard_frames gs) (borrow_frames bs) s" using flush.IH by (simp add: section_inv_def run_inv_def)
  have run: "pool_run s0 gs bs s'" by (rule pool_run.flush [OF _ flush.hyps(2,3)]) (use flush.IH in \<open>simp add: section_inv_def\<close>)
  show ?case
  proof (cases "map_of (page_table s) p")
    case None
    then have "s' = s" using flush.hyps(3) by (simp add: flush_page_frame)
    with flush.IH orderly_untracked [OF inv None, of W] show ?thesis by (simp add: section_inv_def)
  next
    case (Some f)
    with flush.hyps(3) have "flush_frame p f s = Inr (r, s')" by (simp add: flush_page_frame)
    then have "flush_each [(p, f)] s = Inr s'" by (simp add: flush_each_frame del: flush_each.simps(2))
    from section_flush [OF flush.IH flush.hyps(2) run pool_run_inv [OF run idle] _ this] map_of_SomeD [OF Some] show ?thesis by simp
  qed
next
  case (flush_all gs bs W s r s')
  have run: "pool_run s0 gs bs s'" by (rule pool_run.flush_all [OF _ flush_all.hyps(2,3)]) (use flush_all.IH in \<open>simp add: section_inv_def\<close>)
  show ?case
  proof (cases "page_table s = []")
    case True
    with flush_all.hyps(3) flush_all.IH show ?thesis by (simp add: flush_all_pages_def)
  next
    case False
    with flush_all.hyps(3) have "flush_each (page_table s) s = Inr s'" by (auto simp: flush_all_pages_def seq_Inr_iff)
    from section_flush [OF flush_all.IH flush_all.hyps(2) run pool_run_inv [OF run idle] subset_refl this] show ?thesis .
  qed
qed

section \<open>A run with a guard and a full pool\<close>

text \<open>A request for a page the policy has not just evicted from its MFU list is granted.\<close>

lemma request_granted:
  assumes inv: "pool_inv G L s" and b: "pool_view s p = Some b" and cf: "can_fetch G p s" and ghost: "p \<notin> set (mfu_ghost (replacer s))"
  obtains g s' where "check_write_page p s = Inr (g, s')"
proof (cases "check_write_page p s")
  case (Inr x)
  with that show ?thesis by (cases x) simp
next
  case (Inl e)
  show ?thesis
  proof (cases "map_of (page_table s) p \<noteq> None \<or> free_frames s \<noteq> []")
    case True
    with check_write_hit_or_free_panic [OF inv b True Inl] ghost show ?thesis by simp
  next
    case False
    then have miss: "map_of (page_table s) p = None" and full: "free_frames s = []" by simp_all
    then obtain v where v: "favoured_victim (replacer s) = Some v" "unat (fst v) \<notin># G"
      using cf by (auto simp: can_fetch_def split: option.splits)
    obtain q f r s1 where E: "evict (replacer s) = Inr (Some f, r)" "replacer s1 = r" "evict_frame s = Inr s1" "pool_inv G L s1"
      "pool_view s1 = pool_view s" "free_frames s1 = free_frames s @ [f]" "page_table s1 = AList.delete q (page_table s)"
      by (rule evict_frame_inv [OF inv v]) blast
    have miss1: "map_of (page_table s1) p = None" and free1: "free_frames s1 \<noteq> []" using miss E(6,7) by (simp_all add: delete_conv)
    have "check_write_page p s1 = Inl e" using request_evicts [OF miss full E(3) miss1 free1] Inl by simp
    from check_write_hit_or_free_panic [OF E(4) _ _ this] b E(5) free1 have "p \<in> set (mfu_ghost r)" by (simp add: E(2))
    then have "(f, p) \<in> tracked (replacer s)"
      using evict_which [OF E(1)] evict_from_ghost [of "replacer s" f r] ghost by (fastforce simp: tracked_def)
    with tracked_table [OF inv] miss show ?thesis by simp
  qed
qed

text \<open>Until a page is evicted the policy remembers none, and its target stays zero.\<close>

definition no_ghosts :: "bpm \<Rightarrow> bool" where
  "no_ghosts s \<longleftrightarrow> mru_ghost (replacer s) = [] \<and> mfu_ghost (replacer s) = [] \<and> mru_target_size (replacer s) = 0"

lemma access_no_ghosts:
  assumes "record_access f p r = Inr r'" and "mru_ghost r = [] \<and> mfu_ghost r = [] \<and> mru_target_size r = 0"
  shows "mru_ghost r' = [] \<and> mfu_ghost r' = [] \<and> mru_target_size r' = 0"
  using assms by (auto simp: record_access_def Let_def split: if_splits)

lemma no_ghosts_access: "no_ghosts s \<Longrightarrow> record_access f p (replacer s) = Inr (replacer s') \<Longrightarrow> no_ghosts s'"
  unfolding no_ghosts_def by (rule access_no_ghosts)

lemma no_ghosts_take:
  assumes inv: "pool_inv G L s" and b: "pool_view s p = Some b" and small: "size G + 1 < 2 ^ 64" and res: "resident s"
    and run: "check_write_page p s = Inr (g, s')" and ng: "no_ghosts s"
  shows "no_ghosts s'"
proof (cases "map_of (page_table s) p")
  case (Some f)
  then have "write_guard_new p (unat f) s = Inr (g, s')" using run pool_inv_entry(2) [OF inv Some] by (simp add: check_write_page_def)
  from no_ghosts_access [OF ng guard_new_access [OF inv Some this]] show ?thesis .
next
  case None
  with resident_has_frame [OF inv res b] obtain fs f where free: "free_frames s = fs @ [f]" by (metis rev_exhaust)
  with run None have "seq (load_page p f (s\<lparr>free_frames := fs\<rparr>)) (write_guard_new p (unat f)) = Inr (g, s')"
    by (simp add: check_write_page_def pop_free_snoc)
  from no_ghosts_access [OF ng fetch_free_inv(9) [OF inv free None b small this]] show ?thesis .
qed

lemma no_ghosts_drop: "write_guard_drop g s = Inr s' \<Longrightarrow> no_ghosts s \<Longrightarrow> no_ghosts s'"
  by (auto simp: write_guard_drop_def Let_def seq_Inr_iff set_evictable_def no_ghosts_def split: if_splits)

lemma section_visit:
  assumes w: "working {#} {} (Suc (Suc n)) s" and b: "pool_view s p = Some b" and run: "section_run s0 [] [] {} s" and ng: "no_ghosts s"
  obtains s' f where "section_run s0 [] [] {} s'" and "working {#} {} n s'" and "no_ghosts s'" and "grows s s'"
    and "pool_view s' = pool_view s" and "next_page_id s' = next_page_id s" and "map_of (page_table s') p = Some f"
proof -
  have inv: "pool_inv {#} {} s" and res: "resident s" using w by (simp_all add: working_def)
  obtain g s1 where T: "check_write_page p s = Inr (g, s1)" "working {#g_frame g#} {} (Suc n) s1" "guard_on g s1" "g_page_id g = p"
    "pool_view s1 = pool_view s" "grows s s1" "next_page_id s1 = next_page_id s" by (rule take_guard [OF w b])
  have "section_ok {} p s" using resident_has_frame [OF inv res b] by (auto simp: section_ok_def)
  then have r1: "section_run s0 [g] [] {p} s1" using section_run.take_write [OF run _ _ _ T(1)] b by simp
  have ng1: "no_ghosts s1" by (rule no_ghosts_take [OF inv b _ res T(1) ng]) simp
  obtain s2 where D: "write_guard_drop g s1 = Inr s2" "working ({#g_frame g#} - {#g_frame g#}) {} n s2" "pool_view s2 = pool_view s1" "grows s1 s2"
    "next_page_id s2 = next_page_id s1" by (rule PoolGuards.drop_guard [OF T(2,3)]) simp_all
  have "section_run s0 [] [] {p} s2" using section_run.drop_guard [OF r1 _ _ D(1)] by simp
  then have r2: "section_run s0 [] [] {} s2" by (rule section_run.leave)
  obtain f where "map_of (page_table s2) p = Some f" using guard_on_grows [OF T(3) D(4)] T(4) by (auto simp: guard_on_def)
  with that [OF r2 _ no_ghosts_drop [OF D(1) ng1] grows_trans [OF T(6) D(4)]] D T show ?thesis by simp
qed

text \<open>Two frames and three pages: pages 0 and 1 have the frames, and a guard holds page 0.\<close>

lemma full_pool_run:
  obtains d g s where "disk_ok d" and "disk_view d = Map.empty" and "section_run (bpm_new 2 d) [g] [] {0} s" and "g_page_id g = 0"
    and "pool_view s 2 = Some (replicate PAGE_SIZE 0)" and "section_ok {0} 2 s" and "free_frames s = []" and "map_of (page_table s) 2 = None"
    and "mfu_ghost (replacer s) = []"
proof -
  have "faults \<lparr>fbytes = [], fpos = 0, faults = []\<rparr> = []" by simp
  from dm_new_ok [OF this] obtain d where d: "disk_ok d" "disk_view d = Map.empty" by blast
  let ?s0 = "bpm_new 2 d" and ?z = "replicate PAGE_SIZE 0 :: u8 list"
  have n: "next_page_id ?s0 = 0" "num_frames ?s0 = 2" by (simp_all add: bpm_new_def)
  have w0: "working {#} {} 100 ?s0" by (rule working_less [OF working_new_pool(1) [OF d]]) simp_all
  have v0: "pool_view ?s0 = Map.empty" using working_new_pool(2) [OF d, of 2] by simp
  obtain s1 where s1: "new_page ?s0 = Inr (next_page_id ?s0, s1)" "working {#} {} 100 s1"
    "pool_view s1 = (pool_view ?s0)(next_page_id ?s0 \<mapsto> ?z)" "grows ?s0 s1" "next_page_id s1 = next_page_id ?s0 + 1"
    by (rule fresh_page [OF w0]) (simp_all add: n)
  have n1: "next_page_id s1 = 1" "num_frames s1 = 2" using s1(4,5) n by (simp_all add: grows_def)
  have r1: "section_run ?s0 [] [] {} s1" by (rule section_run.alloc [OF section_run.start _ s1(1)]) (simp add: n)
  obtain s2 where s2: "new_page s1 = Inr (next_page_id s1, s2)" "working {#} {} 100 s2"
    "pool_view s2 = (pool_view s1)(next_page_id s1 \<mapsto> ?z)" "grows s1 s2" "next_page_id s2 = next_page_id s1 + 1"
    by (rule fresh_page [OF s1(2)]) (simp_all add: n1)
  have r2: "section_run ?s0 [] [] {} s2" by (rule section_run.alloc [OF r1 _ s2(1)]) (simp add: n1)
  have "replacer s2 = replacer s1" "replacer s1 = replacer ?s0"
    using new_page_inv [OF working_inv [OF s1(2)]] new_page_inv [OF working_inv [OF w0]] s1(1) s2(1) n n1 by auto
  then have ng2: "no_ghosts s2" by (simp add: no_ghosts_def bpm_new_def arc_new_def)
  have v2: "pool_view s2 0 = Some ?z" "pool_view s2 1 = Some ?z" using s1(3) s2(3) n n1 by simp_all
  have w2: "working {#} {} (Suc (Suc 98)) s2" using s2(2) by simp
  obtain s3 f0 where s3: "section_run ?s0 [] [] {} s3" "working {#} {} 98 s3" "no_ghosts s3" "grows s2 s3" "pool_view s3 = pool_view s2"
    "next_page_id s3 = next_page_id s2" "map_of (page_table s3) 0 = Some f0" by (rule section_visit [OF w2 v2(1) r2 ng2])
  have w3: "working {#} {} (Suc (Suc 96)) s3" using s3(2) by simp
  have v3: "pool_view s3 1 = Some ?z" "pool_view s3 0 = Some ?z" using v2 s3(5) by simp_all
  obtain s4 f1 where s4: "section_run ?s0 [] [] {} s4" "working {#} {} 96 s4" "no_ghosts s4" "grows s3 s4" "pool_view s4 = pool_view s3"
    "next_page_id s4 = next_page_id s3" "map_of (page_table s4) 1 = Some f1" by (rule section_visit [OF w3 v3(1) s3(1,3)])
  have w4: "working {#} {} (Suc 95) s4" using s4(2) by simp
  have v4: "pool_view s4 0 = Some ?z" using v3 s4(5) by simp
  obtain g s5 where s5: "check_write_page 0 s4 = Inr (g, s5)" "working {#g_frame g#} {} 95 s5" "guard_on g s5" "g_page_id g = 0"
    "pool_view s5 = pool_view s4" "grows s4 s5" "next_page_id s5 = next_page_id s4" by (rule take_guard [OF w4 v4])
  have inv4: "pool_inv {#} {} s4" and res4: "resident s4" using w4 by (simp_all add: working_def)
  have "section_ok {} 0 s4" using resident_has_frame [OF inv4 res4 v4] by (auto simp: section_ok_def)
  then have r5: "section_run ?s0 [g] [] {0} s5" using section_run.take_write [OF s4(1) _ _ _ s5(1)] v4 by simp
  have ng5: "no_ghosts s5" by (rule no_ghosts_take [OF inv4 v4 _ res4 s5(1) s4(3)]) simp
  have inv5: "pool_inv {#g_frame g#} {} s5" using s5(2) by (rule working_inv)
  have n5: "next_page_id s5 = 2" "num_frames s5 = 2"
    using s5(6,7) s4(4,6) s3(4,6) s2(4,5) n1 by (simp_all add: grows_def)
  have "unat (next_page_id s5) + 1 < 2 ^ 32" by (simp add: n5)
  from new_page_inv [OF inv5 this] obtain s6 where s6: "new_page s5 = Inr (2, s6)" "pool_view s6 = (pool_view s5)(2 \<mapsto> ?z)"
    "page_table s6 = page_table s5" "free_frames s6 = free_frames s5" "num_frames s6 = num_frames s5" "replacer s6 = replacer s5"
    by (auto simp: n5)
  have r6: "section_run ?s0 [g] [] {0} s6" by (rule section_run.alloc [OF r5 _ s6(1)]) (simp add: n5)
  have "map_of (page_table s5) 0 = Some f0" "map_of (page_table s5) 1 = Some f1"
    using grows_entry [OF s5(6)] grows_entry [OF s4(4) s3(7)] s4(7) by blast+
  then have "{0, 1} \<subseteq> set (map fst (page_table s5))" by (force dest: map_of_SomeD)
  then have "card {0, 1 :: page_id} \<le> length (page_table s5)" using card_mono [of "set (map fst (page_table s5))" "{0, 1}"] card_length [of "map fst (page_table s5)"] by simp
  then have "2 \<le> length (page_table s5)" by simp
  moreover have "length (page_table s5) + length (free_frames s5) = 2" using table_length [OF inv5] n5 by simp
  ultimately have "length (page_table s5) = 2 \<and> length (free_frames s5) = 0" by linarith
  then have len: "free_frames s5 = []" "length (page_table s5) = 2" by simp_all
  have "card (set (map fst (page_table s5))) \<le> card {0, 1 :: page_id}" using card_length [of "map fst (page_table s5)"] len by simp
  then have "set (map fst (page_table s5)) = {0, 1}" using card_seteq [OF _ \<open>{0, 1} \<subseteq> _\<close>] by simp
  then have miss: "map_of (page_table s5) 2 = None" by (simp add: map_of_eq_None_iff)
  have "section_ok {0} 2 s6" using ng5 s6(5,6) n5 by (simp add: section_ok_def no_ghosts_def)
  with that [OF d r6 s5(4)] s6(2-4,6) len(1) miss ng5 show ?thesis by (simp add: no_ghosts_def)
qed

text \<open>The request for page 2 evicts page 1, and the guard on page 0 stays.\<close>

lemma evicting_run:
  obtains d g s g' s' where "disk_ok d" and "disk_view d = Map.empty" and "section_run (bpm_new 2 d) [g] [] {0} s" and "g_page_id g = 0"
    and "pool_view s 2 = Some (replicate PAGE_SIZE 0)" and "section_ok {0} 2 s" and "free_frames s = []" and "map_of (page_table s) 2 = None"
    and "check_write_page 2 s = Inr (g', s')" and "section_run (bpm_new 2 d) [g', g] [] {2, 0} s'" and "g_page_id g' = 2"
proof -
  obtain d g s where R: "disk_ok d" "disk_view d = Map.empty" "section_run (bpm_new 2 d) [g] [] {0} s" "g_page_id g = 0"
    "pool_view s 2 = Some (replicate PAGE_SIZE 0)" "section_ok {0} 2 s" "free_frames s = []" "map_of (page_table s) 2 = None"
    "mfu_ghost (replacer s) = []" by (rule full_pool_run)
  have n: "(2 :: nat) < 2 ^ 30" by simp
  note I = section_run_inv [OF R(3) bpm_new_idle(1) [OF R(1,2) n]]
  have inv: "pool_inv (guard_frames [g]) (borrow_frames []) s" using I by (simp add: section_inv_def run_inv_def)
  note cf = section_can_fetch [OF I R(6)]
  obtain g' s' where ck: "check_write_page 2 s = Inr (g', s')" by (rule request_granted [OF inv R(5) cf]) (simp add: R(9))
  have "section_run (bpm_new 2 d) [g', g] [] {2, 0} s'" by (rule section_run.take_write [OF R(3) _ R(6) _ ck]) (simp_all add: R(5))
  moreover have "g_page_id g' = 2" by (rule check_write_inv [OF inv R(5) _ cf ck]) simp_all
  ultimately show ?thesis using that [OF R(1-8) ck] by blast
qed

section \<open>Properties\<close>

text \<open>C19: Guards in short critical sections. Along any such run from a new pool, with any number of guards and borrows
  alive and any evictions on the way, each guard shows the bytes of its page; two guards share a frame exactly if
  they are of the same page; the frame's pin count is the number of its guards, and its lock is held exactly
  while a borrow of it is alive. The run never deletes a page, asks only for pages it was given, and
  while it holds guards lets the pool evict only as long as the pages it has touched, with the target of the MRU list,
  do not exceed the frames; nothing is assumed of the victim.\<close>

theorem guards_stay_on_pages:
  assumes "disk_ok d" and "disk_view d = Map.empty" and "n < 2 ^ 30" and "section_run (bpm_new n d) gs bs W s" and "g \<in> set gs"
  shows "pool_view s (g_page_id g) = Some (guard_bytes g s)
    \<and> (\<forall>h \<in> set gs. g_frame h = g_frame g \<longleftrightarrow> g_page_id h = g_page_id g)
    \<and> unat (pin_count (frames s ! g_frame g)) = length (filter (\<lambda>h. g_page_id h = g_page_id g) gs)
    \<and> fh_lock (frames s ! g_frame g) = (if \<exists>h \<in> set bs. g_page_id h = g_page_id g then Writer else Unlocked)"
proof -
  have "section_inv (bpm_new n d) gs bs W s" by (rule section_run_inv [OF assms(4) bpm_new_idle(1) [OF assms(1-3)]])
  then have "pool_run (bpm_new n d) gs bs s" by (simp add: section_inv_def)
  from run_guards_on_pages [OF assms(1-3) this assms(5)] show ?thesis .
qed

theorem guards_stay_on_pages_witness:
  "\<exists>d g s g' s'. section_run (bpm_new 2 d) [g] [] {0} s \<and> free_frames s = [] \<and> map_of (page_table s) 2 = None
    \<and> check_write_page 2 s = Inr (g', s') \<and> section_run (bpm_new 2 d) [g', g] [] {2, 0} s'
    \<and> g_page_id g = 0 \<and> g_page_id g' = 2 \<and> pool_view s' 0 = Some (guard_bytes g s') \<and> g_frame g' \<noteq> g_frame g
    \<and> unat (pin_count (frames s' ! g_frame g)) = 1 \<and> fh_lock (frames s' ! g_frame g) = Unlocked"
proof -
  obtain d g s g' s' where R: "disk_ok d" "disk_view d = Map.empty" "section_run (bpm_new 2 d) [g] [] {0} s" "g_page_id g = 0"
    "free_frames s = []" "map_of (page_table s) 2 = None" "check_write_page 2 s = Inr (g', s')"
    "section_run (bpm_new 2 d) [g', g] [] {2, 0} s'" "g_page_id g' = 2" by (rule evicting_run)
  have "(2 :: nat) < 2 ^ 30" "g \<in> set [g', g]" by simp_all
  from guards_stay_on_pages [OF R(1,2) this(1) R(8) this(2)] R
  have "pool_view s' 0 = Some (guard_bytes g s')" "g_frame g' \<noteq> g_frame g"
    "unat (pin_count (frames s' ! g_frame g)) = 1" "fh_lock (frames s' ! g_frame g) = Unlocked" by simp_all
  with R show ?thesis by blast
qed

text \<open>C20: Short critical sections. A client that drops its guards before it has touched many pages, and that never deletes a
  page, never loses a guard: from any state such a client reaches from a new pool, a request for any page, even
  one that evicts, either panics on the policy's arithmetic or returns a guard with the bytes of that page, and then every live
  guard has the bytes of its own page before and after. It is enough that the pages touched since the
  client last held no guard, with the target of the policy's MRU list, do not exceed the frames.\<close>

theorem sections_keep_guards:
  assumes "disk_ok d" and "disk_view d = Map.empty" and "n < 2 ^ 30" and "section_run (bpm_new n d) gs bs W s"
    and "pool_view s p = Some b" and "section_ok W p s" and "length gs + 1 < 2 ^ 64"
  shows "case check_write_page p s of
      Inl e \<Rightarrow> e = ArithOverflow
    | Inr (g, s') \<Rightarrow> g_page_id g = p \<and> guard_bytes g s' = b \<and> pool_view s' = pool_view s
        \<and> (\<forall>h \<in> set gs. pool_view s (g_page_id h) = Some (guard_bytes h s) \<and> guard_bytes h s' = guard_bytes h s)"
proof -
  have I: "section_inv (bpm_new n d) gs bs W s" by (rule section_run_inv [OF assms(4) bpm_new_idle(1) [OF assms(1-3)]])
  then have R: "run_inv gs bs s" by (simp add: section_inv_def)
  note cf = section_can_fetch [OF I assms(6)]
  have inv: "pool_inv (guard_frames gs) (borrow_frames bs) s" using R by (simp add: run_inv_def)
  have bytes: "pool_view t (g_page_id h) = Some (guard_bytes h t)" if "pool_inv G L t" "guard_on h t" for G L h and t :: bpm
    using that guard_view by (fastforce simp: guard_on_def guard_bytes_def)
  show ?thesis
  proof (cases "check_write_page p s")
    case (Inl e)
    with check_write_panic [OF inv assms(5) cf] show ?thesis by simp
  next
    case (Inr x)
    obtain g s' where x: "x = (g, s')" by fastforce
    have run: "check_write_page p s = Inr (g, s')" using Inr x by simp
    have sz: "size (guard_frames gs) + 1 < 2 ^ 64" using assms(7) by simp
    obtain view: "pool_view s' = pool_view s" and g: "g_page_id g = p" by (rule check_write_inv [OF inv assms(5) sz cf run]) simp
    have "run_inv (g # gs) bs s'" using run_take [OF R _ cf assms(7) run] assms(5) by simp
    then have "pool_inv (guard_frames (g # gs)) (borrow_frames bs) s'" "\<forall>h \<in> set (g # gs). guard_on h s'" by (simp_all add: run_inv_def)
    then have after: "\<forall>h \<in> set (g # gs). pool_view s (g_page_id h) = Some (guard_bytes h s')" using bytes view by metis
    have before: "\<forall>h \<in> set gs. pool_view s (g_page_id h) = Some (guard_bytes h s)" using R bytes [OF inv] by (simp add: run_inv_def)
    have "guard_bytes g s' = b" using after g assms(5) by simp
    moreover have "\<forall>h \<in> set gs. guard_bytes h s' = guard_bytes h s" using after before by simp
    ultimately show ?thesis using run g view before by simp
  qed
qed

theorem sections_keep_guards_witness:
  "\<exists>d g s g' s'. section_run (bpm_new 2 d) [g] [] {0} s \<and> free_frames s = [] \<and> map_of (page_table s) 2 = None
    \<and> check_write_page 2 s = Inr (g', s') \<and> guard_bytes g' s' = replicate PAGE_SIZE 0 \<and> guard_bytes g s' = guard_bytes g s"
proof -
  obtain d g s g' s' where R: "disk_ok d" "disk_view d = Map.empty" "section_run (bpm_new 2 d) [g] [] {0} s" "g_page_id g = 0"
    "pool_view s 2 = Some (replicate PAGE_SIZE 0)" "section_ok {0} 2 s" "free_frames s = []" "map_of (page_table s) 2 = None"
    "check_write_page 2 s = Inr (g', s')" by (rule evicting_run)
  have "(2 :: nat) < 2 ^ 30" "length [g] + 1 < 2 ^ 64" by simp_all
  from sections_keep_guards [OF R(1,2) this(1) R(3,5,6) this(2)] R(9)
  have "guard_bytes g' s' = replicate PAGE_SIZE 0" "guard_bytes g s' = guard_bytes g s" by simp_all
  with R(3,7-9) show ?thesis by blast
qed

end
