(* ===== verification/PoolSteps.thy ===== *)
theory PoolSteps
  imports PoolClient
begin

text \<open>
  Everything a client can do to the pool, without a condition: any page id may be asked for, whatever the policy then
  evicts, pages are deleted at any time, and the disk under the pool may be in any state and fail. What
  survives is the discipline of the frames.
\<close>

section \<open>The steps\<close>

text \<open>\<open>gs\<close> are the live guards. The relation allows more than Rust does: a guard may be borrowed, written, released and
  dropped in any order. Only the bytes written have the length of the slice the borrow gives. A call that panics or
  blocks ends the run.\<close>

inductive pool_any :: "bpm \<Rightarrow> page_guard list \<Rightarrow> bpm \<Rightarrow> bool" for s0 where
  start: "pool_any s0 [] s0"
| alloc: "pool_any s0 gs s \<Longrightarrow> new_page s = Inr (p, s') \<Longrightarrow> pool_any s0 gs s'"
| delete: "pool_any s0 gs s \<Longrightarrow> bpm_delete_page p s = Inr s' \<Longrightarrow> pool_any s0 gs s'"
| take_write: "pool_any s0 gs s \<Longrightarrow> check_write_page p s = Inr (g, s') \<Longrightarrow> pool_any s0 (g # gs) s'"
| take_read: "pool_any s0 gs s \<Longrightarrow> check_read_page p s = Inr (g, s') \<Longrightarrow> pool_any s0 (g # gs) s'"
| flush: "pool_any s0 gs s \<Longrightarrow> flush_page p s = Inr (r, s') \<Longrightarrow> pool_any s0 gs s'"
| flush_all: "pool_any s0 gs s \<Longrightarrow> flush_all_pages s = Inr (r, s') \<Longrightarrow> pool_any s0 gs s'"
| borrow_mut: "pool_any s0 gs s \<Longrightarrow> g \<in> set gs \<Longrightarrow> guard_borrow_mut g s = Inr s' \<Longrightarrow> pool_any s0 gs s'"
| borrow: "pool_any s0 gs s \<Longrightarrow> g \<in> set gs \<Longrightarrow> guard_borrow g s = Inr s' \<Longrightarrow> pool_any s0 gs s'"
| fill: "pool_any s0 gs s \<Longrightarrow> g \<in> set gs \<Longrightarrow> length b = PAGE_SIZE \<Longrightarrow> pool_any s0 gs (guard_set_bytes g b s)"
| release_mut: "pool_any s0 gs s \<Longrightarrow> g \<in> set gs \<Longrightarrow> pool_any s0 gs (guard_release_mut g s)"
| release: "pool_any s0 gs s \<Longrightarrow> g \<in> set gs \<Longrightarrow> pool_any s0 gs (guard_release g s)"
| guard_flush: "pool_any s0 gs s \<Longrightarrow> g \<in> set gs \<Longrightarrow> write_guard_flush g s = Inr (r, s') \<Longrightarrow> pool_any s0 gs s'"
| drop_guard: "pool_any s0 gs s \<Longrightarrow> g \<in> set gs \<Longrightarrow> write_guard_drop g s = Inr s' \<Longrightarrow> pool_any s0 (remove1 g gs) s'"

section \<open>Steps that leave the table alone\<close>

definition whole_frame :: "frame_header \<Rightarrow> frame_header \<Rightarrow> bool" where
  "whole_frame fr fr' \<longleftrightarrow> fh_id fr' = fh_id fr \<and> (length (fh_data fr) = PAGE_SIZE \<longrightarrow> length (fh_data fr') = PAGE_SIZE)"

lemma whole_frame_refl [simp]: "whole_frame fr fr"
  by (simp add: whole_frame_def)

definition quiet :: "bpm \<Rightarrow> bpm \<Rightarrow> bool" where
  "quiet s s' \<longleftrightarrow> page_table s' = page_table s \<and> free_frames s' = free_frames s \<and> num_frames s' = num_frames s
     \<and> (frames_ok s \<longrightarrow> frames_ok s')"

lemma quiet_refl [simp]: "quiet s s"
  by (simp add: quiet_def)

lemma quiet_trans: "quiet s t \<Longrightarrow> quiet t u \<Longrightarrow> quiet s u"
  by (simp add: quiet_def)

lemma frames_ok_update:
  assumes "frames_ok s" and "frames s' = (frames s)[i := fr]" and "num_frames s' = num_frames s" and "whole_frame (frames s ! i) fr"
  shows "frames_ok s'"
proof -
  have "fh_id (frames s' ! j) = of_nat j \<and> length (fh_data (frames s' ! j)) = PAGE_SIZE" if "j < num_frames s" for j
    using that assms by (cases "j = i") (simp_all add: frames_ok_def whole_frame_def)
  then show ?thesis using assms(1-3) by (simp add: frames_ok_def)
qed

lemma quiet_frame:
  assumes "s' = s\<lparr>frames := (frames s)[i := fr], replacer := r, scheduler := sch\<rparr>" and "whole_frame (frames s ! i) fr"
  shows "quiet s s'"
  using frames_ok_update [of s s' i fr] assms by (simp add: quiet_def)

lemma quiet_upd: "(\<And>fr. whole_frame fr (h fr)) \<Longrightarrow> quiet s (upd_frame i h s)"
  by (rule quiet_frame [where i = i and fr = "h (frames s ! i)" and r = "replacer s" and sch = "scheduler s"]) (simp_all add: upd_frame_def)

lemma quiet_replacer [simp]: "quiet s t \<Longrightarrow> quiet s (t\<lparr>replacer := r\<rparr>)"
  and quiet_scheduler [simp]: "quiet s t \<Longrightarrow> quiet s (t\<lparr>scheduler := sch\<rparr>)"
  by (simp_all add: quiet_def frames_ok_def)

lemma whole_pin [simp]: "whole_frame fr (pin fr)" "whole_frame fr (unpin fr)" "whole_frame fr (fr\<lparr>is_dirty := d\<rparr>)"
    "whole_frame fr (unlock_write fr)" "whole_frame fr (unlock_read fr)"
  by (auto simp: whole_frame_def pin_def unpin_def unlock_write_def unlock_read_def split: rwlock.split)

lemma quiet_guard_new:
  assumes "write_guard_new p i s = Inr (g, s')"
  shows "quiet s s'" and "g = \<lparr>g_page_id = p, g_frame = i, g_valid = True\<rparr>"
  using assms by (auto simp: write_guard_new_def Let_def seq_Inr_iff quiet_upd)

lemma quiet_guard_flush: "write_guard_flush g s = Inr (r, s') \<Longrightarrow> quiet s s'"
  by (auto simp: write_guard_flush_def Let_def seq_Inr_iff quiet_upd intro!: quiet_trans [OF _ quiet_upd] split: if_splits)

lemma quiet_guard_drop: "write_guard_drop g s = Inr s' \<Longrightarrow> quiet s s'"
  by (auto simp: write_guard_drop_def Let_def seq_Inr_iff quiet_upd split: if_splits)

lemma quiet_release: "quiet s (guard_release_mut g s)" "quiet s (guard_release g s)"
  by (simp_all add: guard_release_mut_def guard_release_def quiet_upd)

lemma quiet_set_bytes: "length b = PAGE_SIZE \<Longrightarrow> quiet s (guard_set_bytes g b s)"
  unfolding guard_set_bytes_def by (rule quiet_upd) (simp add: whole_frame_def)

text \<open>A lock that is granted changes nothing else; the closure \<open>\<lambda>_. fr\<close> of a borrow holds the frame it locked.\<close>

lemma quiet_borrow: "guard_borrow g s = Inr s' \<Longrightarrow> quiet s s'"
  by (auto simp: guard_borrow_def lock_read_def seq_Inr_iff upd_frame_def whole_frame_def split: rwlock.splits
      intro!: quiet_frame [where i = "g_frame g" and r = "replacer s" and sch = "scheduler s"])

lemma quiet_borrow_mut: "guard_borrow_mut g s = Inr s' \<Longrightarrow> quiet s s'"
proof -
  let ?fr = "frames s ! g_frame g"
  assume run: "guard_borrow_mut g s = Inr s'"
  show ?thesis
  proof (cases "g_frame g < length (frames s)")
    case True
    with run show ?thesis
      by (intro quiet_frame [where i = "g_frame g" and fr = "?fr\<lparr>is_dirty := True, fh_lock := Writer\<rparr>" and r = "replacer s" and sch = "scheduler s"])
         (auto simp: guard_borrow_mut_def Let_def lock_write_def seq_Inr_iff upd_frame_def whole_frame_def split: rwlock.splits)
  next
    case False
    then have "upd_frame (g_frame g) h s = s" for h by (simp add: upd_frame_def list_update_beyond)
    with run show ?thesis by (auto simp: guard_borrow_mut_def Let_def seq_Inr_iff)
  qed
qed

lemma quiet_flush_frame: "flush_frame p f s = Inr (r, s') \<Longrightarrow> quiet s s'"
  by (auto simp: flush_frame_def read_guard_as_write seq_Inr_iff dest!: quiet_guard_new(1) quiet_guard_flush quiet_guard_drop intro: quiet_trans)

lemma quiet_flush_each: "flush_each es s = Inr s' \<Longrightarrow> quiet s s'"
proof (induction es arbitrary: s)
  case (Cons e es)
  obtain p f where e: "e = (p, f)" by fastforce
  from Cons.prems e obtain r s1 where "flush_frame p f s = Inr (r, s1)" and "flush_each es s1 = Inr s'"
    by (auto simp: flush_each_frame seq_Inr_iff simp del: flush_each.simps)
  with Cons.IH quiet_flush_frame quiet_trans show ?case by blast
qed simp

lemma quiet_flush:
  "flush_page p s = Inr (r, s') \<Longrightarrow> quiet s s'"
  "flush_all_pages s = Inr (b, s') \<Longrightarrow> quiet s s'"
  by (auto simp: flush_page_frame flush_all_pages_def seq_Inr_iff quiet_flush_each quiet_flush_frame split: option.splits if_splits)

section \<open>Steps that move a frame\<close>

abbreviation in_order :: "bpm \<Rightarrow> bool" where
  "in_order s \<equiv> frames_ok s \<and> table_ok s"

lemma quiet_order: "quiet s s' \<Longrightarrow> in_order s \<Longrightarrow> in_order s'"
  by (auto simp: quiet_def table_ok_def)

text \<open>A frame goes from the table to the free list, or back, and is the same frame; \<open>e\<close> is its entry.\<close>

lemma table_ok_moved:
  assumes "table_ok s" and "distinct (map fst (page_table s'))" and "num_frames s' = num_frames s"
    and "mset (map snd (page_table s') @ free_frames s') = mset (map snd (page_table s) @ free_frames s)"
  shows "table_ok s'"
  using assms mset_eq_imp_distinct_iff [OF assms(4)] mset_eq_setD [OF assms(4)] unfolding table_ok_def by simp

lemma table_ok_freed:
  assumes "table_ok s" and "(q, f) \<in> set (page_table s)" and "page_table s' = AList.delete q (page_table s)"
    and "free_frames s' = free_frames s @ [f]" and "num_frames s' = num_frames s"
  shows "table_ok s'"
proof (rule table_ok_moved [OF assms(1) _ assms(5)])
  have d: "distinct (map fst (page_table s))" using assms(1) by (simp add: table_ok_def)
  then show "distinct (map fst (page_table s'))" using assms(3) by (simp add: distinct_delete)
  have "map_of (page_table s) q = Some f" using d assms(2) by simp
  with mset_delete [OF d] have "mset (page_table s) = add_mset (q, f) (mset (page_table s'))" by (simp add: assms(3))
  then show "mset (map snd (page_table s') @ free_frames s') = mset (map snd (page_table s) @ free_frames s)"
    by (simp add: assms(4))
qed

lemma frame_reset_whole: "frame_reset fr = Inr fr' \<Longrightarrow> whole_frame fr fr'"
  by (auto simp: frame_reset_def lock_write_def unlock_write_def seq_Inr_iff whole_frame_def split: rwlock.splits)

lemma evict_order:
  assumes ord: "in_order s" and run: "evict_frame s = Inr s'"
  shows "in_order s'" and "num_frames s' = num_frames s"
proof -
  from run obtain r f q h fr' sch where e: "find (\<lambda>e. snd e = f) (page_table s) = Some (q, h)"
    and reset: "frame_reset ((frames s ! unat f)\<lparr>is_dirty := False\<rparr>) = Inr fr'"
    and s': "s' = s\<lparr>replacer := r, free_frames := free_frames s @ [f], page_table := AList.delete q (page_table s), scheduler := sch,
      frames := (frames s)[unat f := fr']\<rparr>"
    by (auto simp: evict_frame_def Let_def monad_simps)
  have "(q, f) \<in> set (page_table s)" using find_Some_iff [of "\<lambda>e. snd e = f" "page_table s" "(q, h)"] e by (metis in_set_conv_nth snd_conv)
  then have "table_ok s'" using ord by (intro table_ok_freed [of s q f s']) (simp_all add: s')
  moreover have "whole_frame (frames s ! unat f) fr'" using frame_reset_whole [OF reset] by (simp add: whole_frame_def)
  then have "frames_ok s'" using ord by (intro frames_ok_update [of s s' "unat f" fr']) (simp_all add: s')
  ultimately show "in_order s'" by simp
  show "num_frames s' = num_frames s" by (simp add: s')
qed

lemma load_order:
  assumes ord: "in_order s" and free: "free_frames s = fs @ [f]" and miss: "map_of (page_table s) p = None"
    and run: "seq (load_page p f (s\<lparr>free_frames := fs\<rparr>)) (write_guard_new p (unat f)) = Inr (g, s')"
  shows "in_order s'" and "num_frames s' = num_frames s" and "g_valid g" and "g_frame g < num_frames s"
proof -
  from run obtain s1 where load: "load_page p f (s\<lparr>free_frames := fs\<rparr>) = Inr s1" and new: "write_guard_new p (unat f) s1 = Inr (g, s')"
    by (auto simp: seq_Inr_iff)
  have upd: "AList.update p f (page_table s) = page_table s @ [(p, f)]"
    using miss by (intro set_update_new) (simp add: map_of_eq_None_iff)
  from load obtain b sch where lt: "unat f < length (frames s)" and len: "length b = length (fh_data (frames s ! unat f))"
    and s1: "s1 = s\<lparr>free_frames := fs, scheduler := sch, frames := (frames s)[unat f := (frames s ! unat f)\<lparr>fh_data := b\<rparr>],
      page_table := page_table s @ [(p, f)]\<rparr>"
    by (auto simp: load_page_def frame_copy_from_def lock_write_def unlock_write_def monad_simps upd split: rwlock.splits if_splits)
  let ?fr' = "(frames s ! unat f)\<lparr>fh_data := b\<rparr>"
  have fr': "whole_frame (frames s ! unat f) ?fr'" using len by (simp add: whole_frame_def)
  have "frames_ok s1" using ord fr' by (intro frames_ok_update [of s s1 "unat f" ?fr']) (simp_all add: s1)
  moreover have "table_ok s1"
    using ord miss free by (intro table_ok_moved [of s s1]) (simp_all add: s1 table_ok_def map_of_eq_None_iff)
  ultimately have o1: "in_order s1" "num_frames s1 = num_frames s" by (simp_all add: s1)
  note Q = quiet_guard_new [OF new]
  show "in_order s'" by (rule quiet_order [OF Q(1) o1(1)])
  show "num_frames s' = num_frames s" using Q(1) o1(2) by (simp add: quiet_def)
  show "g_valid g" "g_frame g < num_frames s" using Q(2) lt ord by (simp_all add: frames_ok_def)
qed

lemma check_write_order:
  assumes ord: "in_order s" and run: "check_write_page p s = Inr (g, s')"
  shows "in_order s' \<and> num_frames s' = num_frames s \<and> g_valid g \<and> g_frame g < num_frames s"
proof (cases "map_of (page_table s) p")
  case (Some f)
  then have lt: "unat f < length (frames s)" and new: "write_guard_new p (unat f) s = Inr (g, s')"
    using run by (auto simp: check_write_page_def monad_simps)
  note Q = quiet_guard_new [OF new]
  show ?thesis using quiet_order [OF Q(1) ord] Q lt ord by (simp add: quiet_def frames_ok_def)
next
  case None
  show ?thesis
  proof (cases "free_frames s" rule: rev_cases)
    case (snoc fs f)
    with run None have "seq (load_page p f (s\<lparr>free_frames := fs\<rparr>)) (write_guard_new p (unat f)) = Inr (g, s')"
      by (simp add: check_write_page_def pop_free_snoc)
    from load_order [OF ord snoc None this] show ?thesis by simp
  next
    case Nil
    with run None obtain s1 f s2 where ev: "evict_frame s = Inr s1" and pop: "pop_free_frame s1 = Inr (f, s2)"
      and rest: "seq (load_page p f s2) (write_guard_new p (unat f)) = Inr (g, s')"
      by (auto simp: check_write_page_def seq_Inr_iff)
    note E = evict_order [OF ord ev]
    from pop obtain fs where free: "free_frames s1 = fs @ [f]" and s2: "s2 = s1\<lparr>free_frames := fs\<rparr>"
      by (auto simp: pop_free_frame_def split: if_splits) (metis append_butlast_last_id)
    have "map_of (page_table s1) p = None"
      using ev None by (auto simp: evict_frame_def Let_def monad_simps delete_conv)
    from load_order [OF E(1) free this rest [unfolded s2]] E(2) show ?thesis by simp
  qed
qed

lemma delete_order:
  assumes ord: "in_order s" and run: "bpm_delete_page p s = Inr s'"
  shows "in_order s' \<and> num_frames s' = num_frames s"
proof (cases "map_of (page_table s) p")
  case None
  with run ord show ?thesis by (simp add: bpm_delete_page_def)
next
  case (Some f)
  show ?thesis
  proof (cases "pin_count (frames s ! unat f) > 0")
    case True
    with run ord Some show ?thesis by (simp add: bpm_delete_page_def monad_simps)
  next
    case False
    with run Some obtain fr' x sch where reset: "frame_reset (frames s ! unat f) = Inr fr'"
      and io: "disk_io ReqDelete p (replicate PAGE_SIZE 0) (scheduler s) = Inr (x, sch)"
      and lt: "unat f < length (frames s)" by (auto simp: bpm_delete_page_def Let_def monad_simps)
    let ?t = "s\<lparr>page_table := AList.delete p (page_table s), replacer := arc_remove f (replacer s),
      frames := (frames s)[unat f := fr'], free_frames := free_frames s @ [f], scheduler := sch\<rparr>"
    have "bpm_delete_page p s = Inr ?t"
      using Some False by (simp add: bpm_delete_page_def Let_def reset io lt)
    with run have s': "s' = ?t" by simp
    have "table_ok s'" by (rule table_ok_freed [OF conjunct2 [OF ord] map_of_SomeD [OF Some]]) (simp_all add: s')
    moreover have "frames_ok s'"
      using ord frame_reset_whole [OF reset] by (intro frames_ok_update [of s s' "unat f" fr']) (simp_all add: s')
    ultimately show ?thesis by (simp add: s')
  qed
qed

lemma new_page_quiet: "new_page s = Inr (p, s') \<Longrightarrow> quiet s s'"
  by (auto simp: new_page_def Let_def seq_Inr_iff quiet_def frames_ok_def)

lemma quiet_step: "in_order s \<and> num_frames s = n \<and> Q \<Longrightarrow> quiet s s' \<Longrightarrow> in_order s' \<and> num_frames s' = n \<and> Q"
  by (rule conjI [OF quiet_order]) (auto simp: quiet_def)

lemma pool_any_order:
  assumes "pool_any s0 gs s" and "in_order s0"
  shows "in_order s \<and> num_frames s = num_frames s0 \<and> (\<forall>g \<in> set gs. g_valid g \<and> g_frame g < num_frames s0)"
  using assms(1)
proof induction
  case start
  then show ?case using assms(2) by simp
next
  case (alloc gs s p s')
  from quiet_step [OF alloc.IH new_page_quiet [OF alloc.hyps(2)]] show ?case .
next
  case (delete gs s p s')
  then show ?case using delete_order [OF _ delete.hyps(2)] by simp
next
  case (take_write gs s p g s')
  from check_write_order [OF _ take_write.hyps(2)] take_write.IH show ?case by simp
next
  case (take_read gs s p g s')
  from check_write_order [OF _ take_read.hyps(2) [unfolded check_read_page_eq]] take_read.IH show ?case by simp
next
  case (flush gs s p r s')
  from quiet_step [OF flush.IH quiet_flush(1) [OF flush.hyps(2)]] show ?case .
next
  case (flush_all gs s r s')
  from quiet_step [OF flush_all.IH quiet_flush(2) [OF flush_all.hyps(2)]] show ?case .
next
  case (borrow_mut gs s g s')
  from quiet_step [OF borrow_mut.IH quiet_borrow_mut [OF borrow_mut.hyps(3)]] show ?case .
next
  case (borrow gs s g s')
  from quiet_step [OF borrow.IH quiet_borrow [OF borrow.hyps(3)]] show ?case .
next
  case (fill gs s g b)
  from quiet_step [OF fill.IH quiet_set_bytes [OF fill.hyps(3)]] show ?case .
next
  case (release_mut gs s g)
  from quiet_step [OF release_mut.IH quiet_release(1)] show ?case .
next
  case (release gs s g)
  from quiet_step [OF release.IH quiet_release(2)] show ?case .
next
  case (guard_flush gs s g r s')
  from quiet_step [OF guard_flush.IH quiet_guard_flush [OF guard_flush.hyps(3)]] show ?case .
next
  case (drop_guard gs s g s')
  have "set (remove1 g gs) \<subseteq> set gs" by (rule set_remove1_subset)
  with quiet_step [OF drop_guard.IH quiet_guard_drop [OF drop_guard.hyps(3)]] show ?case by blast
qed

end
