(* ===== verification/PoolDelete.thy ===== *)
theory PoolDelete
  imports PoolSteps
begin

text \<open>
  What the replacer entry that \<open>delete_page\<close> leaves behind does later: the deleted page's frame goes to another page,
  and the policy still counts it as a candidate under the old name.
\<close>

lemma access_no_ghost:
  assumes "p \<notin> set (mru_ghost r)" and "p \<notin> set (mfu_ghost r)"
  obtains r' where "record_access f p r = Inr r'"
proof -
  have "\<exists>r'. record_access f p r = Inr r'" using assms by (simp add: record_access_def Let_def)
  with that show ?thesis by blast
qed

text \<open>A first access while the policy remembers no evicted page.\<close>

lemma access_first:
  assumes "(f, q) \<notin> tracked r" and "mru_ghost r = []" and "mfu_ghost r = []" and "length (mru r) \<le> replacer_size r"
  obtains r' where "record_access f q r = Inr r'" and "mru r' = (f, q) # mru r" and "mru_ghost r' = []" and "mfu_ghost r' = []"
    and "evictable_pages r' = evictable_pages r" and "curr_size r' = curr_size r" and "mru_target_size r' = mru_target_size r"
proof -
  have "\<exists>r'. record_access f q r = Inr r' \<and> mru r' = (f, q) # mru r \<and> mru_ghost r' = [] \<and> mfu_ghost r' = []
    \<and> evictable_pages r' = evictable_pages r \<and> curr_size r' = curr_size r \<and> mru_target_size r' = mru_target_size r"
    using assms by (auto simp: record_access_def Let_def tracked_def)
  with that show ?thesis by blast
qed

text \<open>The candidate at the rear of the MRU list goes first.\<close>

lemma evict_rear:
  assumes "mru r = xs @ [(f, p)]" and "f \<in> evictable_pages r" and "mru_target_size r = 0" and "0 < unat (curr_size r)"
  obtains r' where "evict r = Inr (Some f, r')" and "mru_ghost r' = p # mru_ghost r" and "mfu_ghost r' = mfu_ghost r"
proof -
  have "scan_back (evictable_pages r) (mru r) (length (mru r)) = Some (length xs)" using assms(1,2) by (simp add: nth_append)
  moreover have "mru r ! length xs = (f, p)" using assms(1) by (simp add: nth_append)
  moreover have "1 \<le> curr_size r" using assms(4) by (simp add: word_le_nat_alt)
  ultimately show ?thesis using that assms(3) by (simp add: evict_def or_else_evict_def evict_from_mru_ghost_def checked_sub_def)
qed

text \<open>Loading a page into the one free frame, for any policy that grants the access.\<close>

lemma load_free:
  assumes "free_frames s = [f]" and "unat f < length (frames s)" and "fh_lock (frames s ! unat f) = Unlocked"
    and "fh_id (frames s ! unat f) = f" and "length (fh_data (frames s ! unat f)) = PAGE_SIZE" and "pin_count (frames s ! unat f) = 0"
    and "map_of (page_table s) p = None" and "sched_ok (scheduler s)" and "sched_view (scheduler s) p = Some b"
    and "record_access f p (replacer s) = Inr r"
  obtains sch where "check_write_page p s = Inr (\<lparr>g_page_id = p, g_frame = unat f, g_valid = True\<rparr>,
      s\<lparr>free_frames := [], scheduler := sch, replacer := r, page_table := page_table s @ [(p, f)],
        frames := (frames s)[unat f := (frames s ! unat f)\<lparr>fh_data := b, pin_count := 1\<rparr>]\<rparr>)"
    and "sched_ok sch" and "sched_view sch = sched_view (scheduler s)"
proof -
  from sched_read_ok [OF assms(8,9)] obtain sch where
    io: "disk_io ReqRead p (replicate PAGE_SIZE 0) (scheduler s) = Inr (Some b, sch)" "sched_ok sch" "sched_view sch = sched_view (scheduler s)" by blast
  have len: "length b = PAGE_SIZE"
    using disk_view_length [of "disk_mgr (scheduler s)" p b] assms(8,9) by (simp add: sched_view_def sched_ok_def)
  have upd: "AList.update p f (page_table s) = page_table s @ [(p, f)]"
    using assms(7) by (intro set_update_new) (simp add: map_of_eq_None_iff)
  show ?thesis
    by (rule that [OF _ io(2,3)])
      (use assms io(1) len upd in \<open>simp add: check_write_page_def pop_free_frame_def load_page_def write_guard_new_def upd_frame_def pin_def\<close>)
qed

lemma find_later: "find P xs = None \<Longrightarrow> find P (xs @ ys) = find P ys"
  by (induction xs) (auto split: if_splits)

text \<open>Evicting the page that has the one frame the policy picked.\<close>

lemma evict_entry_frame:
  assumes "page_table s = xs @ [(q, f)]" and "f \<notin> snd ` set xs" and "q \<notin> fst ` set xs" and "evict (replacer s) = Inr (Some f, r)"
    and "unat f < length (frames s)" and "fh_lock (frames s ! unat f) = Unlocked" and "length (fh_data (frames s ! unat f)) = PAGE_SIZE"
    and "sched_ok (scheduler s)"
  obtains sch where "evict_frame s = Inr (s\<lparr>replacer := r, free_frames := free_frames s @ [f], page_table := xs, scheduler := sch,
      frames := (frames s)[unat f := (frames s ! unat f)\<lparr>fh_data := replicate PAGE_SIZE 0, pin_count := 0, is_dirty := False\<rparr>]\<rparr>)"
    and "sched_ok sch" and "sched_view sch = (sched_view (scheduler s))(q \<mapsto> fh_data (frames s ! unat f))"
proof -
  from sched_write_ok [OF assms(8,7), of q] obtain sch where
    io: "disk_io ReqWrite q (fh_data (frames s ! unat f)) (scheduler s) = Inr (Some (fh_data (frames s ! unat f)), sch)"
      "sched_ok sch" "sched_view sch = (sched_view (scheduler s))(q \<mapsto> fh_data (frames s ! unat f))" by blast
  have "find (\<lambda>e. snd e = f) xs = None" using assms(2) by (force simp: find_None_iff)
  then have "find (\<lambda>e. snd e = f) (page_table s) = Some (q, f)" by (simp add: assms(1) find_later)
  moreover have "AList.delete q (page_table s) = xs" using assms(1,3) by (force simp: AList.delete_eq filter_id_conv)
  ultimately show ?thesis
    by (intro that [OF _ io(2,3)]) (use assms(4-7) io(1) in \<open>simp add: evict_frame_def Let_def\<close>)
qed

lemma lost_guard:
  assumes "pool_idle s" and "free_frames s = []" and "map_of (page_table s) p = Some f" and "mru (replacer s) = xs @ [(f, p)]"
    and "mru_target_size (replacer s) = 0" and "mru_ghost (replacer s) = []" and "mfu_ghost (replacer s) = []"
    and "pool_view s q = Some bq" and "pool_view s r = Some br" and "map_of (page_table s) q = None" and "map_of (page_table s) r = None"
    and "r \<noteq> q"
  shows "\<exists>s1 g s2 g' s3. bpm_delete_page p s = Inr s1 \<and> check_write_page q s1 = Inr (g, s2) \<and> check_write_page r s2 = Inr (g', s3)
    \<and> g_page_id g = q \<and> g_page_id g' = r \<and> guard_bytes g s2 = bq \<and> g_frame g' = g_frame g \<and> guard_bytes g s3 = br
    \<and> pin_count (frames s3 ! g_frame g) = 1 \<and> map_of (page_table s3) q = None"
proof -
  note entry = pool_inv_entry [OF assms(1,3)]
  let ?i = "unat f" and ?t = "AList.delete p (page_table s)"
  have rep: "arc_inv (replacer s)" "tracked (replacer s) = prod.swap ` set (page_table s)"
    and tb: "distinct (map fst (page_table s))" "distinct (map snd (page_table s))" and lk: "fh_lock (frames s ! ?i) = Unlocked"
    using assms(1) entry(1) by (simp_all add: pool_inv_def replacer_ok_def table_ok_def guards_ok_def)
  have ne: "q \<noteq> p" "r \<noteq> p" using assms(3,10,11) by auto
  have dq: "sched_view (scheduler s) q = Some bq" "sched_view (scheduler s) r = Some br"
    using assms(8-11) by (simp_all add: pool_view_def)
  obtain sch1 where D: "bpm_delete_page p s = Inr (s\<lparr>page_table := ?t,
      frames := (frames s)[?i := (frames s ! ?i)\<lparr>fh_data := replicate PAGE_SIZE 0, pin_count := 0, is_dirty := False\<rparr>],
      free_frames := free_frames s @ [f], scheduler := sch1\<rparr>)" (is "_ = Inr ?s1")
    and d1: "sched_ok sch1" "sched_view sch1 = (sched_view (scheduler s))(p := None)" and ev: "f \<in> evictable_pages (replacer s)"
    by (rule delete_unpinned [OF assms(1,3)]) simp
  have tf: "f \<notin> snd ` set ?t"
  proof
    assume "f \<in> snd ` set ?t"
    then obtain x where "(x, f) \<in> set (page_table s)" "x \<noteq> p" by (auto simp: AList.delete_eq)
    then have "map_of (page_table s) x = Some f" using tb(1) by simp
    with pool_inv_table_inj [OF assms(1) _ assms(3)] \<open>x \<noteq> p\<close> show False by blast
  qed
  have nt: "(f, q) \<notin> tracked (replacer s)" using assms(10) rep(2) by (force simp: map_of_eq_None_iff)
  have "length (mru (replacer s)) \<le> replacer_size (replacer s)" using rep(1) by (simp add: arc_inv_def)
  from access_first [OF nt assms(6,7) this] obtain r1 where
    A: "record_access f q (replacer s) = Inr r1" "mru r1 = (f, q) # mru (replacer s)" "mru_ghost r1 = []" "mfu_ghost r1 = []"
      "evictable_pages r1 = evictable_pages (replacer s)" "curr_size r1 = curr_size (replacer s)" "mru_target_size r1 = mru_target_size (replacer s)" .
  let ?fr1 = "frames ?s1 ! ?i"
  obtain sch2 where L: "check_write_page q ?s1 = Inr (\<lparr>g_page_id = q, g_frame = ?i, g_valid = True\<rparr>,
      ?s1\<lparr>free_frames := [], scheduler := sch2, replacer := r1, page_table := ?t @ [(q, f)],
        frames := (frames ?s1)[?i := ?fr1\<lparr>fh_data := bq, pin_count := 1\<rparr>]\<rparr>)" (is "_ = Inr (?g, ?s2)")
    and d2: "sched_ok sch2" "sched_view sch2 = sched_view sch1"
    by (rule load_free [of ?s1 f q bq r1])
      (use assms(2,10) entry(2,6) lk d1 dq ne A(1) in \<open>simp_all add: delete_conv\<close>)
  have "mru r1 = ((f, q) # xs) @ [(f, p)]" using A(2) assms(4) by simp
  moreover have "0 < unat (curr_size r1)"
  proof -
    have "finite (evictable_pages (replacer s))" "card (evictable_pages (replacer s)) \<le> unat (curr_size (replacer s))"
      using rep(1) by (simp_all add: arc_inv_def)
    with ev have "0 < unat (curr_size (replacer s))" by (metis card_gt_0_iff empty_iff less_le_trans)
    with A(6) show ?thesis by simp
  qed
  ultimately obtain r2 where E: "evict r1 = Inr (Some f, r2)" "mru_ghost r2 = [p]" "mfu_ghost r2 = []"
    using evict_rear [of r1 "(f, q) # xs" f p] ev A(3-5,7) assms(5) by metis
  have qt: "q \<notin> fst ` set ?t" using assms(10) by (auto simp: map_of_eq_None_iff AList.delete_eq)
  let ?fr2 = "frames ?s2 ! ?i"
  obtain sch3 where V: "evict_frame ?s2 = Inr (?s2\<lparr>replacer := r2, free_frames := free_frames ?s2 @ [f], page_table := ?t, scheduler := sch3,
      frames := (frames ?s2)[?i := ?fr2\<lparr>fh_data := replicate PAGE_SIZE 0, pin_count := 0, is_dirty := False\<rparr>]\<rparr>)" (is "_ = Inr ?s2'")
    and d3: "sched_ok sch3" "sched_view sch3 = (sched_view sch2)(q \<mapsto> fh_data ?fr2)"
    by (rule evict_entry_frame [of ?s2 ?t q f r2])
      (use tf qt E(1) entry(2) lk d2 assms(8) pool_view_length [OF assms(1)] in simp_all)
  obtain r3 where A3: "record_access f r r2 = Inr r3" by (rule access_no_ghost [of r r2 f]) (use E(2,3) ne in simp_all)
  have "map_of ?t r = None" using assms(11) ne by (simp add: delete_conv)
  moreover have "sched_view sch3 r = Some br" using d1(2) d2(2) d3(2) dq(2) ne assms(12) by simp
  ultimately obtain sch4 where M: "check_write_page r ?s2' = Inr (\<lparr>g_page_id = r, g_frame = ?i, g_valid = True\<rparr>,
      ?s2'\<lparr>free_frames := [], scheduler := sch4, replacer := r3, page_table := ?t @ [(r, f)],
        frames := (frames ?s2')[?i := (frames ?s2' ! ?i)\<lparr>fh_data := br, pin_count := 1\<rparr>]\<rparr>)" (is "_ = Inr (?g', ?s3)")
    by (rule_tac load_free [of ?s2' f r br r3]) (use entry(2,6) lk d3(1) A3 in simp_all)
  have miss: "map_of (page_table ?s2) r = None" using \<open>map_of ?t r = None\<close> assms(12) by (simp add: map_add_def)
  have "check_write_page r ?s2 = Inr (?g', ?s3)"
    unfolding M [symmetric] by (rule request_evicts [OF miss _ V]) (use \<open>map_of ?t r = None\<close> in simp_all)
  moreover have "map_of (?t @ [(r, f)]) q = None" using assms(10,12) ne by (simp add: map_add_def delete_conv)
  ultimately show ?thesis using D L entry(2) by (intro exI conjI) (assumption | simp add: guard_bytes_def)+
qed

lemma bpm_new_order:
  assumes "n < 2 ^ 32"
  shows "in_order (bpm_new n d)"
proof -
  have un: "unat (of_nat i :: u32) = i" if "i < n" for i using that assms by (intro unat_of_nat_u32) simp
  have inj: "inj_on (of_nat :: nat \<Rightarrow> u32) {0..<n}"
    by (rule inj_onI) (metis un atLeastLessThan_iff)
  have "(\<lambda>i. unat (of_nat i :: u32)) ` {0..<n} = (\<lambda>i. i) ` {0..<n}" by (rule image_cong) (simp_all add: un)
  then have "unat ` (of_nat :: nat \<Rightarrow> u32) ` {0..<n} = {..<n}" by (simp add: image_image atLeast0LessThan)
  then show ?thesis using inj by (simp add: frames_ok_def table_ok_def bpm_new_def frame_new_def distinct_map)
qed

text \<open>A pool it happens to: one frame and three pages, page 0 in the frame.\<close>

lemma three_page_run:
  obtains d s where "disk_ok d" and "disk_view d = Map.empty" and "pool_any (bpm_new 1 d) [] s" and "pool_idle s"
    and "free_frames s = []" and "page_table s = [(0, 0)]" and "mru (replacer s) = [] @ [(0, 0)]" and "mru_target_size (replacer s) = 0"
    and "mru_ghost (replacer s) = []" and "mfu_ghost (replacer s) = []" and "\<forall>p \<in> {1, 2}. pool_view s p = Some (replicate PAGE_SIZE 0)"
proof -
  have "faults \<lparr>fbytes = [], fpos = 0, faults = []\<rparr> = []" by simp
  from dm_new_ok [OF this] obtain d where d: "disk_ok d" "disk_view d = Map.empty" by blast
  let ?s0 = "bpm_new 1 d" and ?z = "replicate PAGE_SIZE 0 :: u8 list"
  have i0: "pool_idle ?s0" by (rule bpm_new_idle(1) [OF d]) simp
  have n0: "unat (next_page_id ?s0) + 1 < 2 ^ 32" "next_page_id ?s0 = 0" by (simp_all add: bpm_new_def)
  from new_page_inv [OF i0 n0(1), unfolded n0(2)] obtain s1 where s1: "new_page ?s0 = Inr (0, s1)" "pool_idle s1" "pool_view s1 = (pool_view ?s0)(0 \<mapsto> ?z)"
    "next_page_id s1 = 1" "page_table s1 = page_table ?s0" "free_frames s1 = free_frames ?s0" "replacer s1 = replacer ?s0" by auto
  have n1: "unat (next_page_id s1) + 1 < 2 ^ 32" by (simp add: s1(4))
  from new_page_inv [OF s1(2) n1] obtain s2 where s2: "new_page s1 = Inr (1, s2)" "pool_idle s2" "pool_view s2 = (pool_view s1)(1 \<mapsto> ?z)"
    "next_page_id s2 = 2" "page_table s2 = page_table ?s0" "free_frames s2 = free_frames ?s0" "replacer s2 = replacer ?s0"
    by (auto simp: s1(4-7))
  have n2: "unat (next_page_id s2) + 1 < 2 ^ 32" by (simp add: s2(4))
  from new_page_inv [OF s2(2) n2] obtain s3 where s3: "new_page s2 = Inr (2, s3)" "pool_idle s3" "pool_view s3 = (pool_view s2)(2 \<mapsto> ?z)"
    "page_table s3 = []" "free_frames s3 = [] @ [0]" "replacer s3 = arc_new 1"
    by (auto simp: s2(4-7) bpm_new_def)
  have v3: "pool_view s3 0 = Some ?z" "pool_view s3 1 = Some ?z" "pool_view s3 2 = Some ?z" using s3(3) s2(3) s1(3) by simp_all
  have sz: "size ({#} :: nat multiset) + 1 < 2 ^ 64" by simp
  have miss: "map_of (page_table s3) 0 = None" using s3(4) by simp
  have ghost: "0 \<notin> set (mfu_ghost (replacer s3))" by (simp add: s3(6) arc_new_def)
  obtain g s4 where ck: "check_write_page 0 s3 = Inr (g, s4)"
    using check_write_hit_or_free_panic [OF s3(2) v3(1), of ] s3(5) ghost by (cases "check_write_page 0 s3") fastforce+
  then have "seq (load_page 0 0 (s3\<lparr>free_frames := []\<rparr>)) (write_guard_new 0 (unat (0 :: frame_id))) = Inr (g, s4)"
    using miss s3(5) by (simp add: check_write_page_def pop_free_snoc)
  note F = fetch_free_inv [OF s3(2,5) miss v3(1) sz this]
  have rep4: "mru (replacer s4) = [(0, 0)]" "mru_target_size (replacer s4) = 0" "mru_ghost (replacer s4) = []" "mfu_ghost (replacer s4) = []"
    using F(9) [symmetric] unfolding s3(6) by (auto simp: record_access_def arc_new_def Let_def)
  have cs: "unat (curr_size (replacer s4)) + 1 < 2 ^ 32" using F(8) by (simp add: s3(6) arc_new_def)
  from guard_drop_total [OF cs] obtain s5 where dr: "write_guard_drop g s4 = Inr s5" by blast
  have inv4: "pool_inv {#0#} {} s4" "g_valid g" "g_frame g = 0" using F(1,3) by simp_all
  from guard_drop_inv [OF inv4(1,2) _ _ dr] inv4(3) have D: "pool_idle s5" "pool_view s5 = pool_view s4" "same_pool s4 s5" by simp_all
  have rep5: "mru (replacer s5) = mru (replacer s4) \<and> mru_target_size (replacer s5) = mru_target_size (replacer s4)
    \<and> mru_ghost (replacer s5) = mru_ghost (replacer s4) \<and> mfu_ghost (replacer s5) = mfu_ghost (replacer s4)"
    using dr by (auto simp: write_guard_drop_def Let_def set_evictable_def seq_Inr_iff split: if_splits)
  have "pool_any ?s0 [] s3" using s1(1) s2(1) s3(1) pool_any.start pool_any.alloc by metis
  then have "pool_any ?s0 [g] s4" by (rule pool_any.take_write [OF _ ck])
  from pool_any.drop_guard [OF this _ dr] have "pool_any ?s0 [] s5" by simp
  with that [OF d this D(1)] D(2,3) F(2,4,5) s3(4) rep4 rep5 v3 show ?thesis by (simp add: same_pool_def)
qed

section \<open>Properties\<close>



text \<open>C21: Frames and table in every reachable state. From a new pool of any size over a disk manager in any state, a client may
  ask for any page ids, delete pages, hold any guards and borrows, flush, and run into any eviction and any disk
  fault: in every state it can reach each frame carries its own index and a whole page, every frame
  is either free or holds exactly one page and no page has two frames, the number of frames is what it was, and every
  guard points to one of them.\<close>

theorem pool_states_typed:
  assumes "n < 2 ^ 32" and "pool_any (bpm_new n d) gs s"
  shows "num_frames s = n \<and> map fh_id (frames s) = map of_nat [0..<n] \<and> (\<forall>fr \<in> set (frames s). length (fh_data fr) = PAGE_SIZE)
    \<and> distinct (map fst (page_table s)) \<and> distinct (map snd (page_table s) @ free_frames s)
    \<and> unat ` set (map snd (page_table s) @ free_frames s) = {..<n} \<and> (\<forall>g \<in> set gs. g_valid g \<and> g_frame g < n)"
proof -
  have ord: "in_order s" "num_frames s = n" "\<forall>g \<in> set gs. g_valid g \<and> g_frame g < n"
    using pool_any_order [OF assms(2) bpm_new_order [OF assms(1)]] by (simp_all add: bpm_new_def)
  then have fr: "length (frames s) = n" "\<forall>i < n. fh_id (frames s ! i) = of_nat i \<and> length (fh_data (frames s ! i)) = PAGE_SIZE"
    by (simp_all add: frames_ok_def)
  then have "map fh_id (frames s) = map of_nat [0..<n]" by (simp add: list_eq_iff_nth_eq)
  moreover have "\<forall>fr \<in> set (frames s). length (fh_data fr) = PAGE_SIZE" using fr by (metis in_set_conv_nth)
  ultimately show ?thesis using ord unfolding table_ok_def by blast
qed

theorem pool_states_typed_witness:
  "\<exists>d s g g'. pool_any (bpm_new 1 d) [g', g] s \<and> g_frame g' = g_frame g \<and> g_page_id g' \<noteq> g_page_id g
    \<and> map fh_id (frames s) = [0] \<and> g_frame g < 1"
proof -
  obtain d s where R: "pool_any (bpm_new 1 d) [] s" "pool_idle s" "free_frames s = []" "page_table s = [(0, 0)]"
    "mru (replacer s) = [] @ [(0, 0)]" "mru_target_size (replacer s) = 0" "mru_ghost (replacer s) = []" "mfu_ghost (replacer s) = []"
    "\<forall>p \<in> {1, 2}. pool_view s p = Some (replicate PAGE_SIZE 0)" by (rule three_page_run) blast
  have "map_of (page_table s) 0 = Some 0" "map_of (page_table s) 1 = None" "map_of (page_table s) 2 = None" "(2 :: page_id) \<noteq> 1"
    using R(4) by simp_all
  with lost_guard [OF R(2,3) _ R(5-8), of 1 "replicate PAGE_SIZE 0" 2 "replicate PAGE_SIZE 0"] R(9) obtain s1 g s2 g' s3 where
    T: "bpm_delete_page 0 s = Inr s1" "check_write_page 1 s1 = Inr (g, s2)" "check_write_page 2 s2 = Inr (g', s3)"
      "g_page_id g = 1" "g_page_id g' = 2" "g_frame g' = g_frame g" by auto
  have run: "pool_any (bpm_new 1 d) [g', g] s3"
    by (rule pool_any.take_write [OF pool_any.take_write [OF pool_any.delete [OF R(1) T(1)] T(2)] T(3)])
  have "(1 :: nat) < 2 ^ 32" by simp
  from pool_states_typed [OF this run] run T(4-6) show ?thesis by (intro exI conjI) (assumption | simp)+
qed

end
