(* ===== verification/Program.thy ===== *)
theory Program
  imports PoolGuards
begin

text \<open>
  \<open>main.rs\<close>: the program's entry point, a run of a pool of 100 frames over \<open>test.db\<close>: a new page, a read guard
  that is dropped at once, a write guard whose bytes become ones, and a flush. When \<open>main\<close>
  returns the pool goes, and with it the scheduler and its thread; what is left is the file.
\<close>

text \<open>\<open>fill(1)\<close> on the bytes of a page.\<close>

definition fill_ones :: "u8 list \<Rightarrow> (unit \<times> u8 list) res" where
  "fill_ones bs = Inr ((), replicate (length bs) 1)"

definition main_program :: "os_file option \<Rightarrow> disk_manager res" where
  "main_program opened =
     seq (dm_new opened) (\<lambda>d.
       seq (new_page (bpm_new 100 d)) (\<lambda>(p, s1).
         seq (check_read_page p s1) (\<lambda>(g, s2).
           seq (read_guard_drop g s2) (\<lambda>s3.
             seq (with_write_page p fill_ones s3) (\<lambda>(_, s4).
               seq (flush_page p s4) (\<lambda>(_, s5).
                 Inr (disk_mgr (scheduler_drop (scheduler s5)))))))))"

lemma drop_idle_scheduler:
  assumes "sched_ok s"
  shows "disk_mgr (scheduler_drop s) = disk_mgr s"
  using scheduler_drop_serves [of s "[]" "[]" "disk_mgr s"] assms by (simp add: sched_ok_def sched_idle_def)

text \<open>The block of the read guard that is dropped at once.\<close>

lemma touch_page:
  assumes w: "working {#} {} (Suc (Suc n)) s" and b: "pool_view s p = Some b"
  obtains g s1 s' where "check_read_page p s = Inr (g, s1)" and "read_guard_drop g s1 = Inr s'" and "working {#} {} n s'"
    and "pool_view s' = pool_view s" and "grows s s'" and "next_page_id s' = next_page_id s"
proof -
  obtain g s1 where T: "check_write_page p s = Inr (g, s1)" "working (add_mset (g_frame g) {#}) {} (Suc n) s1" "guard_on g s1"
    "g_page_id g = p" "pool_view s1 = pool_view s" "grows s s1" "next_page_id s1 = next_page_id s" by (rule take_guard [OF w b])
  obtain s' where "write_guard_drop g s1 = Inr s'" "working (add_mset (g_frame g) {#} - {#g_frame g#}) {} n s'"
    "pool_view s' = pool_view s1" "grows s1 s'" "next_page_id s' = next_page_id s1" by (rule drop_guard [OF T(2,3)]) simp_all
  with that [of g s1 s'] T grows_trans [OF T(6)] show ?thesis by (simp add: check_read_page_eq read_guard_as_write)
qed

text \<open>Flushing a page the pool may or may not hold leaves the disk with the page's bytes.\<close>

lemma flush_page_ok:
  assumes w: "working {#} {} (Suc n) s" and b: "pool_view s p = Some b"
  obtains r s' where "flush_page p s = Inr (r, s')" and "pool_idle s'" and "pool_view s' = pool_view s"
    and "sched_view (scheduler s') p = Some b" and "next_page_id s' = next_page_id s"
proof (cases "map_of (page_table s) p")
  case None
  with that [of False s] w b show ?thesis by (simp add: flush_page_frame working_def pool_view_def)
next
  case (Some f)
  have inv: "pool_idle s" and rm: "unat (curr_size (replacer s)) + 1 < 2 ^ 32" using w by (simp_all add: working_def)
  from flush_frame_total [OF inv Some _ _ rm] obtain r s' where run: "flush_frame p f s = Inr (r, s')" by auto
  have "fh_data (frames s ! unat f) = b" using b Some by (simp add: pool_view_def)
  with that [of r s'] flush_frame_inv [OF inv Some _ _ run] run Some show ?thesis
    by (simp add: flush_page_frame same_pool_def)
qed

section \<open>Property\<close>

text \<open>C23: The program. On a file without faults, whatever it holds, \<open>main\<close> runs to its end, and then the disk
  has exactly one page, page 0, of 8192 ones.\<close>

theorem main_writes_ones:
  assumes "faults f = []"
  shows "\<exists>d. main_program (Some f) = Inr d \<and> disk_ok d \<and> disk_view d = [0 \<mapsto> replicate PAGE_SIZE 1]"
proof -
  from dm_new_ok [OF assms] obtain d where d: "dm_new (Some f) = Inr d" "disk_ok d" "disk_view d = Map.empty" by blast
  let ?s0 = "bpm_new 100 d"
  have n: "next_page_id ?s0 = 0" "num_frames ?s0 = 100" by (simp_all add: bpm_new_def)
  have w0: "working {#} {} (Suc (Suc (Suc (Suc (Suc 0))))) ?s0" using working_new_pool [OF d(2,3), of 100] by (simp add: working_def)
  have v0: "pool_view ?s0 = Map.empty" using working_new_pool [OF d(2,3), of 100] by simp
  obtain s1 where s1: "new_page ?s0 = Inr (next_page_id ?s0, s1)" "working {#} {} (Suc (Suc (Suc (Suc (Suc 0))))) s1"
    "pool_view s1 = (pool_view ?s0)(next_page_id ?s0 \<mapsto> replicate PAGE_SIZE 0)" "next_page_id s1 = next_page_id ?s0 + 1"
    by (rule fresh_page [OF w0]) (simp_all add: n)
  have b1: "pool_view s1 0 = Some (replicate PAGE_SIZE 0)" using s1(3) n by simp
  obtain g s2 s3 where s3: "check_read_page 0 s1 = Inr (g, s2)" "read_guard_drop g s2 = Inr s3"
    "working {#} {} (Suc (Suc (Suc 0))) s3" "pool_view s3 = pool_view s1" "next_page_id s3 = next_page_id s1"
    by (rule touch_page [OF s1(2) b1])
  have b3: "pool_view s3 0 = Some (replicate PAGE_SIZE 0)" using b1 s3(4) by simp
  have fo: "fill_ones (replicate PAGE_SIZE 0) = Inr ((), replicate PAGE_SIZE 1)" by (simp add: fill_ones_def)
  obtain s4 where s4: "with_write_page 0 fill_ones s3 = Inr ((), s4)" "working {#} {} (Suc 0) s4"
    "pool_view s4 = (pool_view s3)(0 \<mapsto> replicate PAGE_SIZE 1)" "next_page_id s4 = next_page_id s3"
    by (rule write_block [where k = fill_ones, OF s3(3) b3 fo]) (simp_all add: unborrowed_def)
  have b4: "pool_view s4 0 = Some (replicate PAGE_SIZE 1)" using s4(3) by simp
  obtain r s5 where s5: "flush_page 0 s4 = Inr (r, s5)" "pool_idle s5" "pool_view s5 = pool_view s4"
    "sched_view (scheduler s5) 0 = Some (replicate PAGE_SIZE 1)" "next_page_id s5 = next_page_id s4"
    by (rule flush_page_ok [OF s4(2) b4])
  have ok: "sched_ok (scheduler s5)" and dom: "dom (sched_view (scheduler s5)) = {p. p < 1}"
    using s5(2,5) s4(4) s3(5) s1(4) n by (simp_all add: pool_inv_def disk_side_ok_def)
  have zero: "{p :: page_id. p < 1} = {0}" by (auto simp: word_less_nat_alt unat_eq_0)
  have "sched_view (scheduler s5) = [0 \<mapsto> replicate PAGE_SIZE 1]"
  proof
    fix q show "sched_view (scheduler s5) q = [0 \<mapsto> replicate PAGE_SIZE 1] q"
      using dom s5(4) unfolding zero by (cases "q = 0") (auto simp: dom_def)
  qed
  moreover have "main_program (Some f) = Inr (disk_mgr (scheduler_drop (scheduler s5)))"
    using d(1) s1(1) s3(1,2) s4(1) s5(1) n by (simp add: main_program_def)
  ultimately show ?thesis using drop_idle_scheduler [OF ok] ok by (simp add: sched_view_def sched_ok_def)
qed

theorem main_writes_ones_witness:
  "\<exists>d. main_program (Some \<lparr>fbytes = [7, 7, 7], fpos = 0, faults = []\<rparr>) = Inr d \<and> disk_view d 0 = Some (replicate PAGE_SIZE 1)"
  using main_writes_ones [of "\<lparr>fbytes = [7, 7, 7], fpos = 0, faults = []\<rparr>"] by fastforce

end
