(* ===== verification/Spec2Isabelle.thy ===== *)
theory Spec2Isabelle
  imports TreeTests BTreeEvict ArcPolicy ArcTests StorageTests PoolSections PoolDelete Program
begin

text \<open>
  A development for a small disk-based storage engine: a file of pages, a thread that serves disk requests,
  a buffer pool with the ARC replacement policy, and a B+ tree over the pool. File names are under
  \<open>src/src/\<close>.

  \<^bold>\<open>Parts and how they interact.\<close> A \<open>DiskManager\<close> keeps pages in one file and maps page ids to offsets. A
  \<open>DiskScheduler\<close> owns a thread that takes requests off a channel, hands them to the disk manager and
  answers on the channel that came with the request. The \<open>BufferPoolManager\<close> keeps pages in frames; it
  asks the \<open>ArcReplacer\<close> for a victim when no frame is free, and talks to the disk through the
  scheduler only. Its clients get a \<open>ReadPageGuard\<close> or a \<open>WritePageGuard\<close>, which pins the page, takes
  the frame's lock for each borrow of the bytes, and unpins when dropped. \<open>BTree\<close> keeps its nodes
  in pages of a pool of ten frames, and its root's page id in a header page.

  \<^bold>\<open>Theories.\<close>

  \<^item> \<open>Prelude\<close>: integer types and constants of \<open>common.rs\<close>, panics as the sum \<open>'a res = panic + 'a\<close> with
    \<open>seq\<close>, byte slices, little-endian integers, \<open>VecDeque\<close>s and hash maps as lists.
  \<^item> \<open>PageDevice\<close>: the interface of a layer towards the one above, as locales (a device of numbered pages,
    and one that never fails), and the page array \<open>view_run\<close> that is its specification.
  \<^item> \<open>FrameHeader\<close> (\<open>frame_header.rs\<close>): a frame, its pin count, its lock; a lock that would not be granted
    to a single thread is the outcome \<open>WouldBlock\<close>.
  \<^item> \<open>DiskManager\<close> (\<open>disk_manager.rs\<close>): the file with system calls that may fail according to a list of
    faults, \<open>new\<close>, \<open>write_page\<close>, \<open>read_page\<close>, \<open>delete_page\<close>; its invariant \<open>disk_ok\<close>, what it stores
    \<open>disk_view\<close>, and the interpretation of the total page device.
  \<^item> \<open>DiskScheduler\<close> (\<open>disk_scheduler.rs\<close>): queue, worker, reply channels; the interleavings of clients and
    worker as the step relation \<open>sched_step\<close>, and the synchronous round trip \<open>disk_io\<close>.
  \<^item> \<open>ArcReplacer\<close> (\<open>arc_replacer.rs\<close>): the four lists, ghost hits, eviction, removal; the locale
    \<open>page_replacer\<close> is what the pool needs of a policy. \<open>ArcPolicy\<close>: what an access does, in full, and the states
    that any calls reach, \<open>arc_run\<close>.
  \<^item> \<open>Guard\<close> (\<open>guard.rs\<close>) and \<open>BufferPool\<close> (\<open>buffer_pool.rs\<close>): guards over the shared state, the five
    requests of the pool, the invariant \<open>pool_inv G L\<close> (\<open>G\<close> the frames of the live guards, \<open>L\<close> the frames
    under a write borrow), and what the pool holds, \<open>pool_view\<close>.
  \<^item> \<open>PoolClient\<close>: flushing, the blocks clients are made of (\<open>with_read_page\<close>, \<open>with_write_page\<close>), the pool as
    a page device, and its properties. \<open>PoolGuards\<close>: the same for code that holds several guards.
    \<open>PoolReaders\<close>: code that reads through several borrows at once, and runs as it would alone. \<open>PoolRequests\<close>: what such
    code asks of a pool as a sequence of requests (new page, guard taken, guard dropped), and the locale \<open>request_pool\<close> of
    the pools that carry a sequence through: those with a frame for every page, and those whose policy, run on
    the sequence alone (\<open>survives\<close>), never overflows or picks a pinned frame.
  \<^item> \<open>NodeCodec\<close> and \<open>NodeSearch\<close> (\<open>b_plus_tree.rs\<close>): nodes, their page layout, the two binary searches.
  \<^item> \<open>BTree\<close> (\<open>b_plus_tree.rs\<close>): \<open>new\<close>, the setters, \<open>find\<close>, \<open>scan\<close> and its iterator, and \<open>insert\<close> with its
    stack of guards, splits and new roots.
  \<^item> \<open>BTreeLookup\<close>, \<open>BTreeShape\<close>, \<open>BTreeNew\<close>: trees as values (\<open>shape\<close>), when pages store one (\<open>stored\<close>, \<open>represents\<close>), what is
    ordered, balanced, bounded and linked (\<open>tree_inv\<close>), and the proofs that lookup and scan compute on pages
    what they should on shapes. \<open>BTreeStored\<close>, \<open>BTreeDescend\<close>, \<open>BTreeClimb\<close>, \<open>BTreeInsert\<close>: the same for insertion, the way down
    with its stack of guards and the way up, for any pool that carries their requests. \<open>BTreeGrow\<close> counts the pages a tree of
    two levels takes, and fills a tree from the file on. \<open>BTreeReference\<close>: insertion as a recursive function
    \<open>tree_insert\<close> on the tree and the next page id, which the code's descent and way up equal, page ids included.
    \<open>BTreeEvict\<close>: insertion while pages are evicted.
  \<^item> \<open>PoolRun\<close>: clients of the pool with any number of guards and borrows that never delete a page, as the step
    relation \<open>pool_run\<close>, and what a borrow blocks. \<open>PoolSections\<close>: the order of the policy's lists, and such clients
    with short critical sections, \<open>section_run\<close>, to which no pinned frame is lost. \<open>PoolSteps\<close>: every operation
    without a condition, \<open>pool_any\<close>. \<open>PoolDelete\<close>: what a deletion leaves behind, and what holds in every state all the same.
    \<open>Program\<close> (\<open>main.rs\<close>): the entry point.
  \<^item> \<open>ArcTests\<close>, \<open>StorageTests\<close>, \<open>TreeTests\<close>: the unit tests of the modules as computations of the model, and
    that they pass; the tests of the tree are evaluated through \<open>tree_insert\<close>.

  \<^bold>\<open>What is shown.\<close> Each layer refines an array of pages: the disk manager on a file without faults, the
  scheduler under any interleaving, and the pool with any number of evictions while its client holds one guard at a
  time. Around these: on a file without faults the disk manager holds what was written last and its pages share no byte,
  as long as no unknown page is read while a deleted slot is free; an overwrite that an I/O error interrupts touches no
  other page; the policy keeps its target in range, keeps its lists disjoint and bounded unless an access puts a page on a
  frame that still has an entry, changes them on each access exactly as a specification over lists says, evicts
  the rear-most candidate of the favoured list, and drains; a flush makes the disk agree with the pool.

  Guards: a client that never deletes a page and whose critical sections touch few pages keeps every guarded page through
  evictions; its guards show their pages, pin counts count them and locks follow the borrows. This is not so for
  every client, since the policy may evict a pinned frame, and a deletion leaves an entry behind that costs a later guard its
  frame: both are properties here. What every client has, in every state and over any disk, is the discipline of
  frames and page table.

  For the tree: nodes survive the trip through a page exactly up to the capacity of the page, the binary searches equal
  linear scans, lookup is the map lookup in the tree's contents, a scan ends and yields the leaves from the key's leaf
  on, and insertion adds exactly its entry, keeps the tree's invariant through every split, and builds the tree the
  recursive insertion builds. Some properties state where the code does not do what it means to: a pinned frame that is
  evicted, a frame lost after a deletion, an arithmetic panic of the policy, a slot that two pages share, a lookup in
  a new tree that panics, a leaf size larger than a page.

  \<^bold>\<open>Bounds and loops.\<close> Page ids, frame ids, keys, record fields, pin counts and the policy's counters are words of their
  width; \<open>+ 1\<close> on \<open>u32\<close> counters of the code that would panic in a debug build goes through \<open>checked_add\<close> and
  \<open>checked_sub\<close>. Lengths and indices, and the disk manager's \<open>page_capacity\<close>, byte offsets, \<open>num_writes\<close> and \<open>num_deletes\<close>,
  64 bits wide in the code, are unbounded natural numbers. The policy's \<open>curr_size\<close> grows with each unpin, so statements
  that a run cannot fail carry a budget: \<open>room n s\<close> and \<open>working G L n s\<close> say that \<open>n\<close> more unpins fit
  in 32 bits. They also say that the pool is \<open>resident\<close>, that every page ever made has a frame, which is
  where nothing is evicted. Outside it a pinned node can lose its frame, so insertion is shown there on the condition that
  the policy survives the insertion's requests. Lookup and scan hold for any number of frames. Properties about
  guards and bytes take pools of fewer than \<open>2 ^ 30\<close> frames. The loops that walk
  pages are \<open>partial_function (option)\<close>: \<open>None\<close> means that they never end, and the properties show it does
  not happen on stored trees. No fuel is used.

  \<^bold>\<open>Not modelled.\<close> \<open>TreeNode\<close> and \<open>DEPRECATED_LocatedNode\<close>, which no code uses; the pool's latch, held for the
  length of a method and never twice; reference counts of \<open>Arc\<close>; capacities of vectors; the clock value in
  the policy's entries, which nothing reads; the unit tests \<open>btree_split_stops_at_grandparent\<close> and \<open>btree_find\<close>, whose
  eleven pages do not fit ten frames (the tests are evaluated in pools that do not evict), and the empty \<open>test_multiple_threads_read_write_delete_operations\<close>. Several client threads are modelled at the scheduler,
  whose methods take \<open>&self\<close>; the pool and the tree are used through \<open>&mut self\<close> and are
  sequential. \<open>sort_unstable_by_key\<close> may order equal keys either way; the properties of insertion are about
  new keys.
\<close>

end
